(* ===== verification/Prelude.thy ===== *)
theory Prelude
  imports Main "HOL-Library.Word"
begin

text \<open>
  Shared vocabulary of the development: the machine integer types of the C++ sources, the
  collections of simplification rules the component theories fill, and generic lemmas on lists
  and words that several components use.
\<close>

type_synonym byte = "8 word"
type_synonym u16 = "16 word"
type_synonym u32 = "32 word"
type_synonym u64 = "64 word"

named_theorems wire_simps "reading a field of a byte buffer after writing one"
named_theorems machine_simps "evaluation of a state machine tick"
named_theorems frame_simps "fields an operation leaves alone"

unbundle bit_operations_syntax

section \<open>Lists\<close>

lemma list_eq_take_dropI:
  assumes "take n xs = take n ys" and "drop n xs = drop n ys"
  shows "xs = ys"
  using assms by (metis append_take_drop_id)

lemma nth_all_eqI:
  assumes "length xs = length ys" and "\<And>i. i < length ys \<Longrightarrow> xs ! i = ys ! i"
  shows "xs = ys"
  using assms by (simp add: list_eq_iff_nth_eq)

lemma length_2_cases:
  assumes "length xs = 2"
  obtains x y where "xs = [x, y]"
  using assms by (metis (no_types, lifting) One_nat_def Suc_1 length_0_conv length_Suc_conv)

lemma less_2_cases_nat: "(i::nat) < 2 \<longleftrightarrow> i = 0 \<or> i = 1"
  by auto

lemma upt_0_2: "[0..<2] = [0, 1::nat]"
  by (simp add: upt_rec)

section \<open>Words\<close>

lemma unat_max_word: "unat (- 1 :: 'a::len word) = 2 ^ LENGTH('a) - 1"
  by (simp add: unsigned_minus_1_eq_mask mask_eq_exp_minus_1)

lemma unat_plus_one:
  fixes x :: "'a::len word"
  assumes "x \<noteq> - 1"
  shows "unat (x + 1) = unat x + 1"
proof -
  from assms have "unat x \<noteq> 2 ^ LENGTH('a) - 1"
    by (metis unat_max_word word_unat_eq_iff)
  moreover have "unat x < 2 ^ LENGTH('a)" by (rule unsigned_less)
  ultimately have "unat x + 1 < 2 ^ LENGTH('a)" by linarith
  then show ?thesis by (simp add: unat_word_ariths)
qed

lemma unat_add_no_wrap:
  fixes x y :: "'a::len word"
  assumes "unat x + unat y < 2 ^ LENGTH('a)"
  shows "unat (x + y) = unat x + unat y"
  using assms by (simp add: unat_word_ariths)

lemma xor_left_cancel: "a XOR b = a XOR c \<longleftrightarrow> b = (c :: 'a::len word)"
proof
  assume "a XOR b = a XOR c"
  then have "a XOR (a XOR b) = a XOR (a XOR c)" by (rule arg_cong)
  then show "b = c" by (simp add: xor.assoc [symmetric])
qed simp

lemma ucast_byte_inject:
  assumes "(ucast (a :: byte) :: u32) = ucast b"
  shows "a = b"
proof (rule bit_word_eqI)
  fix n assume "n < LENGTH(8)"
  moreover have "bit (ucast a :: u32) n = bit (ucast b :: u32) n" using assms by simp
  ultimately show "bit a n = bit b n" by (simp add: bit_simps)
qed

text \<open>
  Diagnostic counters of the kernel saturate rather than wrap
  (\<open>StateMachine::Increment\<close> and others).
\<close>

definition saturating_inc :: "'a::len word \<Rightarrow> 'a word" where
  "saturating_inc count = (if count \<noteq> - 1 then count + 1 else count)"

lemma saturating_inc_unat:
  "unat (saturating_inc (c :: 'a::len word)) = min (unat c + 1) (2 ^ LENGTH('a) - 1)"
proof (cases "c = - 1")
  case True
  then show ?thesis by (simp add: saturating_inc_def unat_max_word)
next
  case False
  then have "unat (c + 1) = unat c + 1" by (rule unat_plus_one)
  moreover have "unat (c + 1) < 2 ^ LENGTH('a)" by (rule unsigned_less)
  ultimately show ?thesis using False by (simp add: saturating_inc_def)
qed

lemma saturating_inc_mono: "(count :: 'a::len word) \<le> saturating_inc count"
proof -
  have "unat count < 2 ^ LENGTH('a)" by (rule unsigned_less)
  then have "unat count \<le> 2 ^ LENGTH('a) - 1" by linarith
  then show ?thesis by (simp add: word_le_nat_alt saturating_inc_unat)
qed

end
