(* ===== verification/Foundation.thy ===== *)
theory Foundation
  imports Prelude
begin

text \<open>
  Value types shared by every component: the kernel's \<open>Time\<close> and \<open>Status\<close>
  (lib/core/foundation/types.hpp), the exact conversion of a chrono duration to microseconds
  (lib/core/foundation/duration.hpp) and the saturating deadline addition \<open>After\<close>
  (lib/core/platform/platform.hpp).
\<close>

section \<open>Time and Status\<close>

type_synonym time = u64

definition kForever :: time where
  "kForever = - 1"

datatype status =
    S_ok | S_not_running | S_already_initialized | S_already_run | S_initialization_failed
  | S_invalid_argument | S_not_found | S_full | S_empty | S_busy | S_duplicate_name
  | S_truncated | S_parse_error | S_ambiguous_match | S_line_too_long | S_too_many_arguments
  | S_unsupported | S_health_failed | S_io_error | S_timeout | S_checksum_error
  | S_incompatible | S_not_confirmed | S_rejected | S_counter_exhausted | S_invalid_context
  | S_depth_limit

section \<open>Deadlines\<close>

text \<open>\<open>After(now, delay)\<close>: the addition saturates just below the no-deadline sentinel.\<close>

definition After :: "time \<Rightarrow> time \<Rightarrow> time" where
  "After now delay = (if delay \<ge> kForever - now then kForever - 1 else now + delay)"

section \<open>Durations\<close>

text \<open>
  \<open>to_microseconds\<close> for a duration of \<open>count\<close> periods of \<open>num / den\<close> seconds. The count is the
  mathematical value of the \<open>Rep\<close> (a signed or unsigned integer of at most 64 bits); the ratio
  is in lowest terms with positive parts, as \<open>std::chrono::duration\<close> requires. \<open>None\<close> is
  \<open>Status::invalid_argument\<close>, and the arithmetic is the 64-bit arithmetic of the source.
\<close>

definition to_microseconds :: "int \<Rightarrow> nat \<Rightarrow> nat \<Rightarrow> time option" where
  "to_microseconds delay num den =
     (if delay < 0 then None
      else
        let common = gcd den 1000000;
            divisor = den div common;
            multiplier = 1000000 div common;
            count = nat delay mod 2 ^ 64
        in if count mod divisor \<noteq> 0 \<or> count div divisor > (2 ^ 64 - 2) div num then None
           else
             let scaled = (count div divisor * num) mod 2 ^ 64
             in if scaled > (2 ^ 64 - 2) div multiplier then None
                else Some (of_nat ((scaled * multiplier) mod 2 ^ 64)))"

section \<open>Laws of deadlines\<close>

lemma unat_kForever: "unat kForever = 2 ^ 64 - 1"
  by (simp add: kForever_def unat_max_word)

lemma unat_kForever_minus: "unat (kForever - now) = 2 ^ 64 - 1 - unat now"
proof -
  have "now \<le> kForever" by (simp add: kForever_def)
  then show ?thesis by (simp add: unat_sub unat_kForever)
qed

lemma unat_After: "unat (After now delay) = min (unat now + unat delay) (2 ^ 64 - 2)"
proof (cases "delay \<ge> kForever - now")
  case True
  then have "unat (kForever - now) \<le> unat delay" by (simp add: word_le_nat_alt)
  then have "2 ^ 64 - 1 \<le> unat now + unat delay" by (simp add: unat_kForever_minus)
  moreover have "unat (kForever - 1) = 2 ^ 64 - 2" by (simp add: kForever_def)
  ultimately show ?thesis using True by (simp add: After_def)
next
  case False
  then have "unat delay < 2 ^ 64 - 1 - unat now"
    by (simp add: word_less_nat_alt linorder_not_le unat_kForever_minus)
  then have "unat now + unat delay < 2 ^ 64 - 1" by simp
  moreover from this have "unat (now + delay) = unat now + unat delay"
    by (simp add: unat_word_ariths)
  ultimately show ?thesis using False by (simp add: After_def)
qed

lemma After_less_kForever: "After now delay < kForever"
  by (simp add: word_less_nat_alt unat_After unat_kForever)

lemma After_ge:
  assumes "now < kForever"
  shows "now \<le> After now delay"
  using assms by (simp add: word_le_nat_alt word_less_nat_alt unat_After unat_kForever)

lemma After_mono:
  assumes "delay \<le> delay'"
  shows "After now delay \<le> After now delay'"
  using assms by (simp add: word_le_nat_alt unat_After)

end
