(* ===== verification/State_Machine.thy ===== *)
theory State_Machine
  imports Foundation
begin

text \<open>
  The kernel's state machine helper, \<open>StateMachine\<close> of
  lib/core/state_machine/state_machine.hpp: the statistics and dwell bookkeeping around a
  machine's \<open>Step\<close> switch, the deferred initial entry, the optional hooks, the refusal of a
  recursive tick and the refusal of an invalid next state. A machine of the program is a record
  \<open>derived\<close> of the class's template arguments and of its member functions over the owner's state
  \<open>'o\<close> (the tick arguments, borrowed as lvalues). The interface a client relies on is the locale
  \<open>machine\<close>; every machine of the program interprets it (or \<open>plain_machine\<close>, for the machines
  that have no hooks) in the theory of its component.
\<close>

section \<open>The machine and its tick\<close>

record state_statistics =
  ticks :: u64
  entries :: u64

record 's state_machine =
  sm_cs :: 's
  sm_statistics :: "state_statistics list"
  sm_dwell :: u64
  sm_started :: bool
  sm_ticking :: bool

record ('s, 'o) derived =
  dv_initial :: 's
  dv_index :: "'s \<Rightarrow> nat"
  dv_count :: nat
  dv_step :: "'s \<Rightarrow> 'o \<Rightarrow> 's \<times> 'o"
  dv_on_tick :: "'s \<Rightarrow> 'o \<Rightarrow> 'o"
  dv_on_enter :: "'s \<Rightarrow> 'o \<Rightarrow> 'o"
  dv_on_exit :: "'s \<Rightarrow> 'o \<Rightarrow> 'o"

definition sm_new :: "('s, 'o) derived \<Rightarrow> 's state_machine" where
  "sm_new D = \<lparr>sm_cs = dv_initial D,
     sm_statistics = replicate (dv_count D) \<lparr>ticks = 0, entries = 0\<rparr>,
     sm_dwell = 0, sm_started = False, sm_ticking = False\<rparr>"

definition sm_valid :: "('s, 'o) derived \<Rightarrow> 's \<Rightarrow> bool" where
  "sm_valid D s \<longleftrightarrow> dv_index D s < dv_count D"

definition bump_ticks :: "nat \<Rightarrow> state_statistics list \<Rightarrow> state_statistics list" where
  "bump_ticks i st = st[i := (st ! i)\<lparr>ticks := saturating_inc (ticks (st ! i))\<rparr>]"

definition bump_entries :: "nat \<Rightarrow> state_statistics list \<Rightarrow> state_statistics list" where
  "bump_entries i st = st[i := (st ! i)\<lparr>entries := saturating_inc (entries (st ! i))\<rparr>]"

definition sm_enter ::
  "('s, 'o) derived \<Rightarrow> 's state_machine \<times> 'o \<Rightarrow> 's state_machine \<times> 'o" where
  "sm_enter D = (\<lambda>(m, ob).
     (m\<lparr>sm_statistics := bump_entries (dv_index D (sm_cs m)) (sm_statistics m)\<rparr>,
      dv_on_enter D (sm_cs m) ob))"

definition sm_tick ::
  "('s, 'o) derived \<Rightarrow> 's state_machine \<Rightarrow> 'o \<Rightarrow> status \<times> 's state_machine \<times> 'o" where
  "sm_tick D m ob =
     (if sm_ticking m then (S_busy, m, ob)
      else
        let m1 = m\<lparr>sm_ticking := True\<rparr>;
            (m2, o2) = (if \<not> sm_started m1 then sm_enter D (m1\<lparr>sm_started := True\<rparr>, ob)
                        else (m1, ob));
            m3 = m2\<lparr>sm_dwell := saturating_inc (sm_dwell m2),
                     sm_statistics := bump_ticks (dv_index D (sm_cs m2)) (sm_statistics m2)\<rparr>;
            o3 = dv_on_tick D (sm_cs m3) o2;
            (ns, o4) = dv_step D (sm_cs m3) o3
        in if \<not> sm_valid D ns then (S_invalid_argument, m3\<lparr>sm_ticking := False\<rparr>, o4)
           else if ns \<noteq> sm_cs m3 then
             let o5 = dv_on_exit D (sm_cs m3) o4;
                 (m6, o6) = sm_enter D (m3\<lparr>sm_cs := ns, sm_dwell := 0\<rparr>, o5)
             in (S_ok, m6\<lparr>sm_ticking := False\<rparr>, o6)
           else (S_ok, m3\<lparr>sm_ticking := False\<rparr>, o4))"

text \<open>The query of one state's counters; an unknown state has zero counters.\<close>

definition sm_state_statistics ::
  "('s, 'o) derived \<Rightarrow> 's state_machine \<Rightarrow> 's \<Rightarrow> state_statistics" where
  "sm_state_statistics D m s =
     (if sm_valid D s then sm_statistics m ! dv_index D s else \<lparr>ticks = 0, entries = 0\<rparr>)"

section \<open>Well-formed machines\<close>

definition sm_wf :: "('s, 'o) derived \<Rightarrow> 's state_machine \<Rightarrow> bool" where
  "sm_wf D m \<longleftrightarrow> \<not> sm_ticking m \<and> length (sm_statistics m) = dv_count D \<and> sm_valid D (sm_cs m)"

fun sm_run ::
  "('s, 'o) derived \<Rightarrow> nat \<Rightarrow> 's state_machine \<Rightarrow> 'o \<Rightarrow> 's state_machine \<times> 'o" where
  "sm_run D 0 m ob = (m, ob)"
| "sm_run D (Suc n) m ob = (case sm_tick D m ob of (_, m', ob') \<Rightarrow> sm_run D n m' ob')"

lemma length_bump [simp]:
  "length (bump_ticks i st) = length st" "length (bump_entries i st) = length st"
  by (simp_all add: bump_ticks_def bump_entries_def)

lemma sm_tick_wf:
  assumes "sm_wf D m" and "sm_tick D m ob = (s, m', ob')"
  shows "sm_wf D m'"
  using assms
  by (auto simp: sm_wf_def sm_tick_def sm_enter_def Let_def split: if_splits prod.splits)

lemma sm_run_wf:
  assumes "sm_wf D m" and "sm_run D n m ob = (m', ob')"
  shows "sm_wf D m'"
  using assms
  by (induction n arbitrary: m ob) (auto split: prod.splits dest: sm_tick_wf)

lemma sm_new_wf: "sm_valid D (dv_initial D) \<Longrightarrow> sm_wf D (sm_new D)"
  by (simp add: sm_wf_def sm_new_def)

section \<open>The interface of a machine\<close>

text \<open>
  A client machine promises that \<open>Step\<close> only selects states of the enumeration; in return a
  tick from outside the machine always succeeds and moves to the state \<open>Step\<close> selected.
\<close>

locale machine =
  fixes D :: "('s, 'o) derived"
  assumes initial_valid: "sm_valid D (dv_initial D)"
    and step_valid: "sm_valid D s \<Longrightarrow> sm_valid D (fst (dv_step D s ob))"
begin

lemma tick_ok:
  assumes "sm_wf D m"
  shows "fst (sm_tick D m ob) = S_ok"
proof -
  have "sm_valid D (fst (dv_step D (sm_cs m) ob'))" for ob'
    using assms by (simp add: sm_wf_def step_valid)
  then have "sm_valid D ns" if "dv_step D (sm_cs m) ob' = (ns, ob'')" for ob' ns ob''
    using that by (metis fst_conv)
  then show ?thesis
    using assms by (auto simp: sm_wf_def sm_tick_def sm_enter_def Let_def split: prod.splits)
qed

lemma new_wf: "sm_wf D (sm_new D)"
  by (rule sm_new_wf [OF initial_valid])

end

text \<open>A machine without hooks: a tick changes the owner by \<open>Step\<close> alone.\<close>

locale plain_machine = machine +
  assumes no_on_tick: "dv_on_tick D s ob = ob"
    and no_on_enter: "dv_on_enter D s ob = ob"
    and no_on_exit: "dv_on_exit D s ob = ob"
begin

lemma tick_step:
  assumes "sm_wf D m" and "dv_step D (sm_cs m) ob = (ns, ob')"
  obtains m' where "sm_tick D m ob = (S_ok, m', ob')" and "sm_cs m' = ns" and "sm_wf D m'"
proof -
  have v: "sm_valid D ns"
    using assms step_valid [of "sm_cs m" ob] by (simp add: sm_wf_def)
  obtain m' where m': "sm_tick D m ob = (S_ok, m', ob')" "sm_cs m' = ns"
    using assms v
    by (cases "sm_started m"; cases "ns = sm_cs m")
      (auto simp: sm_tick_def sm_wf_def sm_enter_def Let_def no_on_tick no_on_enter no_on_exit)
  moreover from assms(1) m'(1) have "sm_wf D m'" by (rule sm_tick_wf)
  ultimately show thesis using that by blast
qed

end

section \<open>Statistics\<close>

lemma bump_ticks_nth:
  "i < length st \<Longrightarrow> bump_ticks i st ! j =
     (if i = j then (st ! j)\<lparr>ticks := saturating_inc (ticks (st ! j))\<rparr> else st ! j)"
  by (auto simp: bump_ticks_def nth_list_update)

lemma bump_entries_nth:
  "i < length st \<Longrightarrow> bump_entries i st ! j =
     (if i = j then (st ! j)\<lparr>entries := saturating_inc (entries (st ! j))\<rparr> else st ! j)"
  by (auto simp: bump_entries_def nth_list_update)

end
