(* ===== verification/Wire.thy ===== *)
theory Wire
  imports Prelude
begin

text \<open>
  The fixed-format helpers of lib/util/wire.h: little-endian 32- and 64-bit fields of a byte
  buffer. A buffer is a list of bytes; as in the source, the caller has checked that a field lies
  inside it (an index past the end is outside the contract of the helpers).
\<close>

unbundle bit_operations_syntax

section \<open>Reading and writing fields\<close>

definition read32 :: "byte list \<Rightarrow> nat \<Rightarrow> u32" where
  "read32 data at =
     fold (\<lambda>i value. value OR push_bit (8 * i) (ucast (data ! (at + i)))) [0..<4] 0"

definition read64 :: "byte list \<Rightarrow> nat \<Rightarrow> u64" where
  "read64 data at = ucast (read32 data at) OR push_bit 32 (ucast (read32 data (at + 4)))"

definition write32 :: "byte list \<Rightarrow> nat \<Rightarrow> u32 \<Rightarrow> byte list" where
  "write32 data at value =
     fold (\<lambda>i d. d[at + i := ucast (drop_bit (8 * i) value AND 0xff)]) [0..<4] data"

definition write64 :: "byte list \<Rightarrow> nat \<Rightarrow> u64 \<Rightarrow> byte list" where
  "write64 data at value =
     write32 (write32 data at (ucast value)) (at + 4) (ucast (drop_bit 32 value))"

text \<open>\<open>std::memcpy\<close> of a run of bytes into a buffer.\<close>

definition memcpy_at :: "byte list \<Rightarrow> nat \<Rightarrow> byte list \<Rightarrow> byte list" where
  "memcpy_at data at src = take at data @ src @ drop (at + length src) data"

section \<open>Fields as bytes\<close>

text \<open>The four bytes of a 32-bit value, least significant first.\<close>

definition le32 :: "u32 \<Rightarrow> byte list" where
  "le32 v = map (\<lambda>i. ucast (drop_bit (8 * i) v)) [0..<4]"

lemma upt_0_4: "[0..<4] = [0, 1, 2, 3::nat]"
  by (simp add: upt_rec)

lemma length_le32 [simp]: "length (le32 v) = 4"
  by (simp add: le32_def)

lemma le32_Cons:
  "le32 v = [ucast v, ucast (drop_bit 8 v), ucast (drop_bit 16 v), ucast (drop_bit 24 v)]"
  by (simp add: le32_def upt_0_4)

lemma ucast_and_ff: "(ucast (x AND 0xff :: u32) :: byte) = ucast x"
proof -
  have "(0xff :: u32) = mask 8" by (simp add: mask_eq_exp_minus_1)
  then have "x AND 0xff = take_bit 8 x" by (simp add: take_bit_eq_mask)
  then show ?thesis by (intro bit_word_eqI) (simp add: bit_simps)
qed

lemma write32_Cons:
  "write32 data at v = data[at := ucast v, at + 1 := ucast (drop_bit 8 v),
     at + 2 := ucast (drop_bit 16 v), at + 3 := ucast (drop_bit 24 v)]"
  by (simp add: write32_def upt_0_4 ucast_and_ff)

lemma length_write32 [simp]: "length (write32 data at v) = length data"
  by (simp add: write32_Cons)

lemma length_write64 [simp]: "length (write64 data at v) = length data"
  by (simp add: write64_def)

lemma length_memcpy_at [simp]:
  "at + length src \<le> length data \<Longrightarrow> length (memcpy_at data at src) = length data"
  by (simp add: memcpy_at_def)

lemma read32_Cons:
  "read32 data at = ucast (data ! at) OR push_bit 8 (ucast (data ! (at + 1)))
     OR push_bit 16 (ucast (data ! (at + 2))) OR push_bit 24 (ucast (data ! (at + 3)))"
  by (simp add: read32_def upt_0_4 or.assoc)

text \<open>Reading decodes the bytes \<open>le32\<close> makes, and reading is injective on the four bytes.\<close>

lemma not_bit_byte: "8 \<le> n \<Longrightarrow> \<not> bit (b :: byte) n"
  using bit_imp_le_length [of b n] by auto

lemma bit_read32_or:
  assumes n: "n < 32"
  shows "bit (read32 data at) n \<longleftrightarrow> bit (data ! at) n \<or> (8 \<le> n \<and> bit (data ! (at + 1)) (n - 8))
    \<or> (16 \<le> n \<and> bit (data ! (at + 2)) (n - 16)) \<or> (24 \<le> n \<and> bit (data ! (at + 3)) (n - 24))"
  using n by (auto simp: read32_Cons bit_simps)

lemma bit_read32:
  assumes n: "n < 32"
  shows "bit (read32 data at) n \<longleftrightarrow> bit (data ! (at + n div 8)) (n mod 8)"
proof -
  have "n = 8 * (n div 8) + n mod 8" and m: "n mod 8 < 8" and q: "n div 8 < 4" using n by auto
  then obtain q r where n': "n = 8 * q + r" and r: "r < 8" and q: "q < 4" by metis
  have nb: "\<not> bit (b :: byte) k" if "8 \<le> k" for b k using that by (rule not_bit_byte)
  have dm: "n div 8 = q" "n mod 8 = r" using n' r by simp_all
  from q consider "q = 0" | "q = 1" | "q = 2" | "q = 3" by linarith
  then show ?thesis
    unfolding dm by cases (use r n n' nb in \<open>simp_all add: bit_read32_or\<close>)
qed

lemma le32_nth: "i < 4 \<Longrightarrow> le32 v ! i = ucast (drop_bit (8 * i) v)"
  by (simp add: le32_def)

lemma read32_eqI:
  assumes "\<And>i. i < 4 \<Longrightarrow> data ! (at + i) = le32 v ! i"
  shows "read32 data at = v"
proof (rule bit_word_eqI)
  fix n assume "n < LENGTH(32)"
  then have n: "n < 32" by simp
  then have "n div 8 < 4" by linarith
  then show "bit (read32 data at) n = bit v n"
    using n by (simp add: bit_read32 assms le32_nth bit_simps)
qed

lemma read32_le32: "read32 (le32 v) 0 = v"
  by (rule read32_eqI) simp

lemma read32_inject:
  assumes "read32 a i = read32 b j" and "k < 4"
  shows "a ! (i + k) = b ! (j + k)"
proof (rule bit_word_eqI)
  fix n assume "n < LENGTH(8)"
  then have "8 * k + n < 32" and "(8 * k + n) div 8 = k" and "(8 * k + n) mod 8 = n"
    using assms(2) by auto
  then show "bit (a ! (i + k)) n = bit (b ! (j + k)) n"
    using assms(1) bit_read32 [of "8 * k + n" a i] bit_read32 [of "8 * k + n" b j] by simp
qed

lemma read32_cong:
  assumes "\<And>k. k < 4 \<Longrightarrow> a ! (i + k) = b ! (j + k)"
  shows "read32 a i = read32 b j"
proof (rule bit_word_eqI)
  fix n assume "n < LENGTH(32)"
  then have "n < 32" and "n div 8 < 4" by auto
  then show "bit (read32 a i) n = bit (read32 b j) n" by (simp add: bit_read32 assms)
qed

section \<open>A field after a write\<close>

lemma nth_write32:
  assumes "at + 4 \<le> length d"
  shows "write32 d at v ! k = (if at \<le> k \<and> k < at + 4 then le32 v ! (k - at) else d ! k)"
proof -
  consider "k < at" | "k = at" | "k = at + 1" | "k = at + 2" | "k = at + 3" | "at + 4 \<le> k"
    by linarith
  then show ?thesis by cases (use assms in \<open>simp_all add: write32_Cons le32_Cons\<close>)
qed

lemma nth_write32_other: "k < at \<or> at + 4 \<le> k \<Longrightarrow> write32 d at v ! k = d ! k"
  by (auto simp: write32_Cons)

lemma nth_write64_other: "k < at \<or> at + 8 \<le> k \<Longrightarrow> write64 d at v ! k = d ! k"
  by (auto simp: write64_def nth_write32_other)

lemma nth_memcpy_at:
  "at + length src \<le> length d \<Longrightarrow> k < length d \<Longrightarrow> memcpy_at d at src ! k =
     (if at \<le> k \<and> k < at + length src then src ! (k - at) else d ! k)"
  by (auto simp: memcpy_at_def nth_append min_def)

lemma read32_write32 [wire_simps]: "at + 4 \<le> length d \<Longrightarrow> read32 (write32 d at v) at = v"
  by (rule read32_eqI) (simp add: nth_write32)

lemma read32_write32_other [wire_simps]:
  "at + 4 \<le> i \<or> i + 4 \<le> at \<Longrightarrow> read32 (write32 d at v) i = read32 d i"
  by (rule read32_cong) (auto simp: nth_write32_other)

lemma read32_write64_other [wire_simps]:
  "at + 8 \<le> i \<or> i + 4 \<le> at \<Longrightarrow> read32 (write64 d at v) i = read32 d i"
  by (rule read32_cong) (auto simp: nth_write64_other)

lemma read32_memcpy_other [wire_simps]:
  "at + length src \<le> length d \<Longrightarrow> at + length src \<le> i \<or> i + 4 \<le> at \<Longrightarrow>
     i + 4 \<le> length d \<Longrightarrow> read32 (memcpy_at d at src) i = read32 d i"
  by (rule read32_cong) (auto simp: nth_memcpy_at)

lemma read32_update_other [wire_simps]:
  "at < i \<or> i + 4 \<le> at \<Longrightarrow> read32 (d[at := b]) i = read32 d i"
  by (rule read32_cong) auto

lemma read64_cong:
  assumes "\<And>k. k < 8 \<Longrightarrow> a ! (i + k) = b ! (j + k)"
  shows "read64 a i = read64 b j"
proof -
  have "read32 a (i + 4) = read32 b (j + 4)"
    by (rule read32_cong) (use assms [of "4 + _"] in \<open>simp add: add.assoc\<close>)
  moreover have "read32 a i = read32 b j" by (rule read32_cong) (simp add: assms)
  ultimately show ?thesis by (simp add: read64_def)
qed

lemma u64_split: "ucast (ucast v :: u32) OR push_bit 32 (ucast (ucast (drop_bit 32 v) :: u32)) = (v :: u64)"
  by (rule bit_word_eqI) (auto simp: bit_simps)

lemma read64_write64 [wire_simps]: "at + 8 \<le> length d \<Longrightarrow> read64 (write64 d at v) at = v"
  by (simp add: read64_def write64_def wire_simps u64_split)

lemma read64_write32_other [wire_simps]:
  "at + 4 \<le> i \<or> i + 8 \<le> at \<Longrightarrow> read64 (write32 d at v) i = read64 d i"
  by (rule read64_cong) (auto simp: nth_write32_other)

lemma read64_write64_other [wire_simps]:
  "at + 8 \<le> i \<or> i + 8 \<le> at \<Longrightarrow> read64 (write64 d at v) i = read64 d i"
  by (rule read64_cong) (auto simp: nth_write64_other)

lemma read64_memcpy_other [wire_simps]:
  "at + length src \<le> length d \<Longrightarrow> at + length src \<le> i \<or> i + 8 \<le> at \<Longrightarrow>
     i + 8 \<le> length d \<Longrightarrow> read64 (memcpy_at d at src) i = read64 d i"
  by (rule read64_cong) (auto simp: nth_memcpy_at)

lemma read64_update_other [wire_simps]:
  "at < i \<or> i + 8 \<le> at \<Longrightarrow> read64 (d[at := b]) i = read64 d i"
  by (rule read64_cong) auto

lemma read64_inject:
  assumes "read64 a i = read64 b j" and "k < 8"
  shows "a ! (i + k) = b ! (j + k)"
proof -
  have lo: "ucast (read64 x y) = read32 x y" and
    hi: "ucast (drop_bit 32 (read64 x y)) = read32 x (y + 4)" for x y
    unfolding read64_def
    by (rule bit_word_eqI; auto simp: bit_simps dest: bit_imp_le_length)+
  have "read32 a i = read32 b j" and "read32 a (i + 4) = read32 b (j + 4)"
    using assms(1) lo [of a i] lo [of b j] hi [of a i] hi [of b j] by simp_all
  then show ?thesis
    using read32_inject [of a i b j k] read32_inject [of a "i + 4" b "j + 4" "k - 4"] assms(2)
    by (cases "k < 4") simp_all
qed

section \<open>Runs of bytes after a write\<close>

lemma take_write32 [wire_simps]: "n \<le> at \<Longrightarrow> take n (write32 d at v) = take n d"
  by (simp add: write32_Cons)

lemma take_write64 [wire_simps]: "n \<le> at \<Longrightarrow> take n (write64 d at v) = take n d"
  by (simp add: write64_def wire_simps)

lemma run_cong:
  assumes "length a = length b" and "\<And>k. k < n \<Longrightarrow> a ! (i + k) = b ! (i + k)"
  shows "take n (drop i a) = take n (drop i b)"
  using assms by (intro nth_equalityI) auto

lemma run_write32_other [wire_simps]:
  "at + 4 \<le> i \<or> i + n \<le> at \<Longrightarrow> take n (drop i (write32 d at v)) = take n (drop i d)"
  by (rule run_cong) (auto simp: nth_write32_other)

lemma run_write64_other [wire_simps]:
  "at + 8 \<le> i \<or> i + n \<le> at \<Longrightarrow> take n (drop i (write64 d at v)) = take n (drop i d)"
  by (rule run_cong) (auto simp: nth_write64_other)

lemma run_update_other [wire_simps]:
  "at < i \<or> i + n \<le> at \<Longrightarrow> take n (drop i (d[at := b])) = take n (drop i d)"
  by (rule run_cong) auto

lemma run_memcpy_other [wire_simps]:
  "at + length src \<le> length d \<Longrightarrow> at + length src \<le> i \<or> i + n \<le> at \<Longrightarrow>
     i + n \<le> length d \<Longrightarrow> take n (drop i (memcpy_at d at src)) = take n (drop i d)"
  by (rule run_cong) (auto simp: nth_memcpy_at)

lemma run_memcpy_at [wire_simps]:
  "at + length src \<le> length d \<Longrightarrow> n = length src \<Longrightarrow> take n (drop at (memcpy_at d at src)) = src"
  by (simp add: memcpy_at_def)

lemma drop_write32_other [wire_simps]: "at + 4 \<le> n \<Longrightarrow> drop n (write32 d at v) = drop n d"
  by (simp add: write32_Cons)

lemma drop_write64_other [wire_simps]: "at + 8 \<le> n \<Longrightarrow> drop n (write64 d at v) = drop n d"
  by (simp add: write64_def wire_simps)

lemmas nth_wire_simps = nth_write32_other nth_write64_other nth_memcpy_at

end
