(* ===== verification/Crc32.thy ===== *)
theory Crc32
  imports Wire
begin

text \<open>
  CRC-32/ISO-HDLC as in lib/util/crc32.h: the bit-serial reflected algorithm with external
  state, and the \<open>Service\<close> that hands a calculation to an optional hardware backend unless the
  caller runs in an interrupt. The backend is board code behind function pointers and is a
  parameter of the model. The lemmas show that updates compose, that the state map of any input
  is injective, and hence that a change of one byte always changes the checksum.
\<close>

section \<open>The software algorithm\<close>

definition crc_bit :: "u32 \<Rightarrow> u32" where
  "crc_bit crc = drop_bit 1 crc XOR (if crc AND 1 \<noteq> 0 then 0xedb88320 else 0)"

definition crc_byte :: "byte \<Rightarrow> u32 \<Rightarrow> u32" where
  "crc_byte b crc = (crc_bit ^^ 8) (crc XOR ucast b)"

definition crc32_update :: "u32 \<Rightarrow> byte list \<Rightarrow> u32" where
  "crc32_update value bytes = NOT (fold crc_byte bytes (NOT value))"

definition crc32_calculate :: "byte list \<Rightarrow> u32" where
  "crc32_calculate bytes = crc32_update 0 bytes"

section \<open>The service\<close>

record 'c crc_backend =
  cb_context :: 'c
  cb_update :: "('c \<Rightarrow> u32 \<Rightarrow> byte list \<Rightarrow> u32) option"
  cb_in_interrupt :: "('c \<Rightarrow> bool) option"

definition service_update :: "'c crc_backend \<Rightarrow> u32 \<Rightarrow> byte list \<Rightarrow> u32" where
  "service_update be value bytes =
     (case (cb_update be, cb_in_interrupt be) of
        (Some up, Some irq) \<Rightarrow>
          if \<not> irq (cb_context be) then up (cb_context be) value bytes
          else crc32_update value bytes
      | _ \<Rightarrow> crc32_update value bytes)"

definition service_calculate :: "'c crc_backend \<Rightarrow> byte list \<Rightarrow> u32" where
  "service_calculate be bytes = service_update be 0 bytes"

section \<open>Composition\<close>

lemma crc32_update_Nil: "crc32_update value [] = value"
  by (simp add: crc32_update_def)

lemma crc32_update_append: "crc32_update (crc32_update value xs) ys = crc32_update value (xs @ ys)"
  by (simp add: crc32_update_def)

section \<open>The check value of the standard\<close>

lemma crc_byte_unfold:
  "crc_byte b c = crc_bit (crc_bit (crc_bit (crc_bit (crc_bit (crc_bit (crc_bit (crc_bit
     (c XOR ucast b))))))))"
  by (simp add: crc_byte_def numeral_eq_Suc)

lemma crc32_check_value:
  "crc32_calculate [0x31, 0x32, 0x33, 0x34, 0x35, 0x36, 0x37, 0x38, 0x39] = 0xcbf43926"
  by (simp add: crc32_calculate_def crc32_update_def crc_byte_unfold crc_bit_def)

section \<open>Injectivity and error detection\<close>

lemma and_1_iff: "c AND 1 \<noteq> 0 \<longleftrightarrow> bit c 0" for c :: u32
  by (simp add: bit_0 and_one_eq mod_2_eq_odd)

lemma crc_bit_bit: "n < 32 \<Longrightarrow> bit (crc_bit c) n \<longleftrightarrow> bit c (Suc n) \<noteq> (bit c 0 \<and> bit (0xedb88320 :: u32) n)"
  by (simp only: crc_bit_def and_1_iff) (simp add: bit_xor_iff bit_drop_bit_eq)

lemma crc_bit_top: "bit (crc_bit c) 31 = bit c 0"
proof -
  have "\<not> bit c 32" using bit_imp_le_length [of c 32] by auto
  then show ?thesis using crc_bit_bit [of 31 c] by simp
qed

lemma crc_bit_inj: "crc_bit c = crc_bit d \<Longrightarrow> c = d"
proof (rule bit_word_eqI)
  fix n assume eq: "crc_bit c = crc_bit d" and n: "n < LENGTH(32)"
  have odd: "bit c 0 = bit d 0" using crc_bit_top [of c] crc_bit_top [of d] eq by simp
  show "bit c n = bit d n"
  proof (cases n)
    case 0
    with odd show ?thesis by simp
  next
    case (Suc m)
    with n have "m < 32" by simp
    then show ?thesis using crc_bit_bit [of m c] crc_bit_bit [of m d] eq odd Suc by metis
  qed
qed

lemma crc_bits_inj: "(crc_bit ^^ n) c = (crc_bit ^^ n) d \<Longrightarrow> c = d"
  by (induction n) (auto dest: crc_bit_inj)

lemma crc_bit_xor: "crc_bit (x XOR y) = crc_bit x XOR crc_bit y"
proof (rule bit_word_eqI)
  fix n assume "n < LENGTH(32)"
  then have "n < 32" by simp
  then show "bit (crc_bit (x XOR y)) n = bit (crc_bit x XOR crc_bit y) n"
    by (auto simp: crc_bit_bit bit_xor_iff)
qed

lemma crc_bits_xor: "(crc_bit ^^ n) (x XOR y) = (crc_bit ^^ n) x XOR (crc_bit ^^ n) y"
  by (induction n) (simp_all add: crc_bit_xor)

lemma crc_bits_low_zero:
  assumes "\<And>k. k < n \<Longrightarrow> \<not> bit x k"
  shows "(crc_bit ^^ n) x = drop_bit n x"
  using assms
proof (induction n)
  case (Suc n)
  have "\<not> bit (drop_bit n x) 0" using Suc.prems [of n] by (simp add: bit_drop_bit_eq)
  then have "crc_bit (drop_bit n x) = drop_bit 1 (drop_bit n x)"
    using and_1_iff [of "drop_bit n x"] by (simp only: crc_bit_def) simp
  with Suc show ?case by (simp add: drop_bit_drop_bit add.commute)
qed simp

text \<open>Up to four bytes are folded into the state like one little-endian word.\<close>

fun le_word :: "byte list \<Rightarrow> u32" where
  "le_word [] = 0"
| "le_word (b # bs) = ucast b XOR push_bit 8 (le_word bs)"

lemma le_word_high: "8 * length bs \<le> k \<Longrightarrow> \<not> bit (le_word bs) k"
proof (induction bs arbitrary: k)
  case (Cons b bs)
  then have "8 \<le> k" and "\<not> bit (le_word bs) (k - 8)" by auto
  then show ?case by (simp add: bit_simps not_bit_byte)
qed simp

lemma le_word_drop:
  assumes "length bs \<le> 3"
  shows "drop_bit 8 (push_bit 8 (le_word bs)) = le_word bs"
proof (rule bit_word_eqI)
  fix n assume "n < LENGTH(32)"
  show "bit (drop_bit 8 (push_bit 8 (le_word bs))) n = bit (le_word bs) n"
    using assms le_word_high [of bs n] by (cases "n < 24") (auto simp: bit_simps)
qed

lemma fold_crc_byte:
  assumes "length bs \<le> 4"
  shows "fold crc_byte bs c = (crc_bit ^^ (8 * length bs)) (c XOR le_word bs)"
  using assms
proof (induction bs arbitrary: c)
  case (Cons b bs)
  have low: "\<not> bit (push_bit 8 (le_word bs)) k" if "k < 8" for k
    using that by (simp add: bit_simps)
  have eq: "(crc_bit ^^ 8) (push_bit 8 (le_word bs)) = le_word bs"
    using Cons.prems crc_bits_low_zero [of 8 "push_bit 8 (le_word bs)"] low
    by (simp add: le_word_drop)
  have "(crc_bit ^^ 8) (c XOR le_word (b # bs)) =
      crc_byte b c XOR (crc_bit ^^ 8) (push_bit 8 (le_word bs))"
    by (simp only: crc_byte_def crc_bits_xor [symmetric] le_word.simps xor.assoc)
  then have step: "crc_byte b c XOR le_word bs = (crc_bit ^^ 8) (c XOR le_word (b # bs))"
    by (simp only: eq)
  have "fold crc_byte (b # bs) c = (crc_bit ^^ (8 * length bs)) (crc_byte b c XOR le_word bs)"
    using Cons by simp
  also have "\<dots> = (crc_bit ^^ (8 * length bs + 8)) (c XOR le_word (b # bs))"
    by (simp only: step funpow_add comp_apply)
  finally show ?case by (simp add: add.commute)
qed simp

lemma le_word_inj:
  assumes "length as \<le> 4" and "length bs = length as" and "le_word as = le_word bs"
  shows "as = bs"
  using assms
proof (induction as arbitrary: bs)
  case (Cons a as)
  then obtain b bs' where bs: "bs = b # bs'" and len: "length bs' = length as"
    by (cases bs) auto
  have lo: "take_bit 8 (le_word (x # xs)) = ucast x" for x xs
  proof (rule bit_word_eqI)
    fix n assume "n < LENGTH(32)"
    then show "bit (take_bit 8 (le_word (x # xs))) n = bit (ucast x :: u32) n"
      using not_bit_byte [of n x] by (cases "n < 8") (auto simp: bit_simps)
  qed
  have hi: "drop_bit 8 (le_word (x # xs)) = le_word xs" if "length xs \<le> 3" for x xs
  proof (rule bit_word_eqI)
    fix n assume "n < LENGTH(32)"
    then show "bit (drop_bit 8 (le_word (x # xs))) n = bit (le_word xs) n"
      using that le_word_high [of xs n] by (cases "n < 24") (auto simp: bit_simps not_bit_byte)
  qed
  have "(ucast a :: u32) = ucast b" using Cons.prems lo [of a as] lo [of b bs'] bs by simp
  then have "a = b" by (rule ucast_byte_inject)
  moreover have "le_word as = le_word bs'"
    using Cons.prems hi [of as a] hi [of bs' b] bs len by simp
  ultimately show ?case using Cons.IH [of bs'] Cons.prems(1) bs len by simp
qed simp

lemma fold_crc_byte_inj: "fold crc_byte ys c = fold crc_byte ys d \<Longrightarrow> c = d"
proof (induction ys arbitrary: c d)
  case (Cons y ys)
  then have "crc_byte y c = crc_byte y d" by simp
  then have "c XOR ucast y = d XOR ucast y" by (auto simp: crc_byte_def dest: crc_bits_inj)
  then show ?case by (simp only: xor_left_cancel xor.commute [of _ "ucast y"])
qed simp

lemma crc32_update_inj: "crc32_update v ys = crc32_update w ys \<Longrightarrow> v = w"
  by (auto simp: crc32_update_def dest: fold_crc_byte_inj)

lemma crc32_burst:
  assumes "length as \<le> 4" and "length bs = length as"
    and "crc32_update v (xs @ as @ ys) = crc32_update v (xs @ bs @ ys)"
  shows "as = bs"
proof -
  let ?c = "fold crc_byte xs (NOT v)"
  have "fold crc_byte as ?c = fold crc_byte bs ?c"
    using assms(3) by (auto simp: crc32_update_def dest: fold_crc_byte_inj)
  then have "?c XOR le_word as = ?c XOR le_word bs"
    using assms(1,2) by (auto simp: fold_crc_byte dest: crc_bits_inj)
  then have "le_word as = le_word bs" by (simp only: xor_left_cancel)
  with assms(1,2) show ?thesis by (rule le_word_inj)
qed

end
