(* ===== verification/Flash.thy ===== *)
theory Flash
  imports State_Machine Crc32
begin

text \<open>
  The flash geometry and the borrowed flash device of lib/boot/flash.h, and
  \<open>Layout::valid\<close> of lib/boot/journal.cpp. Addresses and sizes are natural numbers below
  \<open>2 ^ 32\<close> (the source keeps them in \<open>std::uint32_t\<close> and checks in \<open>Layout::valid\<close> that no
  region passes the end of that range); the journal's address loops, which can pass it, write
  the wrap-around out.

  A device is a record of the callbacks the C++ struct \<open>Flash\<close> holds, over the state \<open>'d\<close> of the
  device behind the context pointer. What the callers rely on is the comment above the struct;
  the locale \<open>flash_device\<close> states it as laws of a memory and of the one operation in progress.
\<close>

section \<open>Geometry\<close>

record layout =
  slots :: "nat list"
  metadata :: "nat list"
  slot_size :: nat
  sector_size :: nat
  write_size :: nat
  product :: u32
  revision :: u32
  operation_timeout :: time

definition kRecordSize :: nat where
  "kRecordSize = 256"

definition layout_regions :: "layout \<Rightarrow> (nat \<times> nat) list" where
  "layout_regions L =
     map (\<lambda>i. (slots L ! i, slots L ! i + slot_size L)) [0..<2] @
     map (\<lambda>i. (metadata L ! i, metadata L ! i + sector_size L)) [0..<2]"

definition layout_valid :: "layout \<Rightarrow> bool" where
  "layout_valid L \<longleftrightarrow>
     \<not> (slot_size L = 0 \<or> sector_size L = 0 \<or> operation_timeout L = 0 \<or>
        sector_size L mod kRecordSize \<noteq> 0 \<or> (write_size L \<noteq> 16 \<and> write_size L \<noteq> 32) \<or>
        slot_size L mod sector_size L \<noteq> 0 \<or> product L = 0 \<or> revision L = 0) \<and>
     list_all (\<lambda>i. slots L ! i mod sector_size L = 0 \<and> metadata L ! i mod sector_size L = 0) [0..<2] \<and>
     list_all (\<lambda>i. snd (layout_regions L ! i) \<le> 2 ^ 32 \<and>
       list_all (\<lambda>j. \<not> (fst (layout_regions L ! i) < snd (layout_regions L ! j) \<and>
                        fst (layout_regions L ! j) < snd (layout_regions L ! i))) [0..<i])
       [0..<4]"

section \<open>The device\<close>

record 'd flash =
  fl_bound :: bool
  fl_read :: "'d \<Rightarrow> nat \<Rightarrow> nat \<Rightarrow> status \<times> byte list"
  fl_erase :: "'d \<Rightarrow> nat \<Rightarrow> status \<times> 'd"
  fl_program :: "'d \<Rightarrow> nat \<Rightarrow> byte list \<Rightarrow> status \<times> 'd"
  fl_poll :: "'d \<Rightarrow> status \<times> 'd"
  fl_now :: "'d \<Rightarrow> time \<times> 'd"
  fl_executing_bank :: "('d \<Rightarrow> nat) option"

text \<open>\<open>Flash::valid\<close>: the five mandatory callbacks are present.\<close>

definition flash_valid :: "'d flash \<Rightarrow> bool" where
  "flash_valid F \<longleftrightarrow> fl_bound F"

section \<open>What the device promises\<close>

datatype flash_op = Op_erase nat | Op_program nat "byte list"

fun op_region :: "nat \<Rightarrow> flash_op \<Rightarrow> nat set" where
  "op_region ss (Op_erase a) = {a..<a + ss}"
| "op_region ss (Op_program a bs) = {a..<a + length bs}"

fun apply_op :: "nat \<Rightarrow> flash_op \<Rightarrow> (nat \<Rightarrow> byte) \<Rightarrow> nat \<Rightarrow> byte" where
  "apply_op ss (Op_erase a) m x = (if a \<le> x \<and> x < a + ss then 0xff else m x)"
| "apply_op ss (Op_program a bs) m x = (if a \<le> x \<and> x < a + length bs then bs ! (x - a) else m x)"

text \<open>
  An operation cut short: erasure runs upwards and stops anywhere, a programmed unit is left
  with any content.
\<close>

fun op_partial :: "nat \<Rightarrow> flash_op \<Rightarrow> (nat \<Rightarrow> byte) \<Rightarrow> (nat \<Rightarrow> byte) \<Rightarrow> bool" where
  "op_partial ss (Op_erase a) m m' \<longleftrightarrow>
     (\<exists>k \<le> ss. m' = (\<lambda>x. if a \<le> x \<and> x < a + k then 0xff else m x))"
| "op_partial ss (Op_program a bs) m m' \<longleftrightarrow> (\<forall>x. x \<notin> {a..<a + length bs} \<longrightarrow> m' x = m x)"

locale flash_device =
  fixes F :: "'d flash"
    and mem :: "'d \<Rightarrow> nat \<Rightarrow> byte"
    and pending :: "'d \<Rightarrow> flash_op option"
    and wf :: "'d \<Rightarrow> bool"
    and ss :: nat
  assumes read_ok: "wf d \<Longrightarrow> fl_read F d a n = (S_ok, bs) \<Longrightarrow> bs = map (mem d) [a..<a + n]"
    and read_idle: "wf d \<Longrightarrow> pending d = None \<Longrightarrow> fst (fl_read F d a n) \<noteq> S_busy"
    and erase_law: "wf d \<Longrightarrow> fl_erase F d a = (s, d') \<Longrightarrow>
      wf d' \<and> mem d' = mem d \<and> pending d' = (if s = S_ok then Some (Op_erase a) else pending d)"
    and program_law: "wf d \<Longrightarrow> fl_program F d a bs = (s, d') \<Longrightarrow>
      wf d' \<and> mem d' = mem d \<and> pending d' = (if s = S_ok then Some (Op_program a bs) else pending d)"
    and poll_law: "wf d \<Longrightarrow> fl_poll F d = (s, d') \<Longrightarrow>
      wf d' \<and> (case pending d of
         None \<Rightarrow> mem d' = mem d \<and> pending d' = None
       | Some opn \<Rightarrow>
           (if s = S_busy then pending d' = Some opn \<and> op_partial ss opn (mem d) (mem d')
            else if s = S_ok then pending d' = None \<and> mem d' = apply_op ss opn (mem d)
            else pending d' = None \<and> op_partial ss opn (mem d) (mem d')))"
    and now_law: "wf d \<Longrightarrow> fl_now F d = (t, d') \<Longrightarrow> wf d' \<and> mem d' = mem d \<and> pending d' = pending d"

text \<open>
  The contract of the comment in lib/boot/flash.h: besides, one operation at a time is admitted, and the
  clock is monotonic. \<open>clk\<close> is the last reading.
\<close>

locale flash_contract = flash_device F mem pending wf ss
  for F :: "'d flash" and mem pending wf ss +
  fixes clk :: "'d \<Rightarrow> time"
  assumes erase_single: "wf d \<Longrightarrow> pending d \<noteq> None \<Longrightarrow> fst (fl_erase F d a) \<noteq> S_ok"
    and program_single: "wf d \<Longrightarrow> pending d \<noteq> None \<Longrightarrow> fst (fl_program F d a bs) \<noteq> S_ok"
    and now_monotonic: "wf d \<Longrightarrow> fl_now F d = (t, d') \<Longrightarrow> clk d \<le> t \<and> clk d' = t"
    and erase_clk: "wf d \<Longrightarrow> fl_erase F d a = (s, d') \<Longrightarrow> clk d' = clk d"
    and program_clk: "wf d \<Longrightarrow> fl_program F d a bs = (s, d') \<Longrightarrow> clk d' = clk d"
    and poll_clk: "wf d \<Longrightarrow> fl_poll F d = (s, d') \<Longrightarrow> clk d' = clk d"

text \<open>A client's calls that change the device, with their answers.\<close>

datatype flash_call = FC_erase nat | FC_program nat "byte list" | FC_poll | FC_now

datatype flash_answer = FA_start status | FA_poll status | FA_now time

fun flash_do :: "'d flash \<Rightarrow> flash_call \<Rightarrow> 'd \<Rightarrow> flash_answer \<times> 'd" where
  "flash_do F (FC_erase a) d = (case fl_erase F d a of (s, d) \<Rightarrow> (FA_start s, d))"
| "flash_do F (FC_program a bs) d = (case fl_program F d a bs of (s, d) \<Rightarrow> (FA_start s, d))"
| "flash_do F FC_poll d = (case fl_poll F d of (s, d) \<Rightarrow> (FA_poll s, d))"
| "flash_do F FC_now d = (case fl_now F d of (t, d) \<Rightarrow> (FA_now t, d))"

fun flash_calls :: "'d flash \<Rightarrow> flash_call list \<Rightarrow> 'd \<Rightarrow> flash_answer list \<times> 'd" where
  "flash_calls F [] d = ([], d)"
| "flash_calls F (c # cs) d = (case flash_do F c d of (a, d) \<Rightarrow> case flash_calls F cs d of (as, d) \<Rightarrow> (a # as, d))"

fun clock_readings :: "flash_answer list \<Rightarrow> time list" where
  "clock_readings [] = []"
| "clock_readings (FA_now t # as) = t # clock_readings as"
| "clock_readings (_ # as) = clock_readings as"

context flash_contract
begin

lemma call_law:
  assumes "wf d" "flash_do F c d = (a, d')"
  shows "wf d'"
    and "case a of FA_now t \<Rightarrow> clk d \<le> t \<and> clk d' = t | _ \<Rightarrow> clk d' = clk d"
    and "pending d \<noteq> None \<Longrightarrow> c \<noteq> FC_poll \<Longrightarrow> a \<noteq> FA_start S_ok \<and> mem d' = mem d \<and> pending d' = pending d"
proof -
  have "wf d' \<and> (case a of FA_now t \<Rightarrow> clk d \<le> t \<and> clk d' = t | _ \<Rightarrow> clk d' = clk d) \<and>
    (pending d \<noteq> None \<longrightarrow> c \<noteq> FC_poll \<longrightarrow> a \<noteq> FA_start S_ok \<and> mem d' = mem d \<and> pending d' = pending d)"
  proof (cases c)
    case (FC_erase x)
    then obtain s where s: "fl_erase F d x = (s, d')" "a = FA_start s" using assms(2) by (cases "fl_erase F d x") simp
    then show ?thesis using erase_law [OF assms(1) s(1)] erase_clk [OF assms(1) s(1)] erase_single [OF assms(1), of x] by simp
  next
    case (FC_program x bs)
    then obtain s where s: "fl_program F d x bs = (s, d')" "a = FA_start s" using assms(2) by (cases "fl_program F d x bs") simp
    then show ?thesis using program_law [OF assms(1) s(1)] program_clk [OF assms(1) s(1)] program_single [OF assms(1), of x bs]
      by simp
  next
    case FC_poll
    then obtain s where s: "fl_poll F d = (s, d')" "a = FA_poll s" using assms(2) by (cases "fl_poll F d") simp
    then show ?thesis using conjunct1 [OF poll_law [OF assms(1) s(1)]] poll_clk [OF assms(1) s(1)] FC_poll by simp
  next
    case FC_now
    then obtain t where t: "fl_now F d = (t, d')" "a = FA_now t" using assms(2) by (cases "fl_now F d") simp
    then show ?thesis using now_law [OF assms(1) t(1)] now_monotonic [OF assms(1) t(1)] by simp
  qed
  then show "wf d'" "case a of FA_now t \<Rightarrow> clk d \<le> t \<and> clk d' = t | _ \<Rightarrow> clk d' = clk d"
    "pending d \<noteq> None \<Longrightarrow> c \<noteq> FC_poll \<Longrightarrow> a \<noteq> FA_start S_ok \<and> mem d' = mem d \<and> pending d' = pending d"
    by blast+
qed

text \<open>The readings never go back, whatever is called in between.\<close>

lemma readings_sorted:
  "wf d \<Longrightarrow> flash_calls F cs d = (as, d') \<Longrightarrow>
     wf d' \<and> sorted (clock_readings as) \<and> (\<forall>t \<in> set (clock_readings as). clk d \<le> t)"
proof (induction cs arbitrary: d as)
  case (Cons c cs)
  obtain a d1 bs where s: "flash_do F c d = (a, d1)" "flash_calls F cs d1 = (bs, d')" "as = a # bs"
    using Cons.prems(2) by (auto split: prod.splits)
  note l = call_law [OF Cons.prems(1) s(1)]
  from Cons.IH [OF l(1) s(2)] l(2) s(3) show ?case by (cases a) auto
qed simp

text \<open>Until a poll, nothing else is started while an operation is in progress, and the memory stays.\<close>

lemma starts_refused:
  "wf d \<Longrightarrow> pending d \<noteq> None \<Longrightarrow> FC_poll \<notin> set cs \<Longrightarrow> flash_calls F cs d = (as, d') \<Longrightarrow>
     FA_start S_ok \<notin> set as \<and> mem d' = mem d \<and> pending d' = pending d"
proof (induction cs arbitrary: d as)
  case (Cons c cs)
  obtain a d1 bs where s: "flash_do F c d = (a, d1)" "flash_calls F cs d1 = (bs, d')" "as = a # bs"
    using Cons.prems(4) by (auto split: prod.splits)
  have l: "wf d1" "a \<noteq> FA_start S_ok" "mem d1 = mem d" "pending d1 = pending d"
    using call_law(1,3) [OF Cons.prems(1) s(1)] Cons.prems(2,3) by auto
  from Cons.IH [OF l(1) _ _ s(2)] l s(3) Cons.prems(2,3) show ?case by auto
qed simp

end

section \<open>Operations cut short\<close>

lemma op_partial_trans:
  assumes "op_partial ss opn m m1" "op_partial ss opn m1 m2"
  shows "op_partial ss opn m m2"
proof (cases opn)
  case (Op_erase a)
  then obtain k l where "k \<le> ss" "l \<le> ss" "m1 = (\<lambda>x. if a \<le> x \<and> x < a + k then 0xff else m x)"
    "m2 = (\<lambda>x. if a \<le> x \<and> x < a + l then 0xff else m1 x)"
    using assms by auto
  then have "max k l \<le> ss" "m2 = (\<lambda>x. if a \<le> x \<and> x < a + max k l then 0xff else m x)"
    by (auto simp: fun_eq_iff)
  then show ?thesis unfolding Op_erase op_partial.simps by blast
next
  case (Op_program a bs)
  then show ?thesis using assms by auto
qed

lemma op_partial_refl: "op_partial ss opn m m"
  by (cases opn) (auto intro!: exI [of _ 0] simp: fun_eq_iff)

lemma op_partial_apply: "op_partial ss opn m (apply_op ss opn m)"
  by (cases opn) (auto intro!: exI [of _ ss] simp: fun_eq_iff)

lemma apply_op_partial:
  assumes "op_partial ss opn m m1"
  shows "apply_op ss opn m1 = apply_op ss opn m"
  using assms by (cases opn) (auto simp: fun_eq_iff)

section \<open>Consequences of the geometry\<close>

lemma layout_valid_sizes:
  assumes "layout_valid L"
  shows "0 < sector_size L" "0 < slot_size L" "kRecordSize dvd sector_size L"
    "write_size L = 16 \<or> write_size L = 32"
  using assms by (auto simp: layout_valid_def)

lemma layout_valid_regions:
  assumes "layout_valid L"
  shows "metadata L ! 0 + sector_size L \<le> 2 ^ 32" "metadata L ! 1 + sector_size L \<le> 2 ^ 32"
    "metadata L ! 0 + sector_size L \<le> metadata L ! 1 \<or> metadata L ! 1 + sector_size L \<le> metadata L ! 0"
    "metadata L ! 0 mod sector_size L = 0" "metadata L ! 1 mod sector_size L = 0"
  using assms by (auto simp: layout_valid_def layout_regions_def upt_rec)

end
