(* ===== verification/Journal_Codec.thy ===== *)
theory Journal_Codec
  imports Flash
begin

text \<open>
  The boot journal's records: \<open>util::Version\<close> (lib/util/version.h), \<open>ImageState\<close>, \<open>Image\<close> and
  \<open>Snapshot\<close> (lib/boot/journal.h), and the functions \<open>encode\<close> and \<open>decode\<close>
  (lib/boot/journal.cpp). A decoded record is \<open>Some\<close>, a refused one \<open>None\<close>. The lemmas show that
  a record decodes to the snapshot it encodes, and that a record whose commit trailer has not been
  written exactly is refused whatever the trailer holds: this is what makes a torn write harmless.
\<close>

section \<open>Data\<close>

record version =
  ver_major :: u32
  ver_minor :: u32
  ver_build :: u32
  ver_commit :: "byte list"
  ver_dirty :: bool

definition default_version :: version where
  "default_version = \<lparr>ver_major = 0, ver_minor = 0, ver_build = - 1,
     ver_commit = replicate 41 0, ver_dirty = False\<rparr>"

datatype image_state = I_empty | I_incomplete | I_pending | I_trial | I_confirmed | I_rejected

fun image_state_code :: "image_state \<Rightarrow> u32" where
  "image_state_code I_empty = 0"
| "image_state_code I_incomplete = 1"
| "image_state_code I_pending = 2"
| "image_state_code I_trial = 3"
| "image_state_code I_confirmed = 4"
| "image_state_code I_rejected = 5"

text \<open>The cast back from the stored word; the caller has refused a word above \<open>rejected\<close>.\<close>

definition image_state_of :: "u32 \<Rightarrow> image_state" where
  "image_state_of c =
     (if c = 0 then I_empty else if c = 1 then I_incomplete else if c = 2 then I_pending
      else if c = 3 then I_trial else if c = 4 then I_confirmed else I_rejected)"

record image =
  img_installation :: u64
  img_size :: u32
  img_crc :: u32
  img_state :: image_state
  img_product :: u32
  img_revision :: u32
  img_version :: version

definition default_image :: image where
  "default_image = \<lparr>img_installation = 0, img_size = 0, img_crc = 0, img_state = I_empty,
     img_product = 0, img_revision = 0, img_version = default_version\<rparr>"

record snapshot =
  snap_sequence :: u64
  snap_counter :: u64
  snap_images :: "image list"

definition default_snapshot :: snapshot where
  "default_snapshot = \<lparr>snap_sequence = 0, snap_counter = 0,
     snap_images = [default_image, default_image]\<rparr>"

section \<open>Encoding\<close>

definition kMagic :: u32 where
  "kMagic = 0x4a534f44"

definition kCommit :: u32 where
  "kCommit = 0x454e4f44"

definition kCrcOffset :: nat where
  "kCrcOffset = 236"

definition kCommitOffset :: nat where
  "kCommitOffset = 240"

definition encode_image :: "nat \<Rightarrow> image \<Rightarrow> byte list \<Rightarrow> byte list" where
  "encode_image at im bytes =
     (let bytes = write64 bytes at (img_installation im);
          bytes = write32 bytes (at + 8) (img_size im);
          bytes = write32 bytes (at + 12) (img_crc im);
          bytes = write32 bytes (at + 16) (image_state_code (img_state im));
          bytes = write32 bytes (at + 20) (img_product im);
          bytes = write32 bytes (at + 24) (img_revision im);
          bytes = write32 bytes (at + 28) (ver_major (img_version im));
          bytes = write32 bytes (at + 32) (ver_minor (img_version im));
          bytes = write32 bytes (at + 36) (ver_build (img_version im));
          bytes = memcpy_at bytes (at + 40) (ver_commit (img_version im))
      in bytes[at + 81 := (if ver_dirty (img_version im) then 1 else 0)])"

definition encode :: "snapshot \<Rightarrow> nat \<Rightarrow> byte list" where
  "encode snapshot ws =
     (let crc_offset = (if ws = 32 then 220 else kCrcOffset);
          commit_offset = (if ws = 32 then 224 else kCommitOffset);
          bytes = replicate kRecordSize 0;
          bytes = write32 bytes 0 kMagic;
          bytes = write32 bytes 4 (if ws = 32 then 2 else 1);
          bytes = write64 bytes 8 (snap_sequence snapshot);
          bytes = write64 bytes 16 (snap_counter snapshot);
          bytes = fold (\<lambda>i. encode_image (24 + i * 96) (snap_images snapshot ! i)) [0..<2] bytes;
          bytes = write32 bytes crc_offset (crc32_calculate (take crc_offset bytes));
          bytes = write32 bytes commit_offset kCommit;
          bytes = write64 bytes (commit_offset + 4) (snap_sequence snapshot)
      in write32 bytes (commit_offset + 12) (NOT kCommit))"

section \<open>Decoding\<close>

definition decode_image :: "byte list \<Rightarrow> nat \<Rightarrow> u64 \<Rightarrow> image option" where
  "decode_image bytes at counter =
     (let installation = read64 bytes at;
          state = read32 bytes (at + 16)
      in if state > image_state_code I_rejected \<or> installation > counter then None
         else Some \<lparr>img_installation = installation,
                    img_size = read32 bytes (at + 8),
                    img_crc = read32 bytes (at + 12),
                    img_state = image_state_of state,
                    img_product = read32 bytes (at + 20),
                    img_revision = read32 bytes (at + 24),
                    img_version = \<lparr>ver_major = read32 bytes (at + 28),
                      ver_minor = read32 bytes (at + 32),
                      ver_build = read32 bytes (at + 36),
                      ver_commit = (take 41 (drop (at + 40) bytes))[40 := 0],
                      ver_dirty = (bytes ! (at + 81) \<noteq> 0)\<rparr>\<rparr>)"

definition decode :: "byte list \<Rightarrow> snapshot option" where
  "decode bytes =
     (let version = read32 bytes 4;
          crc_offset = (if version = 2 then 220 else kCrcOffset);
          commit_offset = (if version = 2 then 224 else kCommitOffset)
      in if read32 bytes 0 \<noteq> kMagic \<or> (version \<noteq> 1 \<and> version \<noteq> 2) \<or>
            read32 bytes commit_offset \<noteq> kCommit \<or>
            read32 bytes (commit_offset + 12) \<noteq> NOT kCommit \<or>
            read64 bytes (commit_offset + 4) \<noteq> read64 bytes 8 \<or>
            read32 bytes crc_offset \<noteq> crc32_calculate (take crc_offset bytes)
         then None
         else if version = 2 \<and> \<not> list_all (\<lambda>b. b = 0) (drop 240 bytes) then None
         else
           let sequence = read64 bytes 8; counter = read64 bytes 16
           in if sequence = 0 then None
              else case decode_image bytes 24 counter of
                     None \<Rightarrow> None
                   | Some i0 \<Rightarrow>
                       (case decode_image bytes 120 counter of
                          None \<Rightarrow> None
                        | Some i1 \<Rightarrow> Some \<lparr>snap_sequence = sequence, snap_counter = counter,
                                           snap_images = [i0, i1]\<rparr>))"

section \<open>Well-formed values\<close>

definition image_wf :: "image \<Rightarrow> bool" where
  "image_wf im \<longleftrightarrow> length (ver_commit (img_version im)) = 41 \<and> ver_commit (img_version im) ! 40 = 0"

definition snapshot_wf :: "snapshot \<Rightarrow> bool" where
  "snapshot_wf s \<longleftrightarrow> length (snap_images s) = 2 \<and> list_all image_wf (snap_images s)"

text \<open>What a committed snapshot satisfies: a sequence number, and no installation above the counter.\<close>

definition snapshot_committable :: "snapshot \<Rightarrow> bool" where
  "snapshot_committable s \<longleftrightarrow> snapshot_wf s \<and> snap_sequence s \<noteq> 0 \<and>
     list_all (\<lambda>im. img_installation im \<le> snap_counter s) (snap_images s)"

section \<open>Round trip\<close>

lemma length_encode_image [simp]:
  "length (ver_commit (img_version im)) = 41 \<Longrightarrow> at + 82 \<le> length bytes \<Longrightarrow>
     length (encode_image at im bytes) = length bytes"
  by (simp add: encode_image_def Let_def)

lemma image_state_code_bound: "image_state_code s \<le> 5"
  by (cases s) simp_all

lemma image_state_of_code [simp]: "image_state_of (image_state_code s) = s"
  by (cases s) (simp_all add: image_state_of_def)

lemma list_update_last_same: "length xs = 41 \<Longrightarrow> xs ! 40 = 0 \<Longrightarrow> xs[40 := 0] = xs"
  by (metis list_update_id)

lemma decode_image_encode_image:
  assumes "image_wf im" and "at + 82 \<le> length bytes"
  shows "decode_image (encode_image at im bytes) at counter =
    (if img_installation im \<le> counter then Some im else None)"
  using assms image_state_code_bound [of "img_state im"]
  by (auto simp: decode_image_def encode_image_def Let_def wire_simps image_wf_def not_less
      list_update_last_same split: if_splits)

lemma nth_encode_image_other:
  "length (ver_commit (img_version im)) = 41 \<Longrightarrow> at + 82 \<le> length d \<Longrightarrow> k < length d \<Longrightarrow>
     k < at \<or> at + 82 \<le> k \<Longrightarrow> encode_image at im d ! k = d ! k"
  by (auto simp: encode_image_def Let_def nth_wire_simps)

lemma read32_encode_image_other [wire_simps]:
  "length (ver_commit (img_version im)) = 41 \<Longrightarrow> at + 82 \<le> length d \<Longrightarrow> i + 4 \<le> length d \<Longrightarrow>
     at + 82 \<le> i \<or> i + 4 \<le> at \<Longrightarrow> read32 (encode_image at im d) i = read32 d i"
  by (rule read32_cong) (auto simp: nth_encode_image_other)

lemma read64_encode_image_other [wire_simps]:
  "length (ver_commit (img_version im)) = 41 \<Longrightarrow> at + 82 \<le> length d \<Longrightarrow> i + 8 \<le> length d \<Longrightarrow>
     at + 82 \<le> i \<or> i + 8 \<le> at \<Longrightarrow> read64 (encode_image at im d) i = read64 d i"
  by (rule read64_cong) (auto simp: nth_encode_image_other)

lemma drop_encode_image_other [wire_simps]:
  "length (ver_commit (img_version im)) = 41 \<Longrightarrow> at + 82 \<le> length d \<Longrightarrow> at + 82 \<le> n \<Longrightarrow>
     drop n (encode_image at im d) = drop n d"
  by (rule nth_equalityI) (auto simp: nth_encode_image_other)

text \<open>An image field only depends on its own 82 bytes.\<close>

lemma decode_image_cong:
  assumes "length a = length b" and eq: "\<And>k. k < 82 \<Longrightarrow> a ! (at + k) = b ! (at + k)"
  shows "decode_image a at counter = decode_image b at counter"
proof -
  have r32: "read32 a (at + i) = read32 b (at + i)" if "i + 4 \<le> 82" for i
    by (rule read32_cong) (use that eq [of "i + _"] in \<open>simp add: add.assoc\<close>)
  have r64: "read64 a at = read64 b at" by (rule read64_cong) (simp add: eq)
  have "take 41 (drop (at + 40) a) = take 41 (drop (at + 40) b)"
    by (rule run_cong) (use assms(1) eq [of "40 + _"] in \<open>auto simp: add.assoc\<close>)
  then show ?thesis using r32 r64 eq [of 81] by (simp add: decode_image_def Let_def)
qed

lemma decode_image_write32_other [wire_simps]:
  "at + 82 \<le> i \<Longrightarrow> decode_image (write32 d i v) at c = decode_image d at c"
  by (rule decode_image_cong) (auto simp: nth_write32_other)

lemma decode_image_write64_other [wire_simps]:
  "at + 82 \<le> i \<Longrightarrow> decode_image (write64 d i v) at c = decode_image d at c"
  by (rule decode_image_cong) (auto simp: nth_write64_other)

lemma decode_image_encode_image_other [wire_simps]:
  "length (ver_commit (img_version im)) = 41 \<Longrightarrow> i + 82 \<le> length d \<Longrightarrow> at + 82 \<le> i \<Longrightarrow>
     decode_image (encode_image i im d) at c = decode_image d at c"
  by (rule decode_image_cong) (auto simp: nth_encode_image_other)

lemma length_encode [simp]:
  assumes "snapshot_wf s"
  shows "length (encode s ws) = 256"
proof -
  obtain i0 i1 where "snap_images s = [i0, i1]" and "image_wf i0" "image_wf i1"
    using assms by (auto simp: snapshot_wf_def elim!: length_2_cases)
  then show ?thesis by (simp add: encode_def Let_def upt_0_2 image_wf_def kRecordSize_def kCrcOffset_def kCommitOffset_def)
qed

text \<open>Exactly the committable snapshots are readable again, and they are read back unchanged.\<close>

lemma decode_encode:
  assumes "snapshot_wf s"
  shows "decode (encode s ws) = (if snapshot_committable s then Some s else None)"
proof -
  obtain i0 i1 where im: "snap_images s = [i0, i1]" and wf: "image_wf i0" "image_wf i1"
    using assms by (auto simp: snapshot_wf_def elim!: length_2_cases)
  have len: "length (ver_commit (img_version i0)) = 41" "length (ver_commit (img_version i1)) = 41"
    using wf by (simp_all add: image_wf_def)
  have c: "snapshot_committable s \<longleftrightarrow> snap_sequence s \<noteq> 0 \<and> img_installation i0 \<le> snap_counter s \<and>
      img_installation i1 \<le> snap_counter s"
    using assms im by (simp add: snapshot_committable_def)
  have s: "s = \<lparr>snap_sequence = snap_sequence s, snap_counter = snap_counter s, snap_images = [i0, i1]\<rparr>"
    using im by simp
  show ?thesis
  proof (cases "ws = 32")
    case True
    then show ?thesis using wf len s
      by (simp add: c decode_def encode_def Let_def upt_0_2 im wire_simps kRecordSize_def kCrcOffset_def
          kCommitOffset_def decode_image_encode_image list_all_iff)
  next
    case False
    then show ?thesis using wf len s
      by (simp add: c decode_def encode_def Let_def upt_0_2 im wire_simps kRecordSize_def kCrcOffset_def
          kCommitOffset_def decode_image_encode_image)
  qed
qed

section \<open>Torn records\<close>

text \<open>Where the commit trailer of a record starts, by the record's format version.\<close>

definition trailer_of :: "byte list \<Rightarrow> nat" where
  "trailer_of b = (if read32 b 4 = 2 then 224 else 240)"

lemma decode_SomeD:
  assumes "decode b = Some t"
  shows "read32 b 0 = kMagic" "read32 b 4 = 1 \<or> read32 b 4 = 2"
    "read32 b (trailer_of b) = kCommit"
    "read32 b (trailer_of b + 12) = NOT kCommit"
    "read64 b (trailer_of b + 4) = read64 b 8"
    "read32 b 4 = 2 \<Longrightarrow> list_all (\<lambda>b. b = 0) (drop 240 b)"
    "snap_sequence t = read64 b 8" "snap_sequence t \<noteq> 0"
  using assms
  by (auto simp: decode_def Let_def kCommitOffset_def trailer_of_def split: if_splits option.splits)

text \<open>The version field names the write granularity the record was made for.\<close>

lemma encode_version:
  assumes "snapshot_wf s"
  shows "read32 (encode s ws) 4 = (if ws = 32 then 2 else 1)"
proof -
  obtain i0 i1 where im: "snap_images s = [i0, i1]" and "image_wf i0" "image_wf i1"
    using assms by (auto simp: snapshot_wf_def elim!: length_2_cases)
  then have "length (ver_commit (img_version i0)) = 41" "length (ver_commit (img_version i1)) = 41"
    by (simp_all add: image_wf_def)
  then show ?thesis
    by (simp add: encode_def Let_def upt_0_2 im wire_simps kRecordSize_def kCrcOffset_def kCommitOffset_def)
qed

lemma list_all_zero_nth:
  assumes "list_all (\<lambda>b. b = 0) (drop 240 (x :: byte list))" "length x = 256" "240 \<le> k" "k < 256"
  shows "x ! k = 0"
proof -
  have "x ! k \<in> set (drop 240 x)"
    using nth_mem [of "k - 240" "drop 240 x"] assms(2-4) by simp
  then show ?thesis using assms(1) by (simp add: list_all_iff)
qed

text \<open>
  Two committed records that agree up to their trailer are equal: the trailer is a function of the
  record. So whatever a torn write left in the trailer, the record is refused or complete.
\<close>

lemma decode_torn:
  assumes R: "decode R = Some r" "length R = 256" and b: "decode b = Some t" "length b = 256"
    and eq: "\<And>k. k < trailer_of R \<Longrightarrow> b ! k = R ! k"
  shows "b = R"
proof -
  let ?c = "trailer_of R"
  have "read32 b 4 = read32 R 4" by (rule read32_cong) (simp add: eq trailer_of_def)
  then have v: "read32 b 4 = read32 R 4" and c: "trailer_of b = ?c" by (simp_all add: trailer_of_def)
  have "read64 b 8 = read64 R 8" by (rule read64_cong) (simp add: eq trailer_of_def)
  then have f: "read32 b ?c = read32 R ?c" "read32 b (?c + 12) = read32 R (?c + 12)"
    "read64 b (?c + 4) = read64 R (?c + 4)"
    using decode_SomeD(3-5) [OF b(1)] decode_SomeD(3-5) [OF R(1)] unfolding c by simp_all
  have t: "b ! k = R ! k" if k: "?c \<le> k" "k < ?c + 16" for k
  proof -
    consider "k < ?c + 4" | "?c + 4 \<le> k" "k < ?c + 12" | "?c + 12 \<le> k" using k by linarith
    then show ?thesis
    proof cases
      case 1
      then show ?thesis using read32_inject [OF f(1), of "k - ?c"] k by simp
    next
      case 2
      then show ?thesis using read64_inject [OF f(3), of "k - (?c + 4)"] by simp
    next
      case 3
      then show ?thesis using read32_inject [OF f(2), of "k - (?c + 12)"] k by simp
    qed
  qed
  have z: "b ! k = R ! k" if k: "?c + 16 \<le> k" "k < 256" for k
  proof -
    have "read32 R 4 = 2" and "240 \<le> k" using k by (auto simp: trailer_of_def split: if_splits)
    then show ?thesis
      using decode_SomeD(6) [OF b(1)] decode_SomeD(6) [OF R(1)] v k b(2) R(2)
      by (simp add: list_all_zero_nth)
  qed
  show ?thesis
  proof (rule nth_all_eqI)
    show "length b = length R" using b(2) R(2) by simp
    fix k assume "k < length R"
    then show "b ! k = R ! k"
      using eq [of k] t [of k] z [of k] R(2) by (cases "k < ?c"; cases "k < ?c + 16") auto
  qed
qed

lemma le32_mismatch:
  assumes "read32 b i = v" and "b ! i \<noteq> ucast v"
  shows False
proof -
  have "read32 b i = read32 (le32 v) 0" using assms(1) by (simp add: read32_le32)
  then have "b ! i = le32 v ! 0" using read32_inject [of b i "le32 v" 0 0] by simp
  then show False using assms(2) by (simp add: le32_Cons)
qed

lemma decode_blank_first:
  assumes "b ! 0 = 0xff"
  shows "decode b = None"
proof (rule ccontr)
  assume "decode b \<noteq> None"
  then obtain t where "decode b = Some t" by blast
  then show False using assms by (intro le32_mismatch [OF decode_SomeD(1)]) (auto simp: kMagic_def)
qed

text \<open>A record whose last write unit is still erased is not committed.\<close>

lemma decode_blank_trailer:
  assumes "length b = 256" "read32 b 4 = 2 \<Longrightarrow> b ! 224 = 0xff \<or> b ! 240 = 0xff"
    "read32 b 4 \<noteq> 2 \<Longrightarrow> b ! 240 = 0xff"
  shows "decode b = None"
proof (rule ccontr)
  assume "decode b \<noteq> None"
  then obtain t where t: "decode b = Some t" by blast
  show False
  proof (cases "b ! trailer_of b = 0xff")
    case True
    then show ?thesis by (intro le32_mismatch [OF decode_SomeD(3) [OF t]]) (simp add: kCommit_def)
  next
    case False
    then have v: "read32 b 4 = 2" and "b ! 240 = 0xff"
      using assms by (auto simp: trailer_of_def split: if_splits)
    then show ?thesis
      using list_all_zero_nth [OF decode_SomeD(6) [OF t v] assms(1), of 240] by simp
  qed
qed

end
