(* ===== verification/Journal.thy ===== *)
theory Journal
  imports Journal_Codec
begin

text \<open>
  The boot journal, class \<open>Journal\<close> of lib/boot/journal.h and lib/boot/journal.cpp: two
  independently erasable metadata sectors of 256-byte records, the scan that loads the newest
  committed record, the choice of the next record's place (with the checkpoint copy that protects
  the only durable record when the running bank may not be erased), the erase/program/verify
  state machine, and the two foreground loops \<open>commit\<close> and \<open>prepare_runtime\<close>.

  The flash callbacks and the layout are the arguments \<open>F\<close> and \<open>L\<close>; the C++ members are the
  fields of \<open>journal\<close>. A function whose loop need not end returns an option, \<open>None\<close> meaning
  that the call does not return. Address arithmetic in loops wraps at \<open>2 ^ 32\<close>, the width of
  \<open>std::uint32_t\<close> and of \<open>std::size_t\<close> on the STM32 targets.
\<close>

section \<open>State\<close>

datatype journal_state =
  J_idle | J_erase | J_erase_wait | J_write | J_write_wait | J_verify | J_done | J_failed

fun journal_index :: "journal_state \<Rightarrow> nat" where
  "journal_index J_idle = 0"
| "journal_index J_erase = 1"
| "journal_index J_erase_wait = 2"
| "journal_index J_write = 3"
| "journal_index J_write_wait = 4"
| "journal_index J_verify = 5"
| "journal_index J_done = 6"
| "journal_index J_failed = 7"

record journal =
  j_record :: "byte list"
  j_pending_record :: "byte list"
  j_pending_target :: nat
  j_checkpoint :: bool
  j_erase_only :: bool
  j_machine :: "journal_state state_machine"
  j_status :: status
  j_target :: nat
  j_latest :: nat
  j_offset :: nat
  j_operation_started :: time
  j_requested :: bool
  j_erase_needed :: bool
  j_timed_out :: bool

section \<open>Loading\<close>

definition blank :: "byte list \<Rightarrow> bool" where
  "blank bytes \<longleftrightarrow> list_all (\<lambda>b. b = 0xff) bytes"

definition Erased :: "'d flash \<Rightarrow> 'd \<Rightarrow> nat \<Rightarrow> bool" where
  "Erased F d address =
     (case fl_read F d address 16 of (s, header) \<Rightarrow>
        if s \<noteq> S_ok \<or> \<not> blank header then False
        else case fl_read F d (address + 16) 240 of (s', rest) \<Rightarrow> s' = S_ok \<and> blank rest)"

record load_state =
  ld_best :: snapshot
  ld_record :: "byte list"
  ld_latest :: nat
  ld_found :: bool
  ld_read_failed :: bool

text \<open>One iteration of the scan; \<open>Inl\<close> is the early return with \<open>checksum_error\<close>.\<close>

definition load_entry ::
  "'d flash \<Rightarrow> 'd \<Rightarrow> nat \<Rightarrow> load_state \<Rightarrow> load_state + load_state" where
  "load_entry F d address st =
     (case fl_read F d address 16 of (s, header) \<Rightarrow>
        if s \<noteq> S_ok then Inr (st\<lparr>ld_read_failed := True\<rparr>)
        else if read32 header 0 \<noteq> kMagic \<or> (read32 header 4 \<noteq> 1 \<and> read32 header 4 \<noteq> 2) then Inr st
        else if ld_found st \<and> read64 header 8 < snap_sequence (ld_best st) then Inr st
        else case fl_read F d (address + 16) 240 of (s', rest) \<Rightarrow>
          if s' \<noteq> S_ok then Inr (st\<lparr>ld_read_failed := True\<rparr>)
          else case decode (header @ rest) of
            None \<Rightarrow> Inr st
          | Some candidate \<Rightarrow>
              if ld_found st \<and> snap_sequence candidate = snap_sequence (ld_best st) \<and>
                 header @ rest \<noteq> ld_record st then Inl st
              else if \<not> ld_found st \<or> snap_sequence candidate > snap_sequence (ld_best st) then
                Inr (st\<lparr>ld_best := candidate, ld_record := header @ rest,
                         ld_latest := address, ld_found := True\<rparr>)
              else Inr st)"

text \<open>The records of a sector are visited from its end; \<open>n\<close> records remain.\<close>

fun load_sector ::
  "'d flash \<Rightarrow> 'd \<Rightarrow> nat \<Rightarrow> nat \<Rightarrow> load_state \<Rightarrow> load_state + load_state" where
  "load_sector F d sector 0 st = Inr st"
| "load_sector F d sector (Suc n) st =
     (case load_entry F d (sector + n * kRecordSize) st of
        Inl st' \<Rightarrow> Inl st'
      | Inr st' \<Rightarrow> load_sector F d sector n st')"

fun load_sectors ::
  "'d flash \<Rightarrow> 'd \<Rightarrow> nat list \<Rightarrow> nat \<Rightarrow> load_state \<Rightarrow> load_state + load_state" where
  "load_sectors F d [] n st = Inr st"
| "load_sectors F d (sector # sectors) n st =
     (case load_sector F d sector n st of
        Inl st' \<Rightarrow> Inl st'
      | Inr st' \<Rightarrow> load_sectors F d sectors n st')"

text \<open>\<open>Journal::load\<close>: the status, the caller's snapshot variable, the journal and the device after it.\<close>

definition journal_load ::
  "'d flash \<Rightarrow> layout \<Rightarrow> journal \<Rightarrow> snapshot \<Rightarrow> 'd \<Rightarrow> status \<times> snapshot \<times> journal \<times> 'd" where
  "journal_load F L j snapshot d =
     (if \<not> flash_valid F \<or> \<not> layout_valid L then (S_invalid_argument, snapshot, j, d)
      else case fl_poll F d of (s, d') \<Rightarrow>
        if s = S_busy then (S_busy, snapshot, j, d')
        else
          let st = \<lparr>ld_best = default_snapshot, ld_record = replicate kRecordSize 0,
                    ld_latest = j_latest j, ld_found = False, ld_read_failed = False\<rparr>
          in case load_sectors F d' (metadata L) (sector_size L div kRecordSize) st of
               Inl st' \<Rightarrow> (S_checksum_error, snapshot, j\<lparr>j_latest := ld_latest st'\<rparr>, d')
             | Inr st' \<Rightarrow>
                 if \<not> ld_found st' then
                   (if ld_read_failed st' then S_io_error else S_not_found, snapshot,
                    j\<lparr>j_latest := ld_latest st'\<rparr>, d')
                 else (S_ok, ld_best st', j\<lparr>j_latest := ld_latest st'\<rparr>, d'))"

section \<open>Choosing a place for the next record\<close>

text \<open>
  The loop \<open>for (at = ...; at < limit; at += kRecordSize) if (Erased(flash_, at)) ...\<close>: the
  first erased record position, if the loop ends.
\<close>

partial_function (option) find_erased :: "'d flash \<Rightarrow> 'd \<Rightarrow> nat \<Rightarrow> nat \<Rightarrow> nat option option" where
  "find_erased F d at limit =
     (if at < limit then
        if Erased F d at then Some (Some at)
        else find_erased F d ((at + kRecordSize) mod 2 ^ 32) limit
      else Some None)"

text \<open>\<open>UINT32_MAX\<close> is the loop's marker for a sector with no erased record.\<close>

definition free_record :: "'d flash \<Rightarrow> layout \<Rightarrow> 'd \<Rightarrow> nat \<Rightarrow> nat option" where
  "free_record F L d bank =
     (case find_erased F d (metadata L ! bank) (metadata L ! bank + sector_size L) of
        None \<Rightarrow> None
      | Some None \<Rightarrow> Some (2 ^ 32 - 1)
      | Some (Some at) \<Rightarrow> Some at)"

definition in_bank :: "layout \<Rightarrow> nat \<Rightarrow> nat \<Rightarrow> bool" where
  "in_bank L bank at \<longleftrightarrow> metadata L ! bank \<le> at \<and> at < metadata L ! bank + sector_size L"

text \<open>The part of \<open>begin\<close> that places the record with no bank executing.\<close>

definition place_record ::
  "'d flash \<Rightarrow> layout \<Rightarrow> status \<Rightarrow> journal \<Rightarrow> 'd \<Rightarrow> journal option" where
  "place_record F L loaded j d =
     (let j = j\<lparr>j_erase_needed := True, j_target := metadata L ! 0\<rparr>
      in if loaded = S_ok then
           let bank = (if metadata L ! 1 \<le> j_latest j \<and> j_latest j - metadata L ! 1 < sector_size L
                       then 1 else 0)
           in case find_erased F d ((j_latest j + kRecordSize) mod 2 ^ 32)
                     (metadata L ! bank + sector_size L) of
                None \<Rightarrow> None
              | Some (Some at) \<Rightarrow> Some (j\<lparr>j_target := at, j_erase_needed := False\<rparr>)
              | Some None \<Rightarrow> Some (j\<lparr>j_target := metadata L ! (1 - bank)\<rparr>)
         else Some j)"

text \<open>
  The part of \<open>begin\<close> for a running bank: appends and erases belong to the inactive bank, and the
  record there is first copied to the executing bank if it is the newest one. \<open>Inl\<close> is an early
  return.
\<close>

definition place_runtime ::
  "'d flash \<Rightarrow> layout \<Rightarrow> status \<Rightarrow> nat \<Rightarrow> journal \<Rightarrow> 'd \<Rightarrow> (status \<times> journal + journal) option" where
  "place_runtime F L loaded executing j d =
     (let inactive = 1 - executing
      in case free_record F L d inactive of
           None \<Rightarrow> None
         | Some target \<Rightarrow>
             let j = j\<lparr>j_target := target, j_erase_needed := (target = 2 ^ 32 - 1)\<rparr>
             in if \<not> j_erase_needed j then Some (Inr j)
                else
                  let j = j\<lparr>j_target := metadata L ! inactive\<rparr>
                  in if loaded = S_ok \<and> in_bank L inactive (j_latest j) then
                       case free_record F L d executing of
                         None \<Rightarrow> None
                       | Some checkpoint \<Rightarrow>
                           if checkpoint = 2 ^ 32 - 1 then Some (Inl (S_full, j))
                           else
                             let j = j\<lparr>j_pending_record := j_record j, j_pending_target := j_target j\<rparr>
                             in case fl_read F d (j_latest j) kRecordSize of (s, bytes) \<Rightarrow>
                                  let j = j\<lparr>j_record := bytes\<rparr>
                                  in if s \<noteq> S_ok then Some (Inl (S_io_error, j))
                                     else Some (Inr (j\<lparr>j_target := checkpoint, j_checkpoint := True,
                                                        j_erase_needed := False\<rparr>))
                     else Some (Inr j))"

text \<open>The rest of \<open>begin\<close> once the record is encoded: a place, and the request to the machine.\<close>

definition begin_place ::
  "'d flash \<Rightarrow> layout \<Rightarrow> status \<Rightarrow> journal \<Rightarrow> 'd \<Rightarrow> (status \<times> journal \<times> 'd) option" where
  "begin_place F L loaded j d =
     (case place_record F L loaded j d of
        None \<Rightarrow> None
      | Some j \<Rightarrow>
          let executing = (case fl_executing_bank F of Some f \<Rightarrow> f d | None \<Rightarrow> 2);
              start = (\<lambda>j. j\<lparr>j_offset := 0, j_timed_out := False, j_requested := True,
                               j_status := S_busy\<rparr>)
          in if executing < 2 then
               case place_runtime F L loaded executing j d of
                 None \<Rightarrow> None
               | Some (Inl (s, j)) \<Rightarrow> Some (s, j, d)
               | Some (Inr j) \<Rightarrow> Some (S_ok, start j, d)
             else Some (S_ok, start j, d))"

definition journal_begin ::
  "'d flash \<Rightarrow> layout \<Rightarrow> snapshot \<Rightarrow> bool \<Rightarrow> journal \<Rightarrow> 'd \<Rightarrow> (status \<times> journal \<times> 'd) option" where
  "journal_begin F L snapshot initialize j d =
     (if j_status j = S_busy then Some (S_busy, j, d)
      else case journal_load F L j default_snapshot d of (loaded, current, j, d) \<Rightarrow>
        if loaded \<noteq> S_ok \<and> \<not> (initialize \<and> loaded = S_not_found) then Some (loaded, j, d)
        else case fl_poll F d of (s, d) \<Rightarrow>
          if s = S_busy then Some (S_busy, j, d)
          else if snap_sequence current = - 1 \<or> snap_counter snapshot < snap_counter current then
            Some (S_counter_exhausted, j, d)
          else
            let nxt = snapshot\<lparr>snap_sequence := snap_sequence current + 1\<rparr>;
                j = j\<lparr>j_record := encode nxt (write_size L), j_checkpoint := False,
                       j_erase_only := False\<rparr>
            in if decode (j_record j) = None then Some (S_invalid_argument, j, d)
               else begin_place F L loaded j d)"

section \<open>The write machine\<close>

text \<open>The cases \<open>idle\<close>, \<open>done\<close> and \<open>failed\<close>: a request starts the machine.\<close>

definition journal_accept :: "journal_state \<Rightarrow> journal \<Rightarrow> 'd \<Rightarrow> journal_state \<times> journal \<times> 'd" where
  "journal_accept cs j d =
     (if j_requested j then
        (if j_erase_needed j then J_erase else J_write, j\<lparr>j_requested := False\<rparr>, d)
      else (cs, j, d))"

text \<open>The cases \<open>erase_wait\<close> and \<open>write_wait\<close>.\<close>

definition journal_wait ::
  "'d flash \<Rightarrow> layout \<Rightarrow> journal_state \<Rightarrow> journal \<Rightarrow> 'd \<Rightarrow> journal_state \<times> journal \<times> 'd" where
  "journal_wait F L cs j d =
     (case fl_poll F d of (result, d') \<Rightarrow>
        if result = S_busy \<and> \<not> j_timed_out j then (cs, j, d')
        else if result \<noteq> S_ok \<or> j_timed_out j then
          (J_failed, j\<lparr>j_status := (if j_timed_out j then S_timeout else result)\<rparr>, d')
        else if cs = J_erase_wait then
          if j_erase_only j then (J_done, j\<lparr>j_status := S_ok\<rparr>, d')
          else (J_write, j, d')
        else
          let j = j\<lparr>j_offset := j_offset j + write_size L\<rparr>
          in (if j_offset j = kRecordSize then J_verify else J_write, j, d'))"

fun journal_step ::
  "'d flash \<Rightarrow> layout \<Rightarrow> journal_state \<Rightarrow> journal \<times> 'd \<Rightarrow> journal_state \<times> journal \<times> 'd" where
  "journal_step F L J_idle (j, d) = journal_accept J_idle j d"
| "journal_step F L J_done (j, d) = journal_accept J_done j d"
| "journal_step F L J_failed (j, d) = journal_accept J_failed j d"
| "journal_step F L J_erase (j, d) =
     (if j_timed_out j then (J_failed, j\<lparr>j_status := S_timeout\<rparr>, d)
      else case fl_erase F d (j_target j) of (result, d') \<Rightarrow>
        if result \<noteq> S_ok then
          (J_failed, j\<lparr>j_status := (if result = S_busy then S_io_error else result)\<rparr>, d')
        else (J_erase_wait, j, d'))"
| "journal_step F L J_erase_wait (j, d) = journal_wait F L J_erase_wait j d"
| "journal_step F L J_write_wait (j, d) = journal_wait F L J_write_wait j d"
| "journal_step F L J_write (j, d) =
     (if j_timed_out j then (J_failed, j\<lparr>j_status := S_timeout\<rparr>, d)
      else case fl_program F d (j_target j + j_offset j)
                  (take (write_size L) (drop (j_offset j) (j_record j))) of (result, d') \<Rightarrow>
        if result \<noteq> S_ok then
          (J_failed, j\<lparr>j_status := (if result = S_busy then S_io_error else result)\<rparr>, d')
        else (J_write_wait, j, d'))"
| "journal_step F L J_verify (j, d) =
     (case fl_read F d (j_target j) kRecordSize of (s, readback) \<Rightarrow>
        let status = (if s = S_ok \<and> readback \<noteq> j_record j then S_checksum_error else s)
        in if status = S_ok \<and> j_checkpoint j then
             (J_erase, j\<lparr>j_record := j_pending_record j, j_target := j_pending_target j,
                         j_offset := 0, j_checkpoint := False, j_status := S_busy\<rparr>, d)
           else (if status = S_ok then J_done else J_failed, j\<lparr>j_status := status\<rparr>, d))"

definition journal_derived :: "'d flash \<Rightarrow> layout \<Rightarrow> (journal_state, journal \<times> 'd) derived" where
  "journal_derived F L = \<lparr>dv_initial = J_idle, dv_index = journal_index, dv_count = 8,
     dv_step = journal_step F L, dv_on_tick = (\<lambda>_ ob. ob), dv_on_enter = (\<lambda>_ ob. ob),
     dv_on_exit = (\<lambda>_ ob. ob)\<rparr>"

definition journal_tick :: "'d flash \<Rightarrow> layout \<Rightarrow> journal \<times> 'd \<Rightarrow> journal \<times> 'd" where
  "journal_tick F L = (\<lambda>(j, d).
     let (j, d) =
       (if j_requested j then
          (case fl_now F d of (t, d') \<Rightarrow> (j\<lparr>j_operation_started := t\<rparr>, d'))
        else if j_status j = S_busy then
          (case fl_now F d of (t, d') \<Rightarrow>
             if t - j_operation_started j \<ge> operation_timeout L
             then (j\<lparr>j_timed_out := True\<rparr>, d') else (j, d'))
        else (j, d))
     in case sm_tick (journal_derived F L) (j_machine j) (j, d) of
          (_, m, j, d) \<Rightarrow> (j\<lparr>j_machine := m\<rparr>, d))"

definition journal_new :: "'d flash \<Rightarrow> layout \<Rightarrow> journal" where
  "journal_new F L = \<lparr>j_record = replicate kRecordSize 0, j_pending_record = replicate kRecordSize 0,
     j_pending_target = 0, j_checkpoint = False, j_erase_only = False,
     j_machine = sm_new (journal_derived F L), j_status = S_ok, j_target = 0, j_latest = 0,
     j_offset = 0, j_operation_started = 0, j_requested = False, j_erase_needed = False,
     j_timed_out = False\<rparr>"

section \<open>Foreground loops\<close>

text \<open>\<open>while (status_ == Status::busy) { timed_out_ = now - start >= timeout; tick(); }\<close>\<close>

partial_function (option) journal_run ::
  "'d flash \<Rightarrow> layout \<Rightarrow> time \<Rightarrow> time \<Rightarrow> journal \<Rightarrow> 'd \<Rightarrow> (journal \<times> 'd) option" where
  "journal_run F L start timeout j d =
     (if j_status j = S_busy then
        (case fl_now F d of (t, d') \<Rightarrow>
           case journal_tick F L (j\<lparr>j_timed_out := (t - start \<ge> timeout)\<rparr>, d') of
             (j', d'') \<Rightarrow> journal_run F L start timeout j' d'')
      else Some (j, d))"

definition journal_commit ::
  "'d flash \<Rightarrow> layout \<Rightarrow> snapshot \<Rightarrow> time \<Rightarrow> bool \<Rightarrow> journal \<Rightarrow> 'd \<Rightarrow> (status \<times> journal \<times> 'd) option" where
  "journal_commit F L snapshot timeout initialize j d =
     (let timeout = (if timeout = 0 then operation_timeout L else timeout)
      in case journal_begin F L snapshot initialize j d of
           None \<Rightarrow> None
         | Some (s, j, d) \<Rightarrow>
             if s \<noteq> S_ok then Some (s, j, d)
             else case fl_now F d of (start, d) \<Rightarrow>
               case journal_run F L start timeout j d of
                 None \<Rightarrow> None
               | Some (j, d) \<Rightarrow> Some (j_status j, j, d))"

text \<open>The lambda \<open>run\<close> of \<open>prepare_runtime\<close>.\<close>

definition prepare_run ::
  "'d flash \<Rightarrow> layout \<Rightarrow> time \<Rightarrow> journal \<Rightarrow> 'd \<Rightarrow> (status \<times> journal \<times> 'd) option" where
  "prepare_run F L timeout j d =
     (let j = j\<lparr>j_offset := 0, j_timed_out := False, j_checkpoint := False, j_requested := True,
                 j_status := S_busy\<rparr>
      in case fl_now F d of (start, d) \<Rightarrow>
           case journal_run F L start timeout j d of
             None \<Rightarrow> None
           | Some (j, d) \<Rightarrow> Some (j_status j, j, d))"

text \<open>\<open>for (at = ...; blank && at < limit; at += kRecordSize) blank = Erased(flash_, at);\<close>\<close>

partial_function (option) all_erased :: "'d flash \<Rightarrow> 'd \<Rightarrow> nat \<Rightarrow> nat \<Rightarrow> bool option" where
  "all_erased F d at limit =
     (if at < limit then
        if Erased F d at then all_erased F d ((at + kRecordSize) mod 2 ^ 32) limit
        else Some False
      else Some True)"

definition prepare_runtime ::
  "'d flash \<Rightarrow> layout \<Rightarrow> nat \<Rightarrow> time \<Rightarrow> journal \<Rightarrow> 'd \<Rightarrow> (status \<times> journal \<times> 'd) option" where
  "prepare_runtime F L bank timeout j d =
     (if bank \<ge> 2 \<or> (case fl_executing_bank F of Some f \<Rightarrow> f d < 2 | None \<Rightarrow> False) then
        Some (S_unsupported, j, d)
      else if j_status j = S_busy then Some (S_busy, j, d)
      else case journal_load F L j default_snapshot d of (result, _, j, d) \<Rightarrow>
        if result \<noteq> S_ok then Some (result, j, d)
        else
          let reclaim = (\<lambda>j d.
                case all_erased F d (metadata L ! bank) (metadata L ! bank + sector_size L) of
                  None \<Rightarrow> None
                | Some True \<Rightarrow> Some (S_ok, j, d)
                | Some False \<Rightarrow>
                    prepare_run F L timeout
                      (j\<lparr>j_target := metadata L ! bank, j_erase_needed := True,
                          j_erase_only := True\<rparr>) d)
          in if in_bank L bank (j_latest j) then
               case fl_read F d (j_latest j) kRecordSize of (s, bytes) \<Rightarrow>
                 let j = j\<lparr>j_record := bytes\<rparr>
                 in if s \<noteq> S_ok then Some (S_io_error, j, d)
                    else case find_erased F d (metadata L ! (1 - bank))
                                (metadata L ! (1 - bank) + sector_size L) of
                      None \<Rightarrow> None
                    | Some found \<Rightarrow>
                        let j = j\<lparr>j_target := (case found of Some at \<Rightarrow> at
                                                  | None \<Rightarrow> metadata L ! (1 - bank)),
                                   j_erase_needed := (found = None), j_erase_only := False\<rparr>
                        in case prepare_run F L timeout j d of
                             None \<Rightarrow> None
                           | Some (r, j, d) \<Rightarrow>
                               if r \<noteq> S_ok then Some (r, j, d) else reclaim j d
             else reclaim j d)"

end
