(* ===== verification/Journal_Load.thy ===== *)
theory Journal_Load
  imports Journal
begin

text \<open>
  What the scan of lib/boot/journal.cpp finds (\<open>Journal::load\<close>): over a memory in which equal
  sequence numbers mean equal records, the newest decodable record, wherever the two metadata
  sectors hold it; and no record only when there is none.
\<close>

section \<open>The records of a memory\<close>

definition rec_at :: "(nat \<Rightarrow> byte) \<Rightarrow> nat \<Rightarrow> byte list" where
  "rec_at m a = map m [a..<a + kRecordSize]"

definition sector_addrs :: "nat \<Rightarrow> nat \<Rightarrow> nat set" where
  "sector_addrs sector n = {sector + k * kRecordSize | k. k < n}"

definition record_addrs :: "layout \<Rightarrow> nat set" where
  "record_addrs L = (\<Union>sector \<in> set (metadata L). sector_addrs sector (sector_size L div kRecordSize))"

definition journal_consistent :: "layout \<Rightarrow> (nat \<Rightarrow> byte) \<Rightarrow> bool" where
  "journal_consistent L m \<longleftrightarrow> (\<forall>a \<in> record_addrs L. \<forall>b \<in> record_addrs L. \<forall>s t.
     decode (rec_at m a) = Some s \<longrightarrow> decode (rec_at m b) = Some t \<longrightarrow>
     snap_sequence s = snap_sequence t \<longrightarrow> rec_at m a = rec_at m b)"

definition journal_current :: "layout \<Rightarrow> (nat \<Rightarrow> byte) \<Rightarrow> snapshot \<Rightarrow> bool" where
  "journal_current L m s \<longleftrightarrow> (\<exists>a \<in> record_addrs L. decode (rec_at m a) = Some s) \<and>
     (\<forall>b \<in> record_addrs L. \<forall>t. decode (rec_at m b) = Some t \<longrightarrow> snap_sequence t \<le> snap_sequence s)"

definition journal_empty :: "layout \<Rightarrow> (nat \<Rightarrow> byte) \<Rightarrow> bool" where
  "journal_empty L m \<longleftrightarrow> (\<forall>a \<in> record_addrs L. decode (rec_at m a) = None)"

definition reads_ok :: "'d flash \<Rightarrow> layout \<Rightarrow> 'd \<Rightarrow> bool" where
  "reads_ok F L d \<longleftrightarrow> (\<forall>a \<in> record_addrs L.
     fst (fl_read F d a 16) = S_ok \<and> fst (fl_read F d (a + 16) 240) = S_ok)"

text \<open>What the scan has established after visiting the addresses \<open>A\<close>.\<close>

definition scan_inv :: "(nat \<Rightarrow> byte) \<Rightarrow> nat set \<Rightarrow> load_state \<Rightarrow> bool" where
  "scan_inv m A st \<longleftrightarrow>
     (if ld_found st then
        ld_latest st \<in> A \<and> ld_record st = rec_at m (ld_latest st) \<and>
        decode (ld_record st) = Some (ld_best st) \<and>
        (\<forall>b \<in> A. \<forall>t. decode (rec_at m b) = Some t \<longrightarrow> snap_sequence t \<le> snap_sequence (ld_best st))
      else \<forall>b \<in> A. decode (rec_at m b) = None)"

lemma length_rec_at [simp]: "length (rec_at m a) = 256"
  by (simp add: rec_at_def kRecordSize_def)

lemma rec_at_nth: "i < 256 \<Longrightarrow> rec_at m a ! i = m (a + i)"
  by (simp add: rec_at_def kRecordSize_def)

lemma rec_at_split: "rec_at m a = map m [a..<a + 16] @ map m [a + 16..<a + 16 + 240]"
proof -
  have "[a..<a + 256] = [a..<a + 16] @ [a + 16..<a + 16 + 240]"
    using upt_add_eq_append [of a "a + 16" 240] by (simp add: add.commute)
  then show ?thesis by (simp add: rec_at_def kRecordSize_def)
qed

lemma read32_prefix: "i + 4 \<le> length xs \<Longrightarrow> read32 (xs @ ys) i = read32 xs i"
  by (rule read32_cong) (simp add: nth_append)

lemma read64_prefix: "i + 8 \<le> length xs \<Longrightarrow> read64 (xs @ ys) i = read64 xs i"
  by (rule read64_cong) (simp add: nth_append)

context flash_device
begin

lemma load_entry_inv:
  assumes wf: "wf d" and r: "fst (fl_read F d a 16) = S_ok" "fst (fl_read F d (a + 16) 240) = S_ok"
    and inv: "scan_inv (mem d) A st" and rf: "\<not> ld_read_failed st"
  shows "case load_entry F d a st of
      Inl st' \<Rightarrow> \<exists>b \<in> A. \<exists>s t. decode (rec_at (mem d) a) = Some s \<and> decode (rec_at (mem d) b) = Some t \<and>
        snap_sequence s = snap_sequence t \<and> rec_at (mem d) a \<noteq> rec_at (mem d) b
    | Inr st' \<Rightarrow> scan_inv (mem d) (insert a A) st' \<and> \<not> ld_read_failed st'"
proof -
  let ?m = "mem d"
  obtain h where h: "fl_read F d a 16 = (S_ok, h)" using r(1) by (cases "fl_read F d a 16") auto
  obtain t where t: "fl_read F d (a + 16) 240 = (S_ok, t)"
    using r(2) by (cases "fl_read F d (a + 16) 240") auto
  have hb: "h = map ?m [a..<a + 16]" using read_ok [OF wf h] .
  have tb: "t = map ?m [a + 16..<a + 16 + 240]" using read_ok [OF wf t] .
  have ht: "h @ t = rec_at ?m a" by (simp add: rec_at_split hb tb)
  have hd: "read32 h 0 = read32 (rec_at ?m a) 0" "read32 h 4 = read32 (rec_at ?m a) 4"
    "read64 h 8 = read64 (rec_at ?m a) 8"
    unfolding ht [symmetric] by (simp_all add: read32_prefix read64_prefix hb)
  show ?thesis
  proof (cases "decode (rec_at ?m a)")
    case None
    then have "load_entry F d a st = Inr st"
      by (simp add: load_entry_def h t ht)
    with None inv rf show ?thesis by (auto simp: scan_inv_def split: if_splits)
  next
    case (Some s)
    note d = decode_SomeD [OF Some]
    have "read32 h 0 = kMagic" "read32 h 4 = 1 \<or> read32 h 4 = 2" "read64 h 8 = snap_sequence s"
      using d(1,2,7) by (simp_all add: hd)
    then have e: "load_entry F d a st =
      (if ld_found st \<and> snap_sequence s < snap_sequence (ld_best st) then Inr st
       else if ld_found st \<and> snap_sequence s = snap_sequence (ld_best st) \<and> rec_at ?m a \<noteq> ld_record st
       then Inl st
       else if \<not> ld_found st \<or> snap_sequence (ld_best st) < snap_sequence s
       then Inr (st\<lparr>ld_best := s, ld_record := rec_at ?m a, ld_latest := a, ld_found := True\<rparr>)
       else Inr st)"
      by (auto simp: load_entry_def h t ht Some)
    show ?thesis
    proof (cases "ld_found st")
      case True
      then have f: "ld_latest st \<in> A" "ld_record st = rec_at ?m (ld_latest st)"
        "decode (rec_at ?m (ld_latest st)) = Some (ld_best st)"
        "\<And>b t. b \<in> A \<Longrightarrow> decode (rec_at ?m b) = Some t \<Longrightarrow> snap_sequence t \<le> snap_sequence (ld_best st)"
        using inv by (auto simp: scan_inv_def)
      consider "snap_sequence s < snap_sequence (ld_best st)"
        | "snap_sequence s = snap_sequence (ld_best st)" "rec_at ?m a \<noteq> ld_record st"
        | "snap_sequence s = snap_sequence (ld_best st)" "rec_at ?m a = ld_record st"
        | "snap_sequence (ld_best st) < snap_sequence s"
        by fastforce
      then show ?thesis
        by cases (use True f rf Some in \<open>auto simp: e scan_inv_def intro!: bexI [of _ "ld_latest st"] dest: f(4)\<close>)
    next
      case False
      then show ?thesis using inv rf Some by (auto simp: e scan_inv_def)
    qed
  qed
qed


lemma load_sector_inv:
  assumes "wf d" and "scan_inv (mem d) A st" and "\<not> ld_read_failed st"
    and "A \<subseteq> record_addrs L" and "sector_addrs sector n \<subseteq> record_addrs L"
    and "reads_ok F L d" and "journal_consistent L (mem d)"
  shows "\<exists>st'. load_sector F d sector n st = Inr st' \<and>
    scan_inv (mem d) (A \<union> sector_addrs sector n) st' \<and> \<not> ld_read_failed st'"
  using assms(2-5)
proof (induction n arbitrary: A st)
  case 0
  then show ?case by (simp add: sector_addrs_def)
next
  case (Suc n)
  let ?a = "sector + n * kRecordSize"
  have S: "sector_addrs sector (Suc n) = insert ?a (sector_addrs sector n)"
    by (auto simp: sector_addrs_def less_Suc_eq)
  then have a: "?a \<in> record_addrs L" using Suc.prems(4) by auto
  then have r: "fst (fl_read F d ?a 16) = S_ok" "fst (fl_read F d (?a + 16) 240) = S_ok"
    using assms(6) by (auto simp: reads_ok_def)
  show ?case
  proof (cases "load_entry F d ?a st")
    case (Inl st')
    then show ?thesis
      using load_entry_inv [OF assms(1) r Suc.prems(1,2)] a Suc.prems(3) assms(7)
      unfolding journal_consistent_def by (auto dest!: subsetD)
  next
    case (Inr st')
    then have "scan_inv (mem d) (insert ?a A) st'" "\<not> ld_read_failed st'"
      using load_entry_inv [OF assms(1) r Suc.prems(1,2)] by auto
    moreover have "insert ?a A \<subseteq> record_addrs L" "sector_addrs sector n \<subseteq> record_addrs L"
      using a Suc.prems(3,4) S by auto
    moreover have "A \<union> sector_addrs sector (Suc n) = insert ?a A \<union> sector_addrs sector n"
      by (simp add: S)
    ultimately show ?thesis using Suc.IH [of "insert ?a A" st'] Inr by simp
  qed
qed

lemma load_sectors_inv:
  assumes "wf d" and "scan_inv (mem d) A st" and "\<not> ld_read_failed st"
    and "A \<subseteq> record_addrs L" and "\<forall>sector \<in> set sectors. sector_addrs sector n \<subseteq> record_addrs L"
    and "reads_ok F L d" and "journal_consistent L (mem d)"
  shows "\<exists>st'. load_sectors F d sectors n st = Inr st' \<and>
    scan_inv (mem d) (A \<union> (\<Union>sector \<in> set sectors. sector_addrs sector n)) st' \<and> \<not> ld_read_failed st'"
  using assms(2-5)
proof (induction sectors arbitrary: A st)
  case (Cons sector sectors)
  obtain st' where st': "load_sector F d sector n st = Inr st'"
    "scan_inv (mem d) (A \<union> sector_addrs sector n) st'" "\<not> ld_read_failed st'"
    using load_sector_inv [OF assms(1) Cons.prems(1,2,3) _ assms(6,7)] Cons.prems(4)
    by (metis list.set_intros(1))
  then show ?case
    using Cons.IH [of "A \<union> sector_addrs sector n" st'] Cons.prems(3,4)
    by (simp add: Un_assoc)
qed simp

lemma journal_load_correct:
  assumes "wf d" and "flash_valid F" and "layout_valid L"
    and poll: "fl_poll F d = (s, d')" "s \<noteq> S_busy"
    and "reads_ok F L d'" and "journal_consistent L (mem d')"
  shows "\<exists>a. let j' = j\<lparr>j_latest := a\<rparr> in
    (\<exists>best. journal_load F L j snap d = (S_ok, best, j', d') \<and> a \<in> record_addrs L \<and>
        decode (rec_at (mem d') a) = Some best \<and> journal_current L (mem d') best) \<or>
    (journal_load F L j snap d = (S_not_found, snap, j', d') \<and> journal_empty L (mem d'))"
proof -
  let ?n = "sector_size L div kRecordSize"
  let ?st = "\<lparr>ld_best = default_snapshot, ld_record = replicate kRecordSize 0,
                    ld_latest = j_latest j, ld_found = False, ld_read_failed = False\<rparr>"
  have wf': "wf d'" using poll_law [OF assms(1) poll(1)] by simp
  have "\<exists>st'. load_sectors F d' (metadata L) ?n ?st = Inr st' \<and>
    scan_inv (mem d') ({} \<union> (\<Union>sector \<in> set (metadata L). sector_addrs sector ?n)) st' \<and> \<not> ld_read_failed st'"
    by (rule load_sectors_inv [OF wf' _ _ _ _ assms(6,7)]) (auto simp: scan_inv_def record_addrs_def)
  then obtain st' where st': "load_sectors F d' (metadata L) ?n ?st = Inr st'"
    "scan_inv (mem d') (record_addrs L) st'" "\<not> ld_read_failed st'"
    by (auto simp: record_addrs_def)
  have load: "journal_load F L j snap d =
    (if ld_found st' then (S_ok, ld_best st', j\<lparr>j_latest := ld_latest st'\<rparr>, d')
     else (S_not_found, snap, j\<lparr>j_latest := ld_latest st'\<rparr>, d'))"
    using assms(2,3) poll st'(1,3) by (simp add: journal_load_def Let_def)
  show ?thesis
    using st'(2) unfolding load scan_inv_def journal_current_def journal_empty_def Let_def
    by (intro exI [of _ "ld_latest st'"]) (auto split: if_splits)
qed

end

end
