(* ===== verification/Journal_Job.thy ===== *)
theory Journal_Job
  imports Journal_Load
begin

text \<open>
  One record write of the journal, abstractly. A job protects the record at \<open>P\<close> of the base
  memory \<open>M\<close> and writes the record \<open>R\<close> at \<open>T\<close>, erasing \<open>T\<close>'s sector first if \<open>er\<close>. Each state of the
  erase/program/verify machine has a phase, what the memory is by then; every memory that a
  crash can leave in any phase is safe, and a safe memory still has the old snapshot or has the
  new one. The proof of the latter rests on the commit trailer being programmed last.
\<close>

section \<open>Where records lie\<close>

definition layout_wf :: "layout \<Rightarrow> bool" where
  "layout_wf L \<longleftrightarrow> layout_valid L \<and> length (metadata L) = 2 \<and> length (slots L) = 2"

definition record_native :: "layout \<Rightarrow> byte list \<Rightarrow> bool" where
  "record_native L b \<longleftrightarrow> read32 b 4 = (if write_size L = 32 then 2 else 1)"

definition journal_wf :: "layout \<Rightarrow> (nat \<Rightarrow> byte) \<Rightarrow> bool" where
  "journal_wf L m \<longleftrightarrow> journal_consistent L m \<and>
     (\<forall>a \<in> record_addrs L. decode (rec_at m a) \<noteq> None \<longrightarrow> record_native L (rec_at m a))"

definition write_area :: "layout \<Rightarrow> bool \<Rightarrow> nat \<Rightarrow> nat set" where
  "write_area L er T = (if er then {T..<T + sector_size L} else {T..<T + 256})"

lemma layout_wf_metadata:
  assumes "layout_wf L"
  obtains m0 m1 where "metadata L = [m0, m1]" "m0 \<noteq> m1" "m0 mod sector_size L = 0" "m1 mod sector_size L = 0"
proof -
  obtain m0 m1 where m: "metadata L = [m0, m1]" using assms by (auto simp: layout_wf_def elim: length_2_cases)
  have v: "layout_valid L" using assms by (simp add: layout_wf_def)
  have "m0 \<noteq> m1" "m0 mod sector_size L = 0" "m1 mod sector_size L = 0"
    using layout_valid_regions [OF v] layout_valid_sizes(1) [OF v] m by auto
  with m show thesis by (rule that)
qed

lemma record_addr_dvd:
  assumes "layout_wf L" "a \<in> record_addrs L"
  shows "256 dvd a"
proof -
  obtain m0 m1 where m: "metadata L = [m0, m1]" "m0 mod sector_size L = 0" "m1 mod sector_size L = 0"
    using layout_wf_metadata [OF assms(1)] by metis
  have "256 dvd sector_size L" using assms(1) by (auto simp: layout_wf_def kRecordSize_def dest: layout_valid_sizes)
  then have "256 dvd m0" "256 dvd m1" using m by (auto elim: dvd_trans)
  then show ?thesis using assms(2) m by (auto simp: record_addrs_def sector_addrs_def kRecordSize_def)
qed

lemma blocks_disjoint:
  assumes "256 dvd a" "256 dvd (b::nat)" "a \<noteq> b" "x < 256" "y < 256"
  shows "a + x \<noteq> b + y"
proof
  assume eq: "a + x = b + y"
  obtain k l where "a = 256 * k" "b = 256 * l" using assms by (auto elim!: dvdE)
  with assms(3-5) eq show False by auto
qed

lemma sector_block:
  assumes "256 dvd a" "256 dvd (T::nat)" "256 dvd n" "x < 256"
  shows "(T \<le> a + x \<and> a + x < T + n) = (T \<le> a \<and> a < T + n)"
proof -
  obtain k l q where "a = 256 * k" "T = 256 * l" "n = 256 * q" using assms by (auto elim!: dvdE)
  moreover have "(256 * l \<le> 256 * k + x) = (l \<le> k)"
    using assms(4) by (cases "l \<le> k") auto
  moreover have "(256 * k + x < 256 * l + 256 * q) = (k < l + q)"
    using assms(4) by (cases "k < l + q") auto
  ultimately show ?thesis by auto
qed

lemma write_area_block:
  assumes "layout_wf L" "a \<in> record_addrs L" "T \<in> record_addrs L" "i < 256"
  shows "a + i \<in> write_area L er T \<longleftrightarrow> a \<in> write_area L er T"
proof -
  have d: "256 dvd a" "256 dvd T" using assms record_addr_dvd by auto
  have "256 dvd sector_size L" using assms(1) by (auto simp: layout_wf_def kRecordSize_def dest: layout_valid_sizes)
  then show ?thesis
    using sector_block [OF d _ assms(4), of "sector_size L"] sector_block [OF d _ assms(4), of 256]
    by (auto simp: write_area_def)
qed

lemma write_area_not_T:
  assumes "layout_wf L" "a \<in> record_addrs L" "T \<in> record_addrs L" "a \<in> write_area L False T"
  shows "a = T"
proof -
  have d: "256 dvd a" "256 dvd T" using assms record_addr_dvd by auto
  then obtain k l where "a = 256 * k" "T = 256 * l" by (auto elim!: dvdE)
  with assms(4) show ?thesis by (auto simp: write_area_def)
qed

section \<open>The phases of a write\<close>

text \<open>
  The base memory \<open>M\<close> is the memory when the operation was accepted, \<open>T\<close> its target, \<open>R\<close> the record
  and \<open>er\<close> whether the target's sector is erased first.
\<close>

definition written :: "layout \<Rightarrow> (nat \<Rightarrow> byte) \<Rightarrow> nat \<Rightarrow> byte list \<Rightarrow> bool \<Rightarrow> nat \<Rightarrow> (nat \<Rightarrow> byte) \<Rightarrow> bool" where
  "written L M T R er k m \<longleftrightarrow>
     (\<forall>x. x \<notin> write_area L er T \<longrightarrow> m x = M x) \<and>
     (\<forall>x \<in> write_area L er T. x \<notin> {T..<T + 256} \<longrightarrow> m x = 0xff) \<and>
     (\<forall>i < 256. m (T + i) = (if i < k then R ! i else 0xff))"

text \<open>The addresses of the two metadata sectors: a write stays inside them.\<close>

definition metadata_area :: "layout \<Rightarrow> nat set" where
  "metadata_area L = {x. \<exists>b < 2. metadata L ! b \<le> x \<and> x < metadata L ! b + sector_size L}"

lemma record_in_area:
  assumes "layout_wf L" "a \<in> record_addrs L"
  shows "{a..<a + 256} \<subseteq> metadata_area L"
proof -
  obtain m k where a: "m \<in> set (metadata L)" "a = m + k * 256" "k < sector_size L div 256"
    using assms(2) by (auto simp: record_addrs_def sector_addrs_def kRecordSize_def)
  have "(k + 1) * 256 \<le> (sector_size L div 256) * 256" using a(3) by (intro mult_right_mono) auto
  also have "\<dots> \<le> sector_size L" by simp
  finally have "m \<le> a" "a + 256 \<le> m + sector_size L" using a(2) by auto
  moreover obtain b where "b < 2" "metadata L ! b = m"
    using a(1) assms(1) by (metis in_set_conv_nth layout_wf_def)
  ultimately show ?thesis by (force simp: metadata_area_def)
qed

lemma sector_in_area:
  assumes "layout_wf L" "a \<in> set (metadata L)"
  shows "{a..<a + sector_size L} \<subseteq> metadata_area L"
proof -
  obtain b where "b < 2" "metadata L ! b = a" using assms by (metis in_set_conv_nth layout_wf_def)
  then show ?thesis by (force simp: metadata_area_def)
qed

text \<open>What a crash can leave: the memory, or the operation in progress cut short.\<close>

definition crash_image :: "nat \<Rightarrow> flash_op option \<Rightarrow> (nat \<Rightarrow> byte) \<Rightarrow> (nat \<Rightarrow> byte) \<Rightarrow> bool" where
  "crash_image ss pend m m' \<longleftrightarrow> (case pend of None \<Rightarrow> m' = m | Some opn \<Rightarrow> op_partial ss opn m m')"

definition safe :: "layout \<Rightarrow> (nat \<Rightarrow> byte) \<Rightarrow> nat \<Rightarrow> nat \<Rightarrow> byte list \<Rightarrow> (nat \<Rightarrow> byte) \<Rightarrow> bool" where
  "safe L M P T R m' \<longleftrightarrow> rec_at m' P = rec_at M P \<and>
     (\<forall>a \<in> record_addrs L. rec_at m' a = rec_at M a \<or> decode (rec_at m' a) = None \<or>
        (a = T \<and> rec_at m' a = R))"

fun phase :: "layout \<Rightarrow> (nat \<Rightarrow> byte) \<Rightarrow> nat \<Rightarrow> byte list \<Rightarrow> bool \<Rightarrow> journal_state \<Rightarrow> nat \<Rightarrow>
  (nat \<Rightarrow> byte) \<Rightarrow> flash_op option \<Rightarrow> bool" where
  "phase L M T R er J_erase k m pend \<longleftrightarrow> er \<and> k = 0 \<and> pend = None \<and> m = M"
| "phase L M T R er J_erase_wait k m pend \<longleftrightarrow>
     er \<and> k = 0 \<and> pend = Some (Op_erase T) \<and> op_partial (sector_size L) (Op_erase T) M m"
| "phase L M T R er J_write k m pend \<longleftrightarrow>
     pend = None \<and> k < 256 \<and> write_size L dvd k \<and> written L M T R er k m"
| "phase L M T R er J_write_wait k m pend \<longleftrightarrow>
     pend = Some (Op_program (T + k) (take (write_size L) (drop k R))) \<and> k < 256 \<and> write_size L dvd k \<and>
     (\<exists>m1. written L M T R er k m1 \<and> (\<forall>x. x \<notin> {T + k..<T + k + write_size L} \<longrightarrow> m x = m1 x))"
| "phase L M T R er J_verify k m pend \<longleftrightarrow> pend = None \<and> written L M T R er 256 m"
| "phase L M T R er _ k m pend \<longleftrightarrow> k = 0 \<and> pend = None \<and> m = M \<and> (er \<or> (\<forall>i < 256. M (T + i) = 0xff))"

definition job :: "layout \<Rightarrow> (nat \<Rightarrow> byte) \<Rightarrow> nat \<Rightarrow> nat \<Rightarrow> byte list \<Rightarrow> bool \<Rightarrow> bool" where
  "job L M P T R er \<longleftrightarrow> layout_wf L \<and> P \<in> record_addrs L \<and> T \<in> record_addrs L \<and>
     P \<notin> write_area L er T \<and> (er \<longrightarrow> T \<in> set (metadata L)) \<and>
     length R = 256 \<and> decode R \<noteq> None \<and> record_native L R"

lemma rec_at_eqI: "(\<And>i. i < 256 \<Longrightarrow> m (a + i) = b ! i) \<Longrightarrow> length b = 256 \<Longrightarrow> rec_at m a = b"
  by (rule nth_equalityI) (simp_all add: rec_at_nth)

lemma rec_at_cong: "(\<And>i. i < 256 \<Longrightarrow> m (a + i) = m' (a + i)) \<Longrightarrow> rec_at m a = rec_at m' a"
  by (rule rec_at_eqI) (simp_all add: rec_at_nth)

text \<open>Memory outside the area of a job keeps its records.\<close>

lemma outside_rec_at:
  assumes "job L M P T R er" "a \<in> record_addrs L" "a \<notin> write_area L er T"
    and "\<And>x. x \<notin> write_area L er T \<Longrightarrow> m x = M x"
  shows "rec_at m a = rec_at M a"
  by (rule rec_at_cong)
    (use assms write_area_block [of L a T _ er] in \<open>auto simp: job_def\<close>)

lemma safeI:
  assumes j: "job L M P T R er" and out: "\<And>x. x \<notin> write_area L er T \<Longrightarrow> m x = M x"
    and "in": "\<And>a. a \<in> record_addrs L \<Longrightarrow> a \<in> write_area L er T \<Longrightarrow>
      rec_at m a = rec_at M a \<or> decode (rec_at m a) = None \<or> (a = T \<and> rec_at m a = R)"
  shows "safe L M P T R m"
  unfolding safe_def using outside_rec_at [OF j _ _ out] "in" j unfolding job_def by blast

lemma native_trailer:
  assumes "layout_wf L" "record_native L R"
  shows "trailer_of R = 256 - write_size L"
  using assms layout_valid_sizes(4) [of L]
  by (auto simp: layout_wf_def record_native_def trailer_of_def)

lemma written_blank_trailer:
  assumes "job L M P T R er" "k \<le> 256 - write_size L"
    "\<And>i. i < 256 \<Longrightarrow> 256 - write_size L \<le> i \<Longrightarrow> m (T + i) = 0xff"
  shows "decode (rec_at m T) = None"
proof (rule decode_blank_trailer)
  have ws: "write_size L = 16 \<or> write_size L = 32"
    using assms(1) by (auto simp: job_def layout_wf_def dest: layout_valid_sizes)
  show "rec_at m T ! 224 = 0xff \<or> rec_at m T ! 240 = 0xff" "rec_at m T ! 240 = 0xff"
    using assms(3) [of 240] ws by (auto simp: rec_at_nth)
qed simp

lemma written_safe_other:
  assumes "job L M P T R er" "a \<in> record_addrs L" "a \<in> write_area L er T" "a \<noteq> T"
    "\<And>x. x \<in> write_area L er T \<Longrightarrow> x \<notin> {T..<T + 256} \<Longrightarrow> m x = 0xff"
  shows "decode (rec_at m a) = None"
proof (rule decode_blank_first)
  have "a \<notin> {T..<T + 256}"
    using write_area_not_T [of L a T] assms by (auto simp: job_def write_area_def)
  then have "m a = 0xff" using assms by simp
  then show "rec_at m a ! 0 = 0xff" using rec_at_nth [of 0 m a] by simp
qed

lemma written_safeI:
  assumes j: "job L M P T R er" and "\<And>x. x \<notin> write_area L er T \<Longrightarrow> m x = M x"
    and "\<And>x. x \<in> write_area L er T \<Longrightarrow> x \<notin> {T..<T + 256} \<Longrightarrow> m x = 0xff"
    and "decode (rec_at m T) = None \<or> rec_at m T = R"
  shows "safe L M P T R m"
proof (rule safeI [OF j assms(2)])
  fix a assume a: "a \<in> record_addrs L" "a \<in> write_area L er T"
  show "rec_at m a = rec_at M a \<or> decode (rec_at m a) = None \<or> a = T \<and> rec_at m a = R"
    using assms(4) written_safe_other [OF j a _ assms(3)] by (cases "a = T") auto
qed

lemma phase_safe:
  assumes j: "job L M P T R er" and ph: "phase L M T R er cs k m pend"
    and cr: "crash_image (sector_size L) pend m m'"
  shows "safe L M P T R m'"
proof -
  have L: "layout_wf L" and T: "T \<in> record_addrs L" and R: "length R = 256" "record_native L R"
    using j by (auto simp: job_def)
  obtain r where r: "decode R = Some r" using j by (auto simp: job_def)
  have ws: "write_size L = 16 \<or> write_size L = 32"
    using L by (auto simp: layout_wf_def dest: layout_valid_sizes)
  have same: "safe L M P T R M" by (simp add: safe_def)
  have blk: "{T..<T + 256} \<subseteq> write_area L er T"
    using layout_valid_sizes(1,3) [of L] L
    by (auto simp: write_area_def layout_wf_def kRecordSize_def dest!: dvd_imp_le)
  show ?thesis
  proof (cases cs)
    case J_erase_wait
    then have "op_partial (sector_size L) (Op_erase T) M m" "op_partial (sector_size L) (Op_erase T) m m'"
      using ph cr by (simp_all add: crash_image_def del: op_partial.simps)
    then have "op_partial (sector_size L) (Op_erase T) M m'" by (rule op_partial_trans)
    then obtain n where n: "n \<le> sector_size L" "m' = (\<lambda>x. if T \<le> x \<and> x < T + n then 0xff else M x)"
      by auto
    have er: er using ph J_erase_wait by simp
    show ?thesis
    proof (rule safeI [OF j])
      show "m' x = M x" if "x \<notin> write_area L er T" for x
        using that n er by (auto simp: write_area_def)
      show "rec_at m' a = rec_at M a \<or> decode (rec_at m' a) = None \<or> a = T \<and> rec_at m' a = R"
        if "a \<in> write_area L er T" for a
      proof (cases "a < T + n")
        case True
        then have "m' a = 0xff" using that er n by (auto simp: write_area_def)
        then show ?thesis using decode_blank_first [of "rec_at m' a"] rec_at_nth [of 0 m' a] by simp
      next
        case False
        then show ?thesis using n by (auto intro: rec_at_cong)
      qed
    qed
  next
    case J_write
    then have m: "m' = m" and k: "k < 256" "write_size L dvd k" and w: "written L M T R er k m"
      using ph cr by (auto simp: crash_image_def)
    have "k \<le> 256 - write_size L" using k ws by (auto elim!: dvdE)
    then have "decode (rec_at m T) = None"
      using w by (intro written_blank_trailer [OF j]) (auto simp: written_def)
    then show ?thesis unfolding m
      using w by (intro written_safeI [OF j]) (auto simp: written_def)
  next
    case J_write_wait
    then obtain m1 where k: "k < 256" "write_size L dvd k" and w: "written L M T R er k m1"
      and o: "\<And>x. x \<notin> {T + k..<T + k + write_size L} \<Longrightarrow> m' x = m1 x"
      using ph cr R by (fastforce simp: crash_image_def)
    have kw: "k + write_size L \<le> 256" using k ws by (auto elim!: dvdE)
    have "rec_at m' T = R \<or> decode (rec_at m' T) = None"
    proof (cases "k + write_size L = 256")
      case True
      then have "trailer_of R = k" using native_trailer [OF L R(2)] by simp
      then have "rec_at m' T ! i = R ! i" if "i < trailer_of R" for i
        using that k w o [of "T + i"] by (simp add: rec_at_nth written_def)
      then show ?thesis using decode_torn [OF r R(1)] by (metis length_rec_at not_Some_eq)
    next
      case False
      then have "k + write_size L \<le> 256 - write_size L" using k kw ws by (auto elim!: dvdE)
      then show ?thesis
        using w o by (intro disjI2 written_blank_trailer [OF j]) (auto simp: written_def)
    qed
    moreover have eq: "m' x = m1 x" if "x \<notin> {T..<T + 256}" for x using o kw that by auto
    moreover have "m' x = M x" if "x \<notin> write_area L er T" for x
    proof -
      have "x \<notin> {T..<T + 256}" using blk that by blast
      then show ?thesis using eq w that by (simp add: written_def)
    qed
    ultimately show ?thesis
      using w by (intro written_safeI [OF j]) (auto simp: written_def)
  next
    case J_verify
    then have m: "m' = m" and w: "written L M T R er 256 m" using ph cr by (auto simp: crash_image_def)
    then have "rec_at m T = R" using R by (intro rec_at_eqI) (auto simp: written_def)
    then show ?thesis unfolding m
      using w by (intro written_safeI [OF j]) (auto simp: written_def)
  qed (use ph cr same in \<open>auto simp: crash_image_def\<close>)
qed

section \<open>One commit, abstractly\<close>

text \<open>
  A safe memory holds the old snapshot or, once the record is complete, the new one; it is itself
  a well-formed journal.
\<close>

lemma safe_current:
  assumes wf: "journal_wf L M" and P: "P \<in> record_addrs L" "decode (rec_at M P) = Some old"
    and cur: "journal_current L M old" and safe: "safe L M P T R m'"
    and T: "T \<in> record_addrs L" and R: "decode R = Some nxt" "record_native L R"
    and seq: "snap_sequence old < snap_sequence nxt \<or> R = rec_at M P"
  shows "journal_wf L m'"
    and "rec_at m' T \<noteq> R \<Longrightarrow> journal_current L m' old"
    and "rec_at m' T = R \<Longrightarrow> journal_current L m' nxt"
proof -
  have old: "a \<in> record_addrs L \<Longrightarrow> decode (rec_at M a) = Some s \<Longrightarrow> snap_sequence s \<le> snap_sequence old" for a s
    using cur by (auto simp: journal_current_def)
  have cM: "a \<in> record_addrs L \<Longrightarrow> b \<in> record_addrs L \<Longrightarrow> decode (rec_at M a) = Some s \<Longrightarrow>
    decode (rec_at M b) = Some t \<Longrightarrow> snap_sequence s = snap_sequence t \<Longrightarrow> rec_at M a = rec_at M b" for a b s t
    using wf by (auto simp: journal_wf_def journal_consistent_def)
  have orig: "rec_at m' a = rec_at M a \<or> rec_at m' a = R" if "a \<in> record_addrs L" "decode (rec_at m' a) = Some s" for a s
    using safe that by (auto simp: safe_def)
  have R_eq: "rec_at M a = R" if "a \<in> record_addrs L" "decode (rec_at M a) = Some s" "snap_sequence s = snap_sequence nxt" for a s
  proof -
    have "\<not> snap_sequence old < snap_sequence nxt" using old [OF that(1,2)] that(3) by simp
    then have RP: "R = rec_at M P" using seq by blast
    then have "nxt = old" using R(1) P(2) by (simp only: option.inject)
    then show ?thesis using cM [OF that(1) P(1) that(2) P(2)] that(3) RP by (simp only:)
  qed
  show "journal_wf L m'"
    unfolding journal_wf_def journal_consistent_def
  proof (intro conjI ballI allI impI)
    fix a b s t
    assume a: "a \<in> record_addrs L" "decode (rec_at m' a) = Some s"
      and b: "b \<in> record_addrs L" "decode (rec_at m' b) = Some t"
      and st: "snap_sequence s = snap_sequence t"
    consider "rec_at m' a = rec_at M a" "rec_at m' b = rec_at M b"
      | "rec_at m' a = R" "rec_at m' b = rec_at M b" | "rec_at m' a = rec_at M a" "rec_at m' b = R"
      | "rec_at m' a = R" "rec_at m' b = R"
      using orig [OF a] orig [OF b] by blast
    then show "rec_at m' a = rec_at m' b"
    proof cases
      case 1
      then have "rec_at M a = rec_at M b" using cM [of a b s t] a b st by (simp only:)
      with 1 show ?thesis by (simp only:)
    next
      case 2
      then have "s = nxt" using a(2) R(1) by (simp only: option.inject)
      then have "rec_at M b = R" using R_eq [of b t] b 2 st by (simp only:)
      with 2 show ?thesis by (simp only:)
    next
      case 3
      then have "t = nxt" using b(2) R(1) by (simp only: option.inject)
      then have "rec_at M a = R" using R_eq [of a s] a 3 st by (simp only:)
      with 3 show ?thesis by (simp only:)
    qed simp
  next
    fix a assume "a \<in> record_addrs L" "decode (rec_at m' a) \<noteq> None"
    then show "record_native L (rec_at m' a)"
      using orig [of a] R(2) wf unfolding journal_wf_def by fastforce
  qed
  have P': "decode (rec_at m' P) = Some old" using safe P by (simp add: safe_def)
  have ge: "snap_sequence old \<le> snap_sequence nxt" using seq P R by auto
  show "journal_current L m' old" if "rec_at m' T \<noteq> R"
    unfolding journal_current_def
  proof (intro conjI ballI allI impI)
    show "\<exists>a \<in> record_addrs L. decode (rec_at m' a) = Some old" using P(1) P' by blast
    fix b t assume b: "b \<in> record_addrs L" "decode (rec_at m' b) = Some t"
    then show "snap_sequence t \<le> snap_sequence old"
      using safe that old [OF b(1), of t] by (auto simp: safe_def)
  qed
  show "journal_current L m' nxt" if "rec_at m' T = R"
    unfolding journal_current_def
  proof (intro conjI ballI allI impI)
    show "\<exists>a \<in> record_addrs L. decode (rec_at m' a) = Some nxt" using T R that by auto
    fix b t assume b: "b \<in> record_addrs L" "decode (rec_at m' b) = Some t"
    then show "snap_sequence t \<le> snap_sequence nxt"
      using orig [OF b] old [OF b(1), of t] ge R(1) by auto
  qed
qed

section \<open>The machine's invariant\<close>

definition accept_state :: "journal_state \<Rightarrow> bool" where
  "accept_state cs \<longleftrightarrow> cs \<in> {J_idle, J_done, J_failed}"

text \<open>The record the running operation will finally leave, and what is known about it.\<close>

definition final_record :: "journal \<Rightarrow> byte list" where
  "final_record j = (if j_checkpoint j then j_pending_record j else j_record j)"

definition goal_record :: "layout \<Rightarrow> snapshot \<Rightarrow> snapshot \<Rightarrow> byte list \<Rightarrow> bool" where
  "goal_record L old nxt R \<longleftrightarrow> length R = 256 \<and> decode R = Some nxt \<and> record_native L R \<and>
     snap_sequence old < snap_sequence nxt"

definition job_inv :: "layout \<Rightarrow> snapshot \<Rightarrow> (nat \<Rightarrow> byte) \<Rightarrow> nat \<Rightarrow> bool \<Rightarrow> journal \<Rightarrow> bool" where
  "job_inv L old M P er j \<longleftrightarrow>
     job L M P (j_target j) (j_record j) er \<and> journal_wf L M \<and> decode (rec_at M P) = Some old \<and>
     journal_current L M old \<and> \<not> j_erase_only j \<and>
     (j_checkpoint j \<longrightarrow> j_record j = rec_at M P \<and> j_pending_target j \<in> set (metadata L) \<and>
        j_target j \<notin> write_area L True (j_pending_target j))"

definition busy_inv ::
  "layout \<Rightarrow> (nat \<Rightarrow> byte) \<Rightarrow> bool \<Rightarrow> journal_state \<Rightarrow> journal \<Rightarrow> (nat \<Rightarrow> byte) \<Rightarrow> flash_op option \<Rightarrow> bool" where
  "busy_inv L M er cs j m pend \<longleftrightarrow>
     phase L M (j_target j) (j_record j) er cs (j_offset j) m pend \<and>
     j_requested j = accept_state cs \<and> (j_requested j \<longrightarrow> er = j_erase_needed j)"

definition idle_inv ::
  "layout \<Rightarrow> (nat \<Rightarrow> byte) \<Rightarrow> nat \<Rightarrow> journal_state \<Rightarrow> journal \<Rightarrow> (nat \<Rightarrow> byte) \<Rightarrow> flash_op option \<Rightarrow> bool" where
  "idle_inv L M P cs j m pend \<longleftrightarrow>
     (\<forall>m'. crash_image (sector_size L) pend m m' \<longrightarrow> safe L M P (j_target j) (j_record j) m') \<and>
     \<not> j_requested j \<and> accept_state cs \<and>
     (j_status j = S_ok \<longrightarrow> \<not> j_checkpoint j \<and> pend = None \<and> rec_at m (j_target j) = j_record j)"

definition journal_inv ::
  "layout \<Rightarrow> snapshot \<Rightarrow> snapshot \<Rightarrow> journal_state \<Rightarrow> journal \<Rightarrow> (nat \<Rightarrow> byte) \<Rightarrow> flash_op option \<Rightarrow> bool" where
  "journal_inv L old nxt cs j m pend \<longleftrightarrow> goal_record L old nxt (final_record j) \<and>
     (\<exists>M P er. job_inv L old M P er j \<and>
        (if j_status j = S_busy then busy_inv L M er cs j m pend else idle_inv L M P cs j m pend))"

text \<open>Whatever the moment of the crash, the journal then holds the old or the new snapshot.\<close>

lemma journal_inv_crash:
  assumes "journal_inv L old nxt cs j m pend" and "crash_image (sector_size L) pend m m'"
  shows "journal_wf L m' \<and> (journal_current L m' old \<or> journal_current L m' nxt)"
proof -
  obtain M P er where inv: "goal_record L old nxt (final_record j)" "job_inv L old M P er j"
    and ph: "if j_status j = S_busy then busy_inv L M er cs j m pend else idle_inv L M P cs j m pend"
    using assms(1) by (auto simp: journal_inv_def)
  have j: "job L M P (j_target j) (j_record j) er" using inv by (simp add: job_inv_def)
  have s: "safe L M P (j_target j) (j_record j) m'"
    using ph assms(2) phase_safe [OF j] by (auto simp: busy_inv_def idle_inv_def split: if_splits)
  obtain r where r: "decode (j_record j) = Some r" using j by (auto simp: job_def)
  have "snap_sequence old < snap_sequence r \<or> j_record j = rec_at M P" and
    "r = nxt \<or> j_record j = rec_at M P"
    using inv r by (auto simp: job_inv_def goal_record_def final_record_def split: if_splits)
  moreover have "r = old" if "j_record j = rec_at M P" using that inv r by (simp add: job_inv_def)
  ultimately show ?thesis
    using safe_current [OF _ _ _ _ s, of old r] inv j r
    by (auto simp: job_inv_def job_def)
qed

lemma journal_inv_done:
  assumes "journal_inv L old nxt cs j m pend" and "j_status j = S_ok"
  shows "pend = None \<and> journal_wf L m \<and> journal_current L m nxt"
proof -
  obtain M P er where inv: "goal_record L old nxt (final_record j)" "job_inv L old M P er j"
    and ph: "idle_inv L M P cs j m pend"
    using assms by (auto simp: journal_inv_def)
  have pn: "pend = None" "\<not> j_checkpoint j" "rec_at m (j_target j) = j_record j"
    using ph assms(2) by (auto simp: idle_inv_def)
  then have "crash_image (sector_size L) pend m m" by (simp add: crash_image_def)
  then have "safe L M P (j_target j) (j_record j) m" using ph by (auto simp: idle_inv_def)
  then show ?thesis
    using safe_current [of L M P old "j_target j" "j_record j" m nxt] inv pn
    by (auto simp: job_inv_def job_def goal_record_def final_record_def)
qed

end
