(* ===== verification/Journal_Step.thy ===== *)
theory Journal_Step
  imports Journal_Job
begin

text \<open>
  The journal's state machine keeps the invariant of a running write: one step (every case of
  \<open>Journal::Step\<close>), one \<open>Journal::tick\<close>, any number of ticks, and the foreground loop of
  \<open>Journal::commit\<close>.
\<close>

section \<open>Every step of the machine keeps the invariant\<close>

lemma written_0_blank:
  assumes "job L M P T R er" "\<not> er" "\<forall>i < 256. M (T + i) = 0xff"
  shows "written L M T R er 0 M"
  using assms by (auto simp: written_def write_area_def)

lemma written_0_erased:
  assumes "job L M P T R True"
  shows "written L M T R True 0 (apply_op (sector_size L) (Op_erase T) M)"
proof -
  have "256 \<le> sector_size L"
    using assms layout_valid_sizes [of L] by (auto simp: job_def layout_wf_def kRecordSize_def dest!: dvd_imp_le)
  then show ?thesis by (auto simp: written_def write_area_def)
qed

lemma written_unit:
  assumes j: "job L M P T R er" and k: "k < 256" "write_size L dvd k"
    and w: "written L M T R er k m1"
    and m: "\<forall>x. x \<notin> {T + k..<T + k + write_size L} \<longrightarrow> m x = m1 x"
  shows "written L M T R er (k + write_size L)
    (apply_op (sector_size L) (Op_program (T + k) (take (write_size L) (drop k R))) m)"
    (is "written _ _ _ _ _ _ ?m")
proof -
  have ws: "write_size L = 16 \<or> write_size L = 32" and len: "length R = 256"
    using j by (auto simp: job_def layout_wf_def dest: layout_valid_sizes)
  then have kw: "k + write_size L \<le> 256" using k by (auto elim!: dvdE)
  then have lt: "length (take (write_size L) (drop k R)) = write_size L" using len by simp
  have out: "?m x = m1 x" if "x \<notin> {T + k..<T + k + write_size L}" for x
    using that m lt by auto
  have ins: "?m (T + i) = R ! i" if "k \<le> i" "i < k + write_size L" for i
    using that lt len kw by auto
  have sub: "{T..<T + 256} \<subseteq> write_area L er T"
    using j layout_valid_sizes [of L] by (auto simp: job_def layout_wf_def kRecordSize_def write_area_def dest!: dvd_imp_le)
  have "?m x = M x" if "x \<notin> write_area L er T" for x
  proof -
    have "x \<notin> {T..<T + 256}" using that sub by blast
    then have "x \<notin> {T + k..<T + k + write_size L}" using kw by auto
    then show ?thesis using out w that by (simp add: written_def)
  qed
  moreover have "?m x = 0xff" if "x \<in> write_area L er T" "x \<notin> {T..<T + 256}" for x
  proof -
    have "x \<notin> {T + k..<T + k + write_size L}" using that(2) kw by auto
    then have "?m x = m1 x" by (rule out)
    then show ?thesis using w that by (simp add: written_def)
  qed
  moreover have "?m (T + i) = (if i < k + write_size L then R ! i else 0xff)" if "i < 256" for i
  proof (cases "k \<le> i \<and> i < k + write_size L")
    case True then show ?thesis using ins by simp
  next
    case False
    then show ?thesis using out [of "T + i"] w that by (auto simp: written_def)
  qed
  ultimately show ?thesis unfolding written_def by blast
qed

lemma written_rec_at:
  assumes "job L M P T R er" "written L M T R er 256 m"
  shows "rec_at m T = R"
  by (rule rec_at_eqI) (use assms in \<open>auto simp: written_def job_def\<close>)

lemma crash_image_op:
  assumes "op_partial ss opn m m1" "crash_image ss pend m1 m'" "pend = None \<or> pend = Some opn"
  shows "crash_image ss (Some opn) m m'"
  using assms by (auto simp: crash_image_def intro: op_partial_trans)

lemma phase_accept:
  assumes "job_inv L old M P er j" "phase L M (j_target j) (j_record j) er cs (j_offset j) m pend" "accept_state cs"
  shows "phase L M (j_target j) (j_record j) er (if er then J_erase else J_write) (j_offset j) m pend"
  using assms written_0_blank [of L M P "j_target j" "j_record j" er]
  by (auto simp: accept_state_def job_inv_def)

text \<open>A step that fails leaves a safe memory, because every phase does.\<close>

lemma idle_invI:
  assumes "job_inv L old M P er j" "phase L M (j_target j) (j_record j) er cs k m pend"
    and "\<And>m''. crash_image (sector_size L) pend' m' m'' \<Longrightarrow> crash_image (sector_size L) pend m m''"
    and "\<not> j_requested j'" "accept_state cs'" "j_target j' = j_target j" "j_record j' = j_record j"
    and "j_status j' = S_ok \<Longrightarrow> \<not> j_checkpoint j' \<and> pend' = None \<and> rec_at m' (j_target j') = j_record j'"
  shows "idle_inv L M P cs' j' m' pend'"
  unfolding idle_inv_def using assms phase_safe [of L M P "j_target j" "j_record j" er cs k m pend]
  by (auto simp: job_inv_def)

context flash_device
begin

lemma poll_pending:
  assumes "wf d" "pending d = Some opn" "fl_poll F d = (s, d')"
  shows "wf d'" "pending d' = None \<or> pending d' = Some opn" "op_partial ss opn (mem d) (mem d')"
    "s = S_ok \<Longrightarrow> pending d' = None \<and> mem d' = apply_op ss opn (mem d)"
    "s = S_busy \<Longrightarrow> pending d' = Some opn"
  using poll_law [OF assms(1,3)] assms(2) op_partial_apply by (auto split: if_splits)

end

lemma job_inv_frame [frame_simps]:
  "job_inv L old M P er (j\<lparr>j_status := s\<rparr>) = job_inv L old M P er j"
  "job_inv L old M P er (j\<lparr>j_requested := b\<rparr>) = job_inv L old M P er j"
  "job_inv L old M P er (j\<lparr>j_offset := k\<rparr>) = job_inv L old M P er j"
  "job_inv L old M P er (j\<lparr>j_timed_out := b\<rparr>) = job_inv L old M P er j"
  "job_inv L old M P er (j\<lparr>j_operation_started := t\<rparr>) = job_inv L old M P er j"
  "job_inv L old M P er (j\<lparr>j_machine := sm\<rparr>) = job_inv L old M P er j"
  by (simp_all add: job_inv_def)

lemma final_record_frame [frame_simps]:
  "final_record (j\<lparr>j_status := s\<rparr>) = final_record j"
  "final_record (j\<lparr>j_requested := b\<rparr>) = final_record j"
  "final_record (j\<lparr>j_offset := k\<rparr>) = final_record j"
  "final_record (j\<lparr>j_timed_out := b\<rparr>) = final_record j"
  "final_record (j\<lparr>j_operation_started := t\<rparr>) = final_record j"
  "final_record (j\<lparr>j_machine := sm\<rparr>) = final_record j"
  by (simp_all add: final_record_def)

lemma journal_inv_frame [frame_simps]:
  "journal_inv L old nxt cs (j\<lparr>j_timed_out := b\<rparr>) m pend = journal_inv L old nxt cs j m pend"
  "journal_inv L old nxt cs (j\<lparr>j_operation_started := t\<rparr>) m pend = journal_inv L old nxt cs j m pend"
  "journal_inv L old nxt cs (j\<lparr>j_machine := sm\<rparr>) m pend = journal_inv L old nxt cs j m pend"
  by (simp_all add: journal_inv_def busy_inv_def idle_inv_def frame_simps)

lemma journal_inv_busyI:
  "goal_record L old nxt (final_record j) \<Longrightarrow> job_inv L old M P er j \<Longrightarrow> j_status j = S_busy \<Longrightarrow>
   busy_inv L M er cs j m pend \<Longrightarrow> journal_inv L old nxt cs j m pend"
  by (auto simp: journal_inv_def)

lemma journal_inv_idleI:
  "goal_record L old nxt (final_record j) \<Longrightarrow> job_inv L old M P er j \<Longrightarrow> j_status j \<noteq> S_busy \<Longrightarrow>
   idle_inv L M P cs j m pend \<Longrightarrow> journal_inv L old nxt cs j m pend"
  by (auto simp: journal_inv_def)

text \<open>A waiting phase while its operation goes on, and when it has ended.\<close>

lemma unit_fits:
  assumes "job L M P T R er" "k < 256" "write_size L dvd k"
  shows "k + write_size L \<le> 256" "length (take (write_size L) (drop k R)) = write_size L"
proof -
  have ws: "write_size L = 16 \<or> write_size L = 32" and len: "length R = 256"
    using assms(1) by (auto simp: job_def layout_wf_def dest: layout_valid_sizes)
  then show "k + write_size L \<le> 256" using assms(2,3) by (auto elim!: dvdE)
  then show "length (take (write_size L) (drop k R)) = write_size L" using len by simp
qed

lemma phase_partial:
  assumes j: "job L M P T R er" and ph: "phase L M T R er cs k m (Some opn)"
    and p: "op_partial (sector_size L) opn m m1"
  shows "phase L M T R er cs k m1 (Some opn)"
proof (cases cs)
  case J_erase_wait
  then show ?thesis using ph p op_partial_trans [of "sector_size L" opn M m m1]
    by (auto simp del: op_partial.simps)
next
  case J_write_wait
  then obtain m0 where m0: "written L M T R er k m0" "\<forall>x. x \<notin> {T + k..<T + k + write_size L} \<longrightarrow> m x = m0 x"
    and k: "k < 256" "write_size L dvd k" and opn: "opn = Op_program (T + k) (take (write_size L) (drop k R))"
    using ph by auto
  have "\<forall>x. x \<notin> {T + k..<T + k + write_size L} \<longrightarrow> m1 x = m0 x"
    using p m0(2) unit_fits [OF j k] unfolding opn by simp
  then show ?thesis using J_write_wait m0(1) k opn by auto
qed (use ph in simp_all)

lemma phase_complete:
  assumes j: "job L M P T R er" and ph: "phase L M T R er cs k m (Some opn)"
    and m1: "m1 = apply_op (sector_size L) opn m"
  shows "cs = J_erase_wait \<Longrightarrow> phase L M T R er J_write k m1 None"
    and "cs = J_write_wait \<Longrightarrow>
      phase L M T R er (if k + write_size L = 256 then J_verify else J_write) (k + write_size L) m1 None"
proof -
  assume c: "cs = J_erase_wait"
  then have er: "er" "k = 0" "opn = Op_erase T" "op_partial (sector_size L) (Op_erase T) M m" using ph by simp_all
  then have "m1 = apply_op (sector_size L) (Op_erase T) M" using m1 apply_op_partial by simp
  then show "phase L M T R er J_write k m1 None" using j er written_0_erased by simp
next
  assume c: "cs = J_write_wait"
  then have k: "k < 256" "write_size L dvd k" and opn: "opn = Op_program (T + k) (take (write_size L) (drop k R))"
    using ph by simp_all
  have "written L M T R er (k + write_size L) m1" using ph c written_unit [OF j k] unfolding m1 opn by auto
  then show "phase L M T R er (if k + write_size L = 256 then J_verify else J_write) (k + write_size L) m1 None"
    using k unit_fits [OF j k] by auto
qed

text \<open>A step that fails leaves a safe memory, because every phase does.\<close>

lemma step_failI:
  assumes "goal_record L old nxt (final_record j)" "job_inv L old M P er j" "busy_inv L M er cs j m pend"
    and "\<And>m''. crash_image (sector_size L) pend' m' m'' \<Longrightarrow> crash_image (sector_size L) pend m m''"
    and "\<not> accept_state cs" "s \<noteq> S_busy" "s \<noteq> S_ok"
  shows "journal_inv L old nxt J_failed (j\<lparr>j_status := s\<rparr>) m' pend'"
proof -
  have ph: "phase L M (j_target j) (j_record j) er cs (j_offset j) m pend" and "\<not> j_requested j"
    using assms(3,5) by (simp_all add: busy_inv_def)
  then show ?thesis
    using assms(1,2,4,6,7)
    by (auto intro!: journal_inv_idleI idle_invI [OF assms(2) ph] simp: frame_simps accept_state_def)
qed

text \<open>The verified checkpoint becomes the protected record of the job that follows it.\<close>

lemma checkpoint_job:
  assumes j: "job_inv L old M P er j" and c: "j_checkpoint j" and g: "goal_record L old nxt (j_pending_record j)"
    and w: "written L M (j_target j) (j_record j) er 256 m"
  shows "job_inv L old m (j_target j) True
    (j\<lparr>j_record := j_pending_record j, j_target := j_pending_target j, j_offset := 0,
       j_checkpoint := False, j_status := S_busy\<rparr>)"
proof -
  have jb: "job L M P (j_target j) (j_record j) er" using j by (simp add: job_inv_def)
  have rec: "rec_at m (j_target j) = j_record j" using written_rec_at [OF jb w] .
  have "safe L M P (j_target j) (j_record j) m"
    by (rule phase_safe [OF jb, of J_verify 256 m None]) (use w in \<open>simp_all add: crash_image_def\<close>)
  then have "journal_wf L m" "journal_current L m old"
    using safe_current [of L M P old "j_target j" "j_record j" m old] j jb c rec
    by (auto simp: job_inv_def job_def)
  moreover have "j_pending_target j \<in> record_addrs L"
  proof -
    have "j_pending_target j \<in> sector_addrs (j_pending_target j) (sector_size L div kRecordSize)"
      using jb layout_valid_sizes [of L]
      by (auto simp: sector_addrs_def job_def layout_wf_def kRecordSize_def dest!: dvd_imp_le
          intro!: exI [of _ 0])
    then show ?thesis using j c by (auto simp: job_inv_def record_addrs_def)
  qed
  ultimately show ?thesis
    using j jb c g rec by (auto simp: job_inv_def job_def goal_record_def)
qed

context flash_device
begin

lemma step_accept:
  assumes "goal_record L old nxt (final_record j)" "job_inv L old M P er j" "j_status j = S_busy"
    "busy_inv L M er cs j (mem d) (pending d)" "accept_state cs"
    "journal_step F L cs (j, d) = (ns, j', d')"
  shows "d' = d \<and> journal_inv L old nxt ns j' (mem d) (pending d)"
proof -
  have ns: "ns = (if er then J_erase else J_write)" "j' = j\<lparr>j_requested := False\<rparr>" "d' = d"
    using assms(4-6) by (auto simp: accept_state_def journal_accept_def busy_inv_def)
  then show ?thesis
    using assms(1-5) phase_accept [OF assms(2) _ assms(5)]
    by (auto intro!: journal_inv_busyI simp: frame_simps busy_inv_def accept_state_def)
qed

lemma step_erase:
  assumes wf: "wf d" and "goal_record L old nxt (final_record j)" "job_inv L old M P er j" "j_status j = S_busy"
    "busy_inv L M er J_erase j (mem d) (pending d)" "journal_step F L J_erase (j, d) = (ns, j', d')"
  shows "wf d' \<and> journal_inv L old nxt ns j' (mem d') (pending d')"
proof -
  note fail = step_failI [OF assms(2,3,5), of "pending d" "mem d"]
  show ?thesis
  proof (cases "j_timed_out j")
    case True then show ?thesis using assms(6) fail [of S_timeout] wf by (auto simp: accept_state_def)
  next
    case False
    obtain s d1 where e: "fl_erase F d (j_target j) = (s, d1)" by fastforce
    have law: "wf d1" "mem d1 = mem d" "pending d1 = (if s = S_ok then Some (Op_erase (j_target j)) else pending d)"
      using erase_law [OF wf e] by auto
    show ?thesis
    proof (cases "s = S_ok")
      case True
      then show ?thesis using False e law assms(2-6)
        by (auto intro!: journal_inv_busyI simp: busy_inv_def accept_state_def op_partial_refl)
    next
      case False
      then show ?thesis using \<open>\<not> j_timed_out j\<close> e law assms(6) fail [of s] fail [of S_io_error]
        by (auto simp: accept_state_def split: if_splits)
    qed
  qed
qed

lemma step_write:
  assumes wf: "wf d" and "goal_record L old nxt (final_record j)" "job_inv L old M P er j" "j_status j = S_busy"
    "busy_inv L M er J_write j (mem d) (pending d)" "journal_step F L J_write (j, d) = (ns, j', d')"
  shows "wf d' \<and> journal_inv L old nxt ns j' (mem d') (pending d')"
proof -
  note fail = step_failI [OF assms(2,3,5), of "pending d" "mem d"]
  let ?bs = "take (write_size L) (drop (j_offset j) (j_record j))"
  show ?thesis
  proof (cases "j_timed_out j")
    case True then show ?thesis using assms(6) fail [of S_timeout] wf by (auto simp: accept_state_def)
  next
    case False
    obtain s d1 where e: "fl_program F d (j_target j + j_offset j) ?bs = (s, d1)" by fastforce
    have law: "wf d1" "mem d1 = mem d"
      "pending d1 = (if s = S_ok then Some (Op_program (j_target j + j_offset j) ?bs) else pending d)"
      using program_law [OF wf e] by auto
    show ?thesis
    proof (cases "s = S_ok")
      case True
      then show ?thesis using False e law assms(2-6)
        by (auto intro!: journal_inv_busyI simp: busy_inv_def accept_state_def)
    next
      case False
      then show ?thesis using \<open>\<not> j_timed_out j\<close> e law assms(6) fail [of s] fail [of S_io_error]
        by (auto simp: accept_state_def split: if_splits)
    qed
  qed
qed

text \<open>The waiting states: the operation in progress goes on, ends or fails.\<close>

lemma step_wait:
  assumes wf: "wf d" and ss: "ss = sector_size L" and "goal_record L old nxt (final_record j)" "job_inv L old M P er j" "j_status j = S_busy"
    "busy_inv L M er cs j (mem d) (pending d)" and cs: "cs = J_erase_wait \<or> cs = J_write_wait"
    and step: "journal_wait F L cs j d = (ns, j', d')"
  shows "wf d' \<and> journal_inv L old nxt ns j' (mem d') (pending d')"
proof -
  obtain s d1 where p: "fl_poll F d = (s, d1)" by fastforce
  obtain opn where opn: "pending d = Some opn" using assms(6) cs by (auto simp: busy_inv_def)
  note law = poll_pending [OF wf opn p, unfolded ss]
  note fail = step_failI [OF assms(3,4,6), of "pending d1" "mem d1"]
  have cr: "crash_image (sector_size L) (pending d1) (mem d1) m'' \<Longrightarrow> crash_image (sector_size L) (pending d) (mem d) m''" for m''
    using crash_image_op [OF law(3)] law(2) opn by simp
  have d': "d' = d1" using step p by (auto simp: journal_wait_def Let_def split: if_splits)
  have jb: "job L M P (j_target j) (j_record j) er" using assms(4) by (simp add: job_inv_def)
  have ph: "phase L M (j_target j) (j_record j) er cs (j_offset j) (mem d) (Some opn)"
    and nr: "\<not> j_requested j" using assms(6) opn cs by (auto simp: busy_inv_def accept_state_def)
  consider (go) "s = S_busy" "\<not> j_timed_out j"
    | (fail) "s \<noteq> S_ok \<or> j_timed_out j" "s \<noteq> S_busy \<or> j_timed_out j" | (ok) "s = S_ok" "\<not> j_timed_out j" by blast
  then show ?thesis
  proof cases
    case go
    then have "ns = cs" "j' = j" using step p by (auto simp: journal_wait_def)
    moreover have "busy_inv L M er cs j (mem d1) (pending d1)"
      using phase_partial [OF jb ph law(3)] law(5) go assms(6) by (simp add: busy_inv_def)
    ultimately show ?thesis using assms(3-5) law(1) d' by (auto intro: journal_inv_busyI)
  next
    case fail
    then show ?thesis using step p cr d' law(1) cs step_failI [OF assms(3,4,6), of "pending d1" "mem d1" S_timeout]
        step_failI [OF assms(3,4,6), of "pending d1" "mem d1" s]
      by (auto simp: journal_wait_def accept_state_def)
  next
    case ok
    have no: "\<not> j_erase_only j" using assms(4) by (simp add: job_inv_def)
    have fin: "pending d1 = None" "mem d1 = apply_op (sector_size L) opn (mem d)" using law(4) ok by auto
    show ?thesis
      using cs
    proof
      assume c: "cs = J_erase_wait"
      then have "ns = J_write" "j' = j" using step p ok no by (auto simp: journal_wait_def)
      then show ?thesis using phase_complete(1) [OF jb ph fin(2) c] fin(1) assms(3-5) law(1) d' nr
        by (auto intro!: journal_inv_busyI simp: busy_inv_def accept_state_def)
    next
      assume c: "cs = J_write_wait"
      then have "ns = (if j_offset j + write_size L = 256 then J_verify else J_write)"
        "j' = j\<lparr>j_offset := j_offset j + write_size L\<rparr>"
        using step p ok by (auto simp: journal_wait_def Let_def kRecordSize_def)
      then show ?thesis using phase_complete(2) [OF jb ph fin(2) c] fin(1) assms(3-5) law(1) d' nr
        by (auto intro!: journal_inv_busyI simp: busy_inv_def accept_state_def frame_simps)
    qed
  qed
qed

lemma step_verify:
  assumes wf: "wf d" and "goal_record L old nxt (final_record j)" "job_inv L old M P er j" "j_status j = S_busy"
    "busy_inv L M er J_verify j (mem d) (pending d)" "journal_step F L J_verify (j, d) = (ns, j', d')"
  shows "wf d' \<and> journal_inv L old nxt ns j' (mem d') (pending d')"
proof -
  have jb: "job L M P (j_target j) (j_record j) er" using assms(3) by (simp add: job_inv_def)
  have ph: "phase L M (j_target j) (j_record j) er J_verify (j_offset j) (mem d) (pending d)"
    and nr: "\<not> j_requested j" using assms(5) by (auto simp: busy_inv_def accept_state_def)
  then have pn: "pending d = None" and w: "written L M (j_target j) (j_record j) er 256 (mem d)" by simp_all
  obtain s bs where r: "fl_read F d (j_target j) 256 = (s, bs)" by fastforce
  have nb: "s \<noteq> S_busy" using read_idle [OF wf pn] r by (metis fst_conv)
  have bs: "bs = j_record j" if "s = S_ok"
    using read_ok [OF wf r [unfolded that]] written_rec_at [OF jb w] by (simp add: rec_at_def kRecordSize_def)
  have d': "d' = d" using assms(6) by (auto simp: Let_def split: prod.splits if_splits)
  consider (fail) "s \<noteq> S_ok" | (again) "s = S_ok" "j_checkpoint j" | (fin) "s = S_ok" "\<not> j_checkpoint j" by blast
  then show ?thesis
  proof cases
    case fail
    then show ?thesis using assms(6) r step_failI [OF assms(2,3,5), of "pending d" "mem d" s] nb wf d'
      by (auto simp: kRecordSize_def accept_state_def)
  next
    case again
    have "goal_record L old nxt (j_pending_record j)" using assms(2) again by (simp add: final_record_def)
    note ck = checkpoint_job [OF assms(3) again(2) this w]
    show ?thesis using assms(2,6) r bs again ck wf d' pn nr
      by (auto intro!: journal_inv_busyI simp: kRecordSize_def busy_inv_def accept_state_def final_record_def)
  next
    case fin
    then show ?thesis using assms(2,3,6) r bs nr pn wf d' written_rec_at [OF jb w]
      by (auto intro!: journal_inv_idleI idle_invI [OF assms(3) ph] simp: kRecordSize_def accept_state_def frame_simps)
  qed
qed

lemma step_inv:
  assumes wf: "wf d" and ss: "ss = sector_size L" and inv: "journal_inv L old nxt cs j (mem d) (pending d)"
    and step: "journal_step F L cs (j, d) = (ns, j', d')"
  shows "wf d' \<and> journal_inv L old nxt ns j' (mem d') (pending d')"
proof (cases "j_status j = S_busy")
  case True
  then obtain M P er where i: "goal_record L old nxt (final_record j)" "job_inv L old M P er j"
    "j_status j = S_busy" "busy_inv L M er cs j (mem d) (pending d)"
    using inv by (auto simp: journal_inv_def)
  consider "accept_state cs" | "cs = J_erase" | "cs = J_write" | "cs = J_verify" | "cs = J_erase_wait \<or> cs = J_write_wait"
    by (cases cs) (auto simp: accept_state_def)
  then show ?thesis
  proof cases
    case 1 with step_accept [OF i 1 step] wf show ?thesis by auto
  next
    case 2 with step_erase [OF wf i(1-3)] i(4) step show ?thesis by blast
  next
    case 3 with step_write [OF wf i(1-3)] i(4) step show ?thesis by blast
  next
    case 4 with step_verify [OF wf i(1-3)] i(4) step show ?thesis by blast
  next
    case 5
    then have "journal_wait F L cs j d = (ns, j', d')" using step by auto
    then show ?thesis using step_wait [OF wf ss i 5] by blast
  qed
next
  case False
  then have "accept_state cs" "\<not> j_requested j" using inv by (auto simp: journal_inv_def idle_inv_def)
  then have "ns = cs \<and> j' = j \<and> d' = d" using step by (auto simp: accept_state_def journal_accept_def)
  then show ?thesis using wf inv by blast
qed

end

interpretation journal_sm: plain_machine "journal_derived F L" for F :: "'d flash" and L
proof
  fix s and ob :: "journal \<times> 'd"
  have "journal_index x < 8" for x by (cases x) simp_all
  then show "sm_valid (journal_derived F L) (dv_initial (journal_derived F L))"
    and "sm_valid (journal_derived F L) (fst (dv_step (journal_derived F L) s ob))"
    by (simp_all add: sm_valid_def journal_derived_def)
qed (simp_all add: journal_derived_def)

text \<open>The journal's own well-formedness: its machine is not in the middle of a tick.\<close>

definition journal_ok :: "'d flash \<Rightarrow> layout \<Rightarrow> journal \<Rightarrow> bool" where
  "journal_ok F L j \<longleftrightarrow> sm_wf (journal_derived F L) (j_machine j)"

text \<open>A tick is a reading of the clock, one step, and the machine's bookkeeping.\<close>

definition tick_clock :: "'d flash \<Rightarrow> layout \<Rightarrow> journal \<Rightarrow> 'd \<Rightarrow> journal \<times> 'd" where
  "tick_clock F L j d =
     (if j_requested j then (case fl_now F d of (t, d') \<Rightarrow> (j\<lparr>j_operation_started := t\<rparr>, d'))
      else if j_status j = S_busy then (case fl_now F d of (t, d') \<Rightarrow>
           if t - j_operation_started j \<ge> operation_timeout L then (j\<lparr>j_timed_out := True\<rparr>, d') else (j, d'))
      else (j, d))"

lemma journal_tick_split:
  assumes "journal_ok F L j" "journal_tick F L (j, d) = (j', d')" "tick_clock F L j d = (j0, d0)"
  obtains ns j1 m where "journal_step F L (sm_cs (j_machine j)) (j0, d0) = (ns, j1, d')"
    "j' = j1\<lparr>j_machine := m\<rparr>" "sm_cs m = ns" "sm_wf (journal_derived F L) m"
proof -
  have m0: "j_machine j0 = j_machine j" using assms(3) by (auto simp: tick_clock_def split: if_splits prod.splits)
  obtain ns j1 d1 where step: "journal_step F L (sm_cs (j_machine j)) (j0, d0) = (ns, j1, d1)"
    by (metis prod_cases3)
  then have "dv_step (journal_derived F L) (sm_cs (j_machine j)) (j0, d0) = (ns, j1, d1)"
    by (simp add: journal_derived_def)
  then obtain m where m: "sm_tick (journal_derived F L) (j_machine j) (j0, d0) = (S_ok, m, j1, d1)"
    "sm_cs m = ns" "sm_wf (journal_derived F L) m"
    using assms(1) journal_sm.tick_step [of F L "j_machine j"] unfolding journal_ok_def by metis
  then have "journal_tick F L (j, d) = (j1\<lparr>j_machine := m\<rparr>, d1)"
    using assms(3) unfolding journal_tick_def Let_def prod.case tick_clock_def by (simp add: m0)
  then show thesis using that [of ns j1 m] step m assms(2) by simp
qed

lemma journal_tick_cases:
  assumes "journal_ok F L j" and "journal_tick F L (j, d) = (j', d')"
  obtains j0 d0 ns j1 m where "d0 = d \<or> (\<exists>t. fl_now F d = (t, d0))"
    "j0 = j \<or> (\<exists>t. j0 = j\<lparr>j_operation_started := t\<rparr>) \<or> j0 = j\<lparr>j_timed_out := True\<rparr>"
    "journal_step F L (sm_cs (j_machine j)) (j0, d0) = (ns, j1, d')"
    "j' = j1\<lparr>j_machine := m\<rparr>" "sm_cs m = ns" "sm_wf (journal_derived F L) m"
proof -
  obtain j0 d0 where p: "tick_clock F L j d = (j0, d0)" by fastforce
  then have "d0 = d \<or> (\<exists>t. fl_now F d = (t, d0))"
    "j0 = j \<or> (\<exists>t. j0 = j\<lparr>j_operation_started := t\<rparr>) \<or> j0 = j\<lparr>j_timed_out := True\<rparr>"
    by (auto simp: tick_clock_def split: if_splits prod.splits)
  with journal_tick_split [OF assms p] show thesis using that by metis
qed

text \<open>\<open>Journal::tick\<close> keeps the invariant; \<open>journal_ticks\<close> is any number of ticks.\<close>

primrec journal_ticks :: "'d flash \<Rightarrow> layout \<Rightarrow> nat \<Rightarrow> journal \<times> 'd \<Rightarrow> journal \<times> 'd" where
  "journal_ticks F L 0 jd = jd"
| "journal_ticks F L (Suc n) jd = journal_ticks F L n (journal_tick F L jd)"

context flash_device
begin

abbreviation state_inv :: "layout \<Rightarrow> snapshot \<Rightarrow> snapshot \<Rightarrow> journal \<Rightarrow> 'd \<Rightarrow> bool" where
  "state_inv L old nxt j d \<equiv> wf d \<and> journal_ok F L j \<and>
     journal_inv L old nxt (sm_cs (j_machine j)) j (mem d) (pending d)"

lemma tick_inv:
  assumes ss: "ss = sector_size L" and inv: "state_inv L old nxt j d" and t: "journal_tick F L (j, d) = (j', d')"
  shows "state_inv L old nxt j' d'"
proof -
  obtain j0 d0 ns j1 m where d0: "d0 = d \<or> (\<exists>t. fl_now F d = (t, d0))"
    and j0: "j0 = j \<or> (\<exists>t. j0 = j\<lparr>j_operation_started := t\<rparr>) \<or> j0 = j\<lparr>j_timed_out := True\<rparr>"
    and step: "journal_step F L (sm_cs (j_machine j)) (j0, d0) = (ns, j1, d')"
    and m: "j' = j1\<lparr>j_machine := m\<rparr>" "sm_cs m = ns" "sm_wf (journal_derived F L) m"
    using journal_tick_cases [OF _ t] inv by metis
  have "wf d0" "journal_inv L old nxt (sm_cs (j_machine j)) j0 (mem d0) (pending d0)"
    using inv d0 j0 now_law by (auto simp: frame_simps)
  from step_inv [OF this(1) ss this(2) step] show ?thesis using m by (simp add: frame_simps journal_ok_def)
qed

lemma ticks_inv:
  assumes ss: "ss = sector_size L" and "state_inv L old nxt j d" and "journal_ticks F L n (j, d) = (j', d')"
  shows "state_inv L old nxt j' d'"
  using assms(2,3)
proof (induction n arbitrary: j d)
  case (Suc n)
  obtain j1 d1 where t: "journal_tick F L (j, d) = (j1, d1)" by fastforce
  show ?case using Suc.IH [of d1 j1] tick_inv [OF ss Suc.prems(1) t] Suc.prems(2) t by simp
qed simp

text \<open>Nothing outside the metadata sectors changes.\<close>

lemma step_mem:
  assumes "wf d" "journal_step F L cs (j, d) = (ns, j', d')"
  shows "mem d' = mem d \<or> (\<exists>opn. pending d = Some opn \<and> \<not> accept_state cs \<and> op_partial ss opn (mem d) (mem d'))"
proof (cases "cs \<in> {J_erase_wait, J_write_wait}")
  case True
  then have w: "journal_wait F L cs j d = (ns, j', d')" "\<not> accept_state cs" using assms(2) by (auto simp: accept_state_def)
  obtain s d1 where p: "fl_poll F d = (s, d1)" by fastforce
  then have "d' = d1" using w(1) by (auto simp: journal_wait_def Let_def split: if_splits)
  then show ?thesis using poll_law [OF assms(1) p] w(2) op_partial_apply [of ss _ "mem d"]
    by (auto split: option.splits if_splits)
next
  case False
  then show ?thesis using assms erase_law [OF assms(1)] program_law [OF assms(1)]
    by (cases cs) (auto simp: journal_accept_def Let_def split: if_splits prod.splits)
qed

lemma op_partial_outside: "op_partial ss opn m m' \<Longrightarrow> x \<notin> op_region ss opn \<Longrightarrow> m' x = m x"
  by (cases opn) auto

lemma pending_in_area:
  assumes "journal_inv L old nxt cs j m (Some opn)" "\<not> accept_state cs"
  shows "op_region (sector_size L) opn \<subseteq> metadata_area L"
proof -
  obtain M P er where j: "job L M P (j_target j) (j_record j) er" and b: "busy_inv L M er cs j m (Some opn)"
    using assms by (auto simp: journal_inv_def job_inv_def idle_inv_def split: if_splits)
  have lw: "layout_wf L" "j_target j \<in> record_addrs L" "er \<Longrightarrow> j_target j \<in> set (metadata L)"
    using j by (auto simp: job_def)
  show ?thesis
  proof (cases cs)
    case J_erase_wait
    then show ?thesis using b lw sector_in_area [OF lw(1), of "j_target j"] by (auto simp: busy_inv_def)
  next
    case J_write_wait
    then have k: "opn = Op_program (j_target j + j_offset j) (take (write_size L) (drop (j_offset j) (j_record j)))"
      "j_offset j < 256" "write_size L dvd j_offset j" using b by (auto simp: busy_inv_def)
    then show ?thesis using unit_fits [OF j k(2,3)] record_in_area [OF lw(1,2)] by auto
  qed (use b assms(2) in \<open>auto simp: busy_inv_def accept_state_def\<close>)
qed

lemma tick_frame:
  assumes ss: "ss = sector_size L" and inv: "state_inv L old nxt j d" and t: "journal_tick F L (j, d) = (j', d')"
    and x: "x \<notin> metadata_area L"
  shows "mem d' x = mem d x"
proof -
  obtain j0 d0 ns j1 where d0: "d0 = d \<or> (\<exists>t. fl_now F d = (t, d0))"
    and step: "journal_step F L (sm_cs (j_machine j)) (j0, d0) = (ns, j1, d')"
    using journal_tick_cases [OF _ t] inv by metis
  have "wf d0" "mem d0 = mem d" "pending d0 = pending d" using inv d0 now_law by auto
  with step_mem [OF _ step] inv pending_in_area op_partial_outside x show ?thesis
    unfolding ss by (metis subsetD)
qed

text \<open>The foreground loop of \<open>commit\<close>: when it returns, the operation is over and the invariant holds.\<close>

lemma run_inv:
  assumes ss: "ss = sector_size L" and "journal_run F L start timeout j d = Some (j', d')" "state_inv L old nxt j d"
  shows "state_inv L old nxt j' d' \<and> j_status j' \<noteq> S_busy \<and> (\<forall>x. x \<notin> metadata_area L \<longrightarrow> mem d' x = mem d x)"
proof -
  have "F' = F \<longrightarrow> L' = L \<longrightarrow> state_inv L old nxt j d \<longrightarrow>
      state_inv L old nxt (fst r) (snd r) \<and> j_status (fst r) \<noteq> S_busy \<and>
      (\<forall>x. x \<notin> metadata_area L \<longrightarrow> mem (snd r) x = mem d x)"
    if "journal_run F' L' start timeout j d = Some r" for F' L' start timeout j d r
    using that
  proof (rule journal_run.raw_induct [rotated])
    fix run :: "'d flash \<Rightarrow> layout \<Rightarrow> time \<Rightarrow> time \<Rightarrow> journal \<Rightarrow> 'd \<Rightarrow> (journal \<times> 'd) option"
      and F' L' start timeout j d r
    assume IH: "\<And>F' L' start timeout j d r. run F' L' start timeout j d = Some r \<Longrightarrow> F' = F \<longrightarrow> L' = L \<longrightarrow>
      state_inv L old nxt j d \<longrightarrow> state_inv L old nxt (fst r) (snd r) \<and> j_status (fst r) \<noteq> S_busy \<and>
      (\<forall>x. x \<notin> metadata_area L \<longrightarrow> mem (snd r) x = mem d x)"
      and eq: "(if j_status j = S_busy then
        (case fl_now F' d of (t, d') \<Rightarrow>
           case journal_tick F' L' (j\<lparr>j_timed_out := (timeout \<le> t - start)\<rparr>, d') of
             (j', d'') \<Rightarrow> run F' L' start timeout j' d'')
      else Some (j, d)) = Some r"
    show "F' = F \<longrightarrow> L' = L \<longrightarrow> state_inv L old nxt j d \<longrightarrow>
      state_inv L old nxt (fst r) (snd r) \<and> j_status (fst r) \<noteq> S_busy \<and>
      (\<forall>x. x \<notin> metadata_area L \<longrightarrow> mem (snd r) x = mem d x)"
    proof (intro impI)
      assume a: "F' = F" "L' = L" and i: "state_inv L old nxt j d"
      obtain t d1 where n: "fl_now F d = (t, d1)" by fastforce
      let ?j = "j\<lparr>j_timed_out := (timeout \<le> t - start)\<rparr>"
      obtain j2 d2 where tk: "journal_tick F L (?j, d1) = (j2, d2)" by fastforce
      have "state_inv L old nxt ?j d1"
        using i now_law [of d t d1] n by (simp add: frame_simps journal_ok_def)
      then have "state_inv L old nxt j2 d2" "\<forall>x. x \<notin> metadata_area L \<longrightarrow> mem d2 x = mem d x"
        using tick_inv [OF ss _ tk] tick_frame [OF ss _ tk] now_law [of d t d1] n i by auto
      then show "state_inv L old nxt (fst r) (snd r) \<and> j_status (fst r) \<noteq> S_busy \<and>
      (\<forall>x. x \<notin> metadata_area L \<longrightarrow> mem (snd r) x = mem d x)"
        using eq i IH [of F L start timeout j2 d2 r] n tk unfolding a by (auto split: if_splits)
    qed
  qed
  from this [OF assms(2)] assms(3) show ?thesis by simp
qed

end

end
