(* ===== verification/Journal_Begin.thy ===== *)
theory Journal_Begin
  imports Journal_Step
begin

text \<open>
  \<open>Journal::begin\<close>: the loops that look for an erased record end, and the place they choose, with
  the checkpoint that a running bank needs, starts a job that protects the newest record.
\<close>

section \<open>Banks\<close>

lemma record_addrs_bank:
  assumes "layout_wf L"
  shows "a \<in> record_addrs L \<longleftrightarrow> 256 dvd a \<and> (\<exists>b < 2. in_bank L b a)"
proof -
  obtain m0 m1 where m: "metadata L = [m0, m1]" "m0 mod sector_size L = 0" "m1 mod sector_size L = 0"
    using layout_wf_metadata [OF assms] by metis
  have ss: "256 dvd sector_size L" using assms by (auto simp: layout_wf_def kRecordSize_def dest: layout_valid_sizes)
  then have d: "256 dvd m0" "256 dvd m1" using m by (auto elim: dvd_trans)
  have sec: "a \<in> sector_addrs s (sector_size L div kRecordSize) \<longleftrightarrow> 256 dvd a \<and> s \<le> a \<and> a < s + sector_size L"
    if s256: "256 dvd s" for s
  proof -
    obtain k n where s: "s = 256 * k" and n: "sector_size L = 256 * n" using s256 ss unfolding dvd_def by blast
    show ?thesis
    proof
      assume "a \<in> sector_addrs s (sector_size L div kRecordSize)"
      then show "256 dvd a \<and> s \<le> a \<and> a < s + sector_size L" using s n by (auto simp: sector_addrs_def kRecordSize_def)
    next
      assume a: "256 dvd a \<and> s \<le> a \<and> a < s + sector_size L"
      then obtain l where "a = 256 * l" by (auto elim!: dvdE)
      then have "a = s + (l - k) * 256 \<and> l - k < n" using a s n by auto
      then show "a \<in> sector_addrs s (sector_size L div kRecordSize)"
        using n by (auto simp: sector_addrs_def kRecordSize_def)
    qed
  qed
  have "(\<exists>b < 2. in_bank L b a) \<longleftrightarrow> in_bank L 0 a \<or> in_bank L 1 a"
    by (auto simp: less_2_cases_iff)
  then show ?thesis using sec d by (auto simp: record_addrs_def m(1) in_bank_def)
qed

lemma in_bank_other:
  assumes "layout_wf L" "b < 2" "in_bank L b a"
  shows "\<not> in_bank L (1 - b) a" "a \<notin> write_area L True (metadata L ! (1 - b))"
  using assms layout_valid_regions [of L] assms(2) less_2_cases_nat [of b]
  by (auto simp: layout_wf_def in_bank_def write_area_def)

lemma bank_start:
  assumes "layout_wf L" "b < 2"
  shows "metadata L ! b \<in> set (metadata L)" "metadata L ! b \<in> record_addrs L" "256 dvd metadata L ! b"
    "256 dvd sector_size L" "0 < sector_size L"
proof -
  have v: "layout_valid L" using assms by (simp add: layout_wf_def)
  show "256 dvd sector_size L" "0 < sector_size L" using layout_valid_sizes [OF v] by (simp_all add: kRecordSize_def)
  then have "256 dvd metadata L ! b"
    using layout_valid_regions(4,5) [OF v] assms(2) less_2_cases_nat [of b] by (metis dvd_trans mod_eq_0_iff_dvd)
  then show "256 dvd metadata L ! b" "metadata L ! b \<in> record_addrs L"
    using assms record_addrs_bank [OF assms(1)] \<open>0 < sector_size L\<close> by (auto simp: in_bank_def)
  show "metadata L ! b \<in> set (metadata L)" using assms by (simp add: layout_wf_def)
qed

section \<open>Jobs\<close>

lemma job_append:
  assumes "layout_wf L" "P \<in> record_addrs L" "decode (rec_at m P) \<noteq> None" "T \<in> record_addrs L"
    "\<forall>i < 256. m (T + i) = 0xff" "length R = 256" "decode R \<noteq> None" "record_native L R"
  shows "job L m P T R False"
proof -
  have "decode (rec_at m T) = None" using assms(5) by (intro decode_blank_first) (auto simp: rec_at_nth dest: spec [of _ 0])
  then have "P \<noteq> T" using assms(3) by auto
  then show ?thesis using assms write_area_not_T [OF assms(1,2,4)] by (auto simp: job_def)
qed

lemma job_reclaim:
  assumes "layout_wf L" "P \<in> record_addrs L" "in_bank L b P" "b < 2"
    "length R = 256" "decode R \<noteq> None" "record_native L R"
  shows "job L m P (metadata L ! (1 - b)) R True"
  using assms in_bank_other [OF assms(1,4,3)] bank_start [OF assms(1), of "1 - b"] by (simp add: job_def)

section \<open>The search for an erased record\<close>

text \<open>The loops end, and the addresses do not wrap, when no metadata sector ends at the top of memory.\<close>

definition no_wrap :: "layout \<Rightarrow> bool" where
  "no_wrap L \<longleftrightarrow> metadata L ! 0 + sector_size L < 2 ^ 32 \<and> metadata L ! 1 + sector_size L < 2 ^ 32"

lemma no_wrap_bank: "no_wrap L \<Longrightarrow> b < 2 \<Longrightarrow> metadata L ! b + sector_size L < 2 ^ 32"
  using less_2_cases_nat [of b] by (auto simp: no_wrap_def)

lemma find_erased_spec:
  assumes "256 dvd at" "256 dvd limit" "at \<le> limit" "limit < 2 ^ 32"
  shows "find_erased F d at limit = Some None \<or>
    (\<exists>a. find_erased F d at limit = Some (Some a) \<and> at \<le> a \<and> a < limit \<and> 256 dvd a \<and> Erased F d a)"
  using assms
proof (induction "limit - at" arbitrary: at rule: less_induct)
  case less
  show ?case
  proof (cases "at < limit \<and> \<not> Erased F d at")
    case True
    obtain k l where k: "at = 256 * k" "limit = 256 * l" using less.prems by (auto elim!: dvdE)
    with True have "k < l" by simp
    then have le: "at + 256 \<le> limit" using k by simp
    then have eq: "find_erased F d at limit = find_erased F d (at + 256) limit"
      using True less.prems(4) by (subst find_erased.simps) (simp add: kRecordSize_def)
    show ?thesis
      unfolding eq using less.hyps [of "at + 256"] le less.prems True by fastforce
  next
    case False
    then show ?thesis using less.prems by (subst (1 2) find_erased.simps) auto
  qed
qed

lemma free_record_spec:
  assumes "layout_wf L" "no_wrap L" "b < 2"
  shows "free_record F L d b = Some (2 ^ 32 - 1) \<or>
    (\<exists>a. free_record F L d b = Some a \<and> a \<noteq> 2 ^ 32 - 1 \<and> in_bank L b a \<and> 256 dvd a \<and> Erased F d a)"
proof -
  note s = bank_start [OF assms(1,3)] no_wrap_bank [OF assms(2,3)]
  have "find_erased F d (metadata L ! b) (metadata L ! b + sector_size L) = Some None \<or>
    (\<exists>a. find_erased F d (metadata L ! b) (metadata L ! b + sector_size L) = Some (Some a) \<and>
      metadata L ! b \<le> a \<and> a < metadata L ! b + sector_size L \<and> 256 dvd a \<and> Erased F d a)"
    by (rule find_erased_spec) (use s in auto)
  then show ?thesis using s(6) by (auto simp: free_record_def in_bank_def)
qed

context flash_device
begin

lemma Erased_blank:
  assumes "wf d" "Erased F d a"
  shows "\<forall>i < 256. mem d (a + i) = 0xff"
proof (intro allI impI)
  fix i :: nat assume i: "i < 256"
  obtain h r where r: "fl_read F d a 16 = (S_ok, h)" "fl_read F d (a + 16) 240 = (S_ok, r)" "blank h" "blank r"
    using assms(2) by (auto simp: Erased_def split: prod.splits if_splits)
  have "rec_at (mem d) a = h @ r" using read_ok [OF assms(1) r(1)] read_ok [OF assms(1) r(2)] by (simp add: rec_at_split)
  then have "blank (rec_at (mem d) a)" using r by (simp add: blank_def)
  then have "rec_at (mem d) a ! i = 0xff" using i by (simp add: blank_def list_all_length)
  then show "mem d (a + i) = 0xff" using i by (simp add: rec_at_nth)
qed

end

section \<open>Placing a record\<close>

definition placed :: "layout \<Rightarrow> snapshot \<Rightarrow> (nat \<Rightarrow> byte) \<Rightarrow> byte list \<Rightarrow> journal \<Rightarrow> bool" where
  "placed L old m R j \<longleftrightarrow> final_record j = R \<and>
     (\<exists>P. job_inv L old m P (j_erase_needed j) j) \<and>
     (j_erase_needed j \<or> (\<forall>i < 256. m (j_target j + i) = 0xff))"

text \<open>What \<open>begin\<close> knows when it places the record: the loaded record and the new one.\<close>

definition to_place :: "layout \<Rightarrow> snapshot \<Rightarrow> (nat \<Rightarrow> byte) \<Rightarrow> journal \<Rightarrow> bool" where
  "to_place L old m j \<longleftrightarrow> layout_wf L \<and> no_wrap L \<and> journal_wf L m \<and> journal_current L m old \<and>
     j_latest j \<in> record_addrs L \<and> decode (rec_at m (j_latest j)) = Some old \<and>
     length (j_record j) = 256 \<and> decode (j_record j) \<noteq> None \<and> record_native L (j_record j) \<and>
     \<not> j_checkpoint j \<and> \<not> j_erase_only j"

lemma to_place_frame [frame_simps]:
  "to_place L old m (j\<lparr>j_target := T\<rparr>) = to_place L old m j"
  "to_place L old m (j\<lparr>j_erase_needed := er\<rparr>) = to_place L old m j"
  by (simp_all add: to_place_def)

lemma placed_commute:
  "placed L old m R (j\<lparr>j_erase_needed := er, j_target := T\<rparr>) =
   placed L old m R (j\<lparr>j_target := T, j_erase_needed := er\<rparr>)"
  by (simp add: placed_def job_inv_def final_record_def)

lemma placed_append:
  assumes "to_place L old m j" "T \<in> record_addrs L" "\<forall>i < 256. m (T + i) = 0xff"
  shows "placed L old m (j_record j) (j\<lparr>j_target := T, j_erase_needed := False\<rparr>)"
  using assms job_append [of L "j_latest j" m T "j_record j"]
  by (auto simp: placed_def to_place_def job_inv_def final_record_def)

lemma placed_reclaim:
  assumes "to_place L old m j" "in_bank L b (j_latest j)" "b < 2"
  shows "placed L old m (j_record j) (j\<lparr>j_target := metadata L ! (1 - b), j_erase_needed := True\<rparr>)"
  using assms job_reclaim [of L "j_latest j" b "j_record j" m]
  by (auto simp: placed_def to_place_def job_inv_def final_record_def)

lemma placed_checkpoint:
  assumes "to_place L old m j" "e < 2" "in_bank L e T" "256 dvd T" "\<forall>i < 256. m (T + i) = 0xff"
  shows "placed L old m (j_record j) (j\<lparr>j_pending_record := j_record j, j_pending_target := metadata L ! (1 - e),
    j_record := rec_at m (j_latest j), j_target := T, j_checkpoint := True, j_erase_needed := False\<rparr>)"
proof -
  have T: "T \<in> record_addrs L" using assms record_addrs_bank [of L T] by (auto simp: to_place_def)
  have "record_native L (rec_at m (j_latest j))" using assms(1) by (auto simp: to_place_def journal_wf_def)
  then have "job L m (j_latest j) T (rec_at m (j_latest j)) False"
    using assms T by (intro job_append) (auto simp: to_place_def)
  then show ?thesis
    using assms in_bank_other(2) [of L e T] bank_start(1) [of L "1 - e"]
    by (auto simp: placed_def to_place_def job_inv_def final_record_def)
qed

lemma place_record_eq:
  "place_record F L S_ok j d =
     (let bank = (if metadata L ! 1 \<le> j_latest j \<and> j_latest j - metadata L ! 1 < sector_size L then 1 else 0)
      in case find_erased F d ((j_latest j + kRecordSize) mod 2 ^ 32) (metadata L ! bank + sector_size L) of
           None \<Rightarrow> None
         | Some None \<Rightarrow> Some (j\<lparr>j_erase_needed := True, j_target := metadata L ! (1 - bank)\<rparr>)
         | Some (Some a) \<Rightarrow> Some (j\<lparr>j_target := a, j_erase_needed := False\<rparr>))"
  unfolding place_record_def Let_def by (simp split del: if_split cong: option.case_cong)

context flash_device
begin

lemma place_record_placed:
  assumes "wf d" "to_place L old (mem d) j"
  shows "\<exists>j1. place_record F L S_ok j d = Some j1 \<and> placed L old (mem d) (j_record j) j1 \<and>
    to_place L old (mem d) j1 \<and> j_record j1 = j_record j \<and> j_machine j1 = j_machine j"
proof -
  define bank :: nat where
    "bank = (if metadata L ! 1 \<le> j_latest j \<and> j_latest j - metadata L ! 1 < sector_size L then 1 else 0)"
  let ?limit = "metadata L ! bank + sector_size L"
  have wf: "layout_wf L" "no_wrap L" and la: "j_latest j \<in> record_addrs L" using assms(2) by (auto simp: to_place_def)
  have b: "bank < 2" by (simp add: bank_def)
  have l1: "256 dvd j_latest j" and "in_bank L 0 (j_latest j) \<or> in_bank L 1 (j_latest j)"
    using la unfolding record_addrs_bank [OF wf(1)] by (auto simp: less_2_cases_iff)
  then have l2: "in_bank L bank (j_latest j)" unfolding bank_def in_bank_def by simp linarith
  note s = bank_start [OF wf(1) b] no_wrap_bank [OF wf(2) b]
  have dl: "256 dvd ?limit" using s by simp
  then obtain k n where "j_latest j = 256 * k" "?limit = 256 * n" using l1 unfolding dvd_def by blast
  then have le: "j_latest j + 256 \<le> ?limit" using l2 unfolding in_bank_def by simp
  have d1: "256 dvd j_latest j + 256" using l1 by simp
  have at: "(j_latest j + kRecordSize) mod 2 ^ 32 = j_latest j + 256"
    unfolding kRecordSize_def by (rule mod_less) (use le s(6) in linarith)
  note pr = place_record_eq [of F L j d, unfolded Let_def, folded bank_def, unfolded at]
  show ?thesis
    using find_erased_spec [of "j_latest j + 256" ?limit F d, OF d1 dl le s(6)]
  proof (elim disjE exE conjE)
    assume "find_erased F d (j_latest j + 256) ?limit = Some None"
    then show ?thesis using placed_reclaim [OF assms(2) l2 b] assms(2)
      unfolding pr by (auto simp: placed_commute frame_simps)
  next
    fix a assume a: "find_erased F d (j_latest j + 256) ?limit = Some (Some a)" "j_latest j + 256 \<le> a"
      "a < ?limit" "256 dvd a" "Erased F d a"
    then have "in_bank L bank a" using l2 by (simp add: in_bank_def)
    then have "a \<in> record_addrs L" using record_addrs_bank [OF wf(1)] b a by blast
    then show ?thesis using placed_append [OF assms(2) _ Erased_blank [OF assms(1) a(5)]] a(1) assms(2)
      unfolding pr by (auto simp: frame_simps)
  qed
qed

lemma place_runtime_placed:
  assumes "wf d" "to_place L old (mem d) j" "e < 2"
  shows "(\<exists>s j1. place_runtime F L S_ok e j d = Some (Inl (s, j1)) \<and> s \<noteq> S_ok) \<or>
    (\<exists>j1. place_runtime F L S_ok e j d = Some (Inr j1) \<and> placed L old (mem d) (j_record j) j1 \<and>
       j_machine j1 = j_machine j)"
proof -
  have wf: "layout_wf L" "no_wrap L" and la: "j_latest j \<in> record_addrs L" using assms(2) by (auto simp: to_place_def)
  let ?i = "1 - e"
  have i: "?i < 2" "1 - ?i = e" using assms(3) by auto
  consider (full) "free_record F L d ?i = Some (2 ^ 32 - 1)"
    | (free) a where "free_record F L d ?i = Some a" "a \<noteq> 2 ^ 32 - 1" "in_bank L ?i a" "256 dvd a" "Erased F d a"
    using free_record_spec [OF wf i(1), of F d] by blast
  then show ?thesis
  proof cases
    case free
    then have "a \<in> record_addrs L" using record_addrs_bank [OF wf(1)] i by blast
    then show ?thesis using free placed_append [OF assms(2), of a] Erased_blank [OF assms(1) free(5)]
      by (simp add: place_runtime_def Let_def)
  next
    case full
    show ?thesis
    proof (cases "in_bank L ?i (j_latest j)")
      case False
      then have "in_bank L e (j_latest j)"
        using record_addrs_bank [OF wf(1)] la assms(3) by (auto simp: less_2_cases_iff)
      then show ?thesis using False full placed_reclaim [OF assms(2) _ assms(3)]
        by (simp add: place_runtime_def Let_def placed_commute)
    next
      case True
      obtain s bs where r: "fl_read F d (j_latest j) kRecordSize = (s, bs)" by fastforce
      have bs: "bs = rec_at (mem d) (j_latest j)" if "s = S_ok"
        using read_ok [OF assms(1) r [unfolded that]] by (simp add: rec_at_def)
      show ?thesis
        using free_record_spec [OF wf assms(3), of F d] True full r bs
          placed_checkpoint [OF assms(2,3)] Erased_blank [OF assms(1)]
        by (cases "s = S_ok") (auto simp: place_runtime_def Let_def)
    qed
  qed
qed

end

lemma current_unique:
  assumes "journal_wf L m" "journal_current L m a" "journal_current L m b"
  shows "a = b"
proof -
  obtain x y where x: "x \<in> record_addrs L" "decode (rec_at m x) = Some a"
    and y: "y \<in> record_addrs L" "decode (rec_at m y) = Some b"
    using assms(2,3) by (auto simp: journal_current_def)
  then have "snap_sequence a = snap_sequence b"
    using assms(2,3) by (intro antisym) (auto simp: journal_current_def)
  then have "rec_at m x = rec_at m y"
    using assms(1) x y unfolding journal_wf_def journal_consistent_def by blast
  with x y show ?thesis by simp
qed

text \<open>A placed job, started, is the invariant's initial state.\<close>

lemma placed_start:
  assumes "placed L old m R j" "goal_record L old nxt R" "accept_state cs"
  shows "journal_inv L old nxt cs (j\<lparr>j_offset := 0, j_timed_out := False, j_requested := True, j_status := S_busy\<rparr>)
    m None"
proof -
  obtain P where "job_inv L old m P (j_erase_needed j) j" using assms(1) by (auto simp: placed_def)
  then show ?thesis
    using assms by (intro journal_inv_busyI [where M = m and P = P and er = "j_erase_needed j"])
      (auto simp: frame_simps placed_def busy_inv_def accept_state_def)
qed

text \<open>The next sequence number is larger, as the code excludes the last one.\<close>

lemma goal_recordI:
  assumes "layout_wf L" "snapshot_wf snap" "snap_sequence old \<noteq> - 1" "nxt = snap\<lparr>snap_sequence := snap_sequence old + 1\<rparr>"
    "decode (encode nxt (write_size L)) \<noteq> None"
  shows "goal_record L old nxt (encode nxt (write_size L))"
proof -
  have wf: "snapshot_wf nxt" using assms(2,4) by (simp add: snapshot_wf_def)
  have "snap_sequence old < snap_sequence old + 1"
    using assms(3) unat_plus_one [of "snap_sequence old"] by (simp add: word_less_nat_alt)
  then show ?thesis
    using assms decode_encode [OF wf, of "write_size L"] wf encode_version [OF wf, of "write_size L"]
    by (auto simp: goal_record_def record_native_def split: if_splits)
qed

definition journal_idle :: "'d flash \<Rightarrow> layout \<Rightarrow> journal \<Rightarrow> bool" where
  "journal_idle F L j \<longleftrightarrow> journal_ok F L j \<and> j_status j \<noteq> S_busy \<and> accept_state (sm_cs (j_machine j))"

lemma journal_new_idle: "journal_idle F L (journal_new F L)"
  using journal_sm.new_wf [of F L]
  by (simp add: journal_idle_def journal_ok_def journal_new_def accept_state_def sm_new_def journal_derived_def)

context flash_device
begin

lemma poll_settles:
  assumes "wf d" "fl_poll F d = (s, d')" "s \<noteq> S_busy"
  shows "wf d'" "pending d' = None" "pending d = None \<Longrightarrow> mem d' = mem d"
  using poll_law [OF assms(1,2)] assms(3) by (auto split: option.splits if_splits)

lemma begin_place_inv:
  assumes "wf d" "pending d = None" "to_place L old (mem d) j" "journal_idle F L j"
    and g: "goal_record L old nxt (j_record j)"
  shows "\<exists>s j'. begin_place F L S_ok j d = Some (s, j', d) \<and> (s = S_ok \<longrightarrow> state_inv L old nxt j' d) \<and>
    (fl_executing_bank F = None \<longrightarrow> s = S_ok)"
proof -
  have ok: "state_inv L old nxt (j1\<lparr>j_offset := 0, j_timed_out := False, j_requested := True, j_status := S_busy\<rparr>) d"
    if "placed L old (mem d) (j_record j) j1" "j_machine j1 = j_machine j" for j1
    using assms(1,2,4) that placed_start [OF that(1) g, of "sm_cs (j_machine j)"]
    by (simp add: journal_idle_def journal_ok_def)
  obtain j1 where j1: "place_record F L S_ok j d = Some j1" "placed L old (mem d) (j_record j) j1"
    "to_place L old (mem d) j1" "j_record j1 = j_record j" "j_machine j1 = j_machine j"
    using place_record_placed [OF assms(1,3)] by blast
  define e where "e = (case fl_executing_bank F of Some f \<Rightarrow> f d | None \<Rightarrow> 2)"
  show ?thesis
  proof (cases "e < 2")
    case False
    then show ?thesis using j1 ok unfolding begin_place_def e_def by simp
  next
    case True
    consider (stop) s j2 where "place_runtime F L S_ok e j1 d = Some (Inl (s, j2))" "s \<noteq> S_ok"
      | (go) j2 where "place_runtime F L S_ok e j1 d = Some (Inr j2)" "placed L old (mem d) (j_record j1) j2" "j_machine j2 = j_machine j1"
      using place_runtime_placed [OF assms(1) j1(3) True] by blast
    then show ?thesis
    proof cases
      case stop then show ?thesis using True j1(1) unfolding begin_place_def e_def by (auto split: option.splits)
    next
      case go then show ?thesis using True j1 ok [of j2] unfolding begin_place_def e_def by simp
    qed
  qed
qed

lemma begin_correct:
  assumes wf: "wf d" and j: "journal_idle F L j" and v: "flash_valid F" "layout_wf L" "no_wrap L"
    and snap: "snapshot_wf snap" and p: "fl_poll F d = (s0, d1)" "s0 \<noteq> S_busy"
    and m: "reads_ok F L d1" "journal_wf L (mem d1)" "journal_current L (mem d1) old"
  shows "\<exists>s j' d'. journal_begin F L snap initialize j d = Some (s, j', d') \<and> d' = snd (fl_poll F d1) \<and>
    wf d' \<and> mem d' = mem d1 \<and> pending d' = None \<and> (s = S_ok \<longrightarrow> state_inv L old (snap\<lparr>snap_sequence := snap_sequence old + 1\<rparr>) j' d') \<and>
    (fl_executing_bank F = None \<and> fst (fl_poll F d1) \<noteq> S_busy \<and> snap_sequence old \<noteq> - 1 \<and>
     snap_counter old \<le> snap_counter snap \<and> snapshot_committable (snap\<lparr>snap_sequence := snap_sequence old + 1\<rparr>) \<longrightarrow>
     s = S_ok)"
proof -
  let ?nxt = "snap\<lparr>snap_sequence := snap_sequence old + 1\<rparr>"
  have lv: "layout_valid L" and con: "journal_consistent L (mem d1)"
    using v m(2) by (auto simp: layout_wf_def journal_wf_def)
  have "\<not> journal_empty L (mem d1)" using m(3) by (auto simp: journal_current_def journal_empty_def)
  then obtain a where load: "journal_load F L j default_snapshot d = (S_ok, old, j\<lparr>j_latest := a\<rparr>, d1)"
    and a: "a \<in> record_addrs L" "decode (rec_at (mem d1) a) = Some old"
    using journal_load_correct [OF wf v(1) lv p m(1) con, of j default_snapshot] current_unique [OF m(2) _ m(3)]
    by (auto simp: Let_def)
  obtain s1 d2 where p2: "fl_poll F d1 = (s1, d2)" by fastforce
  have d1: "wf d1" "pending d1 = None" using poll_settles [OF wf p] by auto
  have d2: "wf d2" "mem d2 = mem d1" "pending d2 = None" using poll_law [OF d1(1) p2] d1(2) by auto
  let ?j = "j\<lparr>j_latest := a, j_record := encode ?nxt (write_size L), j_checkpoint := False, j_erase_only := False\<rparr>"
  have b: "journal_begin F L snap initialize j d =
    (if s1 = S_busy then Some (S_busy, j\<lparr>j_latest := a\<rparr>, d2)
     else if snap_sequence old = - 1 \<or> snap_counter snap < snap_counter old then
       Some (S_counter_exhausted, j\<lparr>j_latest := a\<rparr>, d2)
     else if decode (encode ?nxt (write_size L)) = None then Some (S_invalid_argument, ?j, d2)
     else begin_place F L S_ok ?j d2)"
    using j by (simp add: journal_begin_def load p2 Let_def journal_idle_def)
  show ?thesis
  proof (cases "s1 = S_busy \<or> snap_sequence old = - 1 \<or> snap_counter snap < snap_counter old \<or>
      decode (encode ?nxt (write_size L)) = None")
    case True
    moreover have "snapshot_wf ?nxt" using snap by (simp add: snapshot_wf_def)
    ultimately show ?thesis using d2 p2 decode_encode [of ?nxt "write_size L"] by (auto simp: b)
  next
    case False
    have g: "goal_record L old ?nxt (encode ?nxt (write_size L))"
      using False v(2) snap by (intro goal_recordI) auto
    then have "to_place L old (mem d2) ?j" using v m a False by (simp add: to_place_def d2(2) goal_record_def)
    then show ?thesis
      using begin_place_inv [of d2 L old ?j ?nxt] d2 p2 j g False
      by (auto simp: b journal_idle_def journal_ok_def)
  qed
qed

end

end
