(* ===== verification/Journal_Commit.thy ===== *)
theory Journal_Commit
  imports Journal_Begin
begin

text \<open>
  \<open>Journal::commit\<close> as a whole: what a crash at any moment leaves, what a completed commit has
  written, what the next \<open>load\<close> returns, and that the foreground loop ends.
\<close>

section \<open>Crashes and completion\<close>

context flash_device
begin

text \<open>A memory with a current snapshot is loaded as such.\<close>

lemma load_current:
  assumes "wf d" "flash_valid F" "layout_valid L" "fl_poll F d = (s, d')" "s \<noteq> S_busy" "reads_ok F L d'"
    "journal_wf L (mem d')" "journal_current L (mem d') best"
  shows "\<exists>a. journal_load F L j snap d = (S_ok, best, j\<lparr>j_latest := a\<rparr>, d')"
proof -
  have "\<not> journal_empty L (mem d')" using assms(8) by (auto simp: journal_current_def journal_empty_def)
  then obtain a b where "journal_load F L j snap d = (S_ok, b, j\<lparr>j_latest := a\<rparr>, d')" "journal_current L (mem d') b"
    using journal_load_correct [OF assms(1-6), of j snap] assms(7) unfolding journal_wf_def Let_def by blast
  then show ?thesis using current_unique [OF assms(7) _ assms(8)] by blast
qed

text \<open>Any number of ticks after an accepted \<open>begin\<close>, at any crash.\<close>

lemma ticks_crash:
  assumes ss: "ss = sector_size L" and "state_inv L old nxt j d" "journal_ticks F L n (j, d) = (j', d')"
    "crash_image (sector_size L) (pending d') (mem d') m'"
  shows "journal_wf L m' \<and> (journal_current L m' old \<or> journal_current L m' nxt)"
  using ticks_inv [OF assms(1-3)] assms(4) journal_inv_crash by blast

lemma ticks_done:
  assumes ss: "ss = sector_size L" and "state_inv L old nxt j d" "journal_ticks F L n (j, d) = (j', d')"
    "j_status j' = S_ok"
  shows "pending d' = None \<and> journal_wf L (mem d') \<and> journal_current L (mem d') nxt \<and> journal_idle F L j'"
proof -
  have i: "state_inv L old nxt j' d'" using ticks_inv [OF assms(1-3)] .
  then have "accept_state (sm_cs (j_machine j'))"
    using assms(4) by (auto simp: journal_inv_def idle_inv_def)
  moreover have "pending d' = None \<and> journal_wf L (mem d') \<and> journal_current L (mem d') nxt"
    using i assms(4) journal_inv_done by blast
  ultimately show ?thesis using i assms(4) by (simp add: journal_idle_def)
qed

text \<open>\<open>Journal::commit\<close>: what it has done when it returns.\<close>

lemma commit_correct:
  assumes ss: "ss = sector_size L" and wf: "wf d" and j: "journal_idle F L j"
    and v: "flash_valid F" "layout_wf L" "no_wrap L"
    and snap: "snapshot_wf snap" and p: "fl_poll F d = (s0, d1)" "s0 \<noteq> S_busy"
    and m: "reads_ok F L d1" "journal_wf L (mem d1)" "journal_current L (mem d1) old"
    and c: "journal_commit F L snap timeout initialize j d = Some (s, j', d')"
  shows "wf d' \<and> (\<forall>m'. crash_image (sector_size L) (pending d') (mem d') m' \<longrightarrow> journal_wf L m' \<and>
      (journal_current L m' old \<or> journal_current L m' (snap\<lparr>snap_sequence := snap_sequence old + 1\<rparr>))) \<and>
    (\<forall>x. x \<notin> metadata_area L \<longrightarrow> mem d' x = mem d1 x) \<and>
    (s = S_ok \<longrightarrow> pending d' = None \<and> journal_idle F L j' \<and> journal_wf L (mem d') \<and>
       journal_current L (mem d') (snap\<lparr>snap_sequence := snap_sequence old + 1\<rparr>))"
proof -
  let ?nxt = "snap\<lparr>snap_sequence := snap_sequence old + 1\<rparr>"
  obtain s1 j1 d1' where b: "journal_begin F L snap initialize j d = Some (s1, j1, d1')" "wf d1'" "mem d1' = mem d1"
    "pending d1' = None" "s1 = S_ok \<longrightarrow> state_inv L old ?nxt j1 d1'"
    using begin_correct [OF wf j v snap p m] by blast
  show ?thesis
  proof (cases "s1 = S_ok")
    case False
    then show ?thesis using c b m(2,3) by (auto simp: journal_commit_def Let_def crash_image_def)
  next
    case True
    obtain t d2 where t: "fl_now F d1' = (t, d2)" by fastforce
    have i2: "state_inv L old ?nxt j1 d2" using b True now_law [OF _ t] by simp
    let ?timeout = "if timeout = 0 then operation_timeout L else timeout"
    have r: "journal_run F L t ?timeout j1 d2 = Some (j', d')" and s: "s = j_status j'"
      using c b(1) True t by (auto simp: journal_commit_def Let_def split: option.splits)
    have i: "state_inv L old ?nxt j' d'" and f: "\<forall>x. x \<notin> metadata_area L \<longrightarrow> mem d' x = mem d2 x"
      using run_inv [OF ss r i2] by blast+
    show ?thesis
    proof (intro conjI allI impI)
      show "wf d'" using i by blast
    next
      fix m' assume "crash_image (sector_size L) (pending d') (mem d') m'"
      then show "journal_wf L m'" "journal_current L m' old \<or> journal_current L m' ?nxt"
        using i journal_inv_crash by blast+
    next
      assume "s = S_ok"
      then have "j_status j' = S_ok" using s by simp
      then show "pending d' = None" "journal_current L (mem d') ?nxt" "journal_wf L (mem d')"
        using i journal_inv_done by blast+
      show "journal_idle F L j'"
        using i \<open>j_status j' = S_ok\<close> by (auto simp: journal_idle_def journal_inv_def idle_inv_def)
    next
      fix x assume "x \<notin> metadata_area L"
      then show "mem d' x = mem d1 x" using f now_law [OF b(2) t] b(3) by simp
    qed
  qed
qed

end

section \<open>The foreground loop ends\<close>

text \<open>
  A device on whose clock the time limit of an operation started at \<open>start\<close> passes for good after
  \<open>delay\<close> more readings.
\<close>

locale timed_flash = flash_device F mem pending wf ss
  for F :: "'d flash" and mem pending wf ss +
  fixes start timeout :: time and delay :: "'d \<Rightarrow> nat"
  assumes delay_now: "wf d \<Longrightarrow> fl_now F d = (t, d') \<Longrightarrow> delay d' \<le> delay d - 1 \<and> (delay d = 0 \<longrightarrow> timeout \<le> t - start)"
    and delay_poll: "wf d \<Longrightarrow> fl_poll F d = (s, d') \<Longrightarrow> delay d' \<le> delay d"
    and delay_erase: "wf d \<Longrightarrow> fl_erase F d a = (s, d') \<Longrightarrow> delay d' \<le> delay d"
    and delay_program: "wf d \<Longrightarrow> fl_program F d a bs = (s, d') \<Longrightarrow> delay d' \<le> delay d"

text \<open>How many more steps a timed-out operation can take.\<close>

definition run_weight :: "journal_state \<Rightarrow> journal \<Rightarrow> nat" where
  "run_weight cs j = (if accept_state cs then 3 else if cs = J_verify \<and> j_checkpoint j then 2 else 1)"

context timed_flash
begin

lemma step_delay:
  "wf d \<Longrightarrow> journal_step F L cs (j, d) = (ns, j', d') \<Longrightarrow> delay d' \<le> delay d"
  by (cases cs)
    (auto simp: journal_accept_def journal_wait_def Let_def split: if_splits prod.splits
      dest: delay_poll delay_erase delay_program)

lemma step_timed_out:
  assumes "wf d" "journal_inv L old nxt cs j (mem d) (pending d)" "j_status j = S_busy" "j_timed_out j"
    "journal_step F L cs (j, d) = (ns, j', d')"
  shows "j_status j' \<noteq> S_busy \<or> run_weight ns j' < run_weight cs j"
proof -
  obtain M er where b: "busy_inv L M er cs j (mem d) (pending d)" using assms(2,3) by (auto simp: journal_inv_def)
  have v: "fst (fl_read F d a n) \<noteq> S_busy" if "cs = J_verify" for a n
    using read_idle [OF assms(1)] b that by (auto simp: busy_inv_def)
  show ?thesis
  proof (cases cs)
    case J_verify
    then show ?thesis using assms(5) v [of "j_target j" kRecordSize]
      by (auto simp: Let_def run_weight_def accept_state_def split: prod.splits if_splits)
  qed (use assms(4,5) b in \<open>auto simp: busy_inv_def journal_accept_def journal_wait_def run_weight_def accept_state_def
      split: prod.splits if_splits\<close>)
qed

lemma tick_progress:
  assumes ss: "ss = sector_size L" and inv: "state_inv L old nxt j d" and t: "journal_tick F L (j, d) = (j', d')"
  shows "delay d' \<le> delay d"
    and "j_status j = S_busy \<Longrightarrow> j_timed_out j \<Longrightarrow>
      j_status j' \<noteq> S_busy \<or> run_weight (sm_cs (j_machine j')) j' < run_weight (sm_cs (j_machine j)) j"
proof -
  obtain j0 d0 ns j1 m where d0: "d0 = d \<or> (\<exists>t. fl_now F d = (t, d0))"
    and j0: "j0 = j \<or> (\<exists>t. j0 = j\<lparr>j_operation_started := t\<rparr>) \<or> j0 = j\<lparr>j_timed_out := True\<rparr>"
    and step: "journal_step F L (sm_cs (j_machine j)) (j0, d0) = (ns, j1, d')"
    and m: "j' = j1\<lparr>j_machine := m\<rparr>" "sm_cs m = ns"
    using journal_tick_cases [OF _ t] inv by metis
  have dl: "delay d0 \<le> delay d" using d0 inv delay_now [of d _ d0] by fastforce
  have i0: "wf d0" "journal_inv L old nxt (sm_cs (j_machine j)) j0 (mem d0) (pending d0)"
    using inv d0 j0 now_law by (auto simp: frame_simps)
  then show "delay d' \<le> delay d" using dl step_delay [OF _ step] by fastforce
  assume b: "j_status j = S_busy" "j_timed_out j"
  then have b0: "j_status j0 = S_busy" "j_timed_out j0" using j0 by auto
  have "run_weight (sm_cs (j_machine j)) j0 = run_weight (sm_cs (j_machine j)) j" using j0 by (auto simp: run_weight_def)
  moreover have "run_weight ns (j1\<lparr>j_machine := m\<rparr>) = run_weight ns j1" by (simp add: run_weight_def)
  ultimately show "j_status j' \<noteq> S_busy \<or> run_weight (sm_cs (j_machine j')) j' < run_weight (sm_cs (j_machine j)) j"
    using step_timed_out [OF i0 b0 step] m by simp
qed

lemma run_returns:
  assumes ss: "ss = sector_size L" and "state_inv L old nxt j d"
  shows "\<exists>r. journal_run F L start timeout j d = Some r"
proof -
  have "state_inv L old nxt j d \<longrightarrow> (\<exists>r. journal_run F L start timeout j d = Some r)"
    if "x = (delay d, run_weight (sm_cs (j_machine j)) j)" for x j d
    using that
  proof (induction x arbitrary: j d rule: wf_induct_rule [OF wf_lex_prod [OF wf_less_than wf_less_than]])
    case (1 x)
    show ?case
    proof (intro impI, cases "j_status j = S_busy")
      case False
      then show "\<exists>r. journal_run F L start timeout j d = Some r" by (subst journal_run.simps) simp
    next
      case True
      assume inv: "state_inv L old nxt j d"
      obtain t d1 where t: "fl_now F d = (t, d1)" by fastforce
      let ?j = "j\<lparr>j_timed_out := (timeout \<le> t - start)\<rparr>"
      obtain j2 d2 where tk: "journal_tick F L (?j, d1) = (j2, d2)" by fastforce
      have eq: "journal_run F L start timeout j d = journal_run F L start timeout j2 d2"
        using True t tk by (subst journal_run.simps) simp
      have i1: "state_inv L old nxt ?j d1" using inv now_law [OF _ t] by (simp add: frame_simps journal_ok_def)
      note pr = tick_progress [OF ss i1 tk]
      have w: "run_weight (sm_cs (j_machine ?j)) ?j = run_weight (sm_cs (j_machine j)) j" by (simp add: run_weight_def)
      show "\<exists>r. journal_run F L start timeout j d = Some r"
      proof (cases "j_status j2 = S_busy")
        case False
        then show ?thesis unfolding eq by (subst journal_run.simps) simp
      next
        case b2: True
        have "delay d2 < delay d \<or> delay d2 \<le> delay d \<and> run_weight (sm_cs (j_machine j2)) j2 < run_weight (sm_cs (j_machine j)) j"
          using pr(1) pr(2) delay_now [OF _ t] inv True b2 w by (cases "delay d = 0") auto
        then have "((delay d2, run_weight (sm_cs (j_machine j2)) j2), x) \<in> less_than <*lex*> less_than"
          using "1.prems" by auto
        from "1.IH" [OF this refl] show ?thesis unfolding eq using tick_inv [OF ss i1 tk] by blast
      qed
    qed
  qed
  then show ?thesis using assms(2) by blast
qed

lemma commit_returns:
  assumes ss: "ss = sector_size L" and wf: "wf d" and j: "journal_idle F L j"
    and v: "flash_valid F" "layout_wf L" "no_wrap L"
    and snap: "snapshot_wf snap" and p: "fl_poll F d = (s0, d1)" "s0 \<noteq> S_busy"
    and m: "reads_ok F L d1" "journal_wf L (mem d1)" "journal_current L (mem d1) old"
    and now: "fst (fl_now F (snd (fl_poll F d1))) = start"
    and t: "timeout = (if limit = 0 then operation_timeout L else limit)"
  shows "\<exists>r. journal_commit F L snap limit initialize j d = Some r"
proof -
  let ?nxt = "snap\<lparr>snap_sequence := snap_sequence old + 1\<rparr>"
  obtain s1 j1 d1' where b: "journal_begin F L snap initialize j d = Some (s1, j1, d1')" "d1' = snd (fl_poll F d1)"
    "s1 = S_ok \<longrightarrow> state_inv L old ?nxt j1 d1'"
    using begin_correct [OF wf j v snap p m] by blast
  obtain d2 where n: "fl_now F d1' = (start, d2)" using now b(2) by (metis prod.collapse)
  show ?thesis
  proof (cases "s1 = S_ok")
    case True
    then have "state_inv L old ?nxt j1 d2" using b(3) now_law [OF _ n] by simp
    from run_returns [OF ss this] show ?thesis using b(1) True n t by (auto simp: journal_commit_def Let_def)
  qed (use b(1) in \<open>simp add: journal_commit_def Let_def\<close>)
qed

end

end
