(* ===== verification/Boot_Control.thy ===== *)
theory Boot_Control
  imports Journal_Commit
begin

text \<open>
  The boot policy, \<open>Control\<close> of lib/boot/control.h and control.cpp: which slot is booted, the single
  trial of a new image, and its confirmation. A \<open>Control\<close> object is its journal; flash, layout and CRC
  service are parameters, as they are constant members.
\<close>

section \<open>Control\<close>

record selection =
  sel_status :: status
  sel_slot :: nat
  sel_trial :: bool
  sel_image :: image

definition selection_failed :: "status \<Rightarrow> selection" where
  "selection_failed s = \<lparr>sel_status = s, sel_slot = 2, sel_trial = False, sel_image = default_image\<rparr>"

text \<open>The loop of \<open>verify\<close> over the image in pieces of 256 bytes.\<close>

function verify_loop ::
  "'d flash \<Rightarrow> 'c crc_backend \<Rightarrow> 'd \<Rightarrow> nat \<Rightarrow> nat \<Rightarrow> nat \<Rightarrow> u32 \<Rightarrow> status + u32" where
  "verify_loop F be d slot bytes offset crc =
     (if offset < bytes then
        let count = min 256 (bytes - offset)
        in case fl_read F d (slot + offset) count of (result, piece) \<Rightarrow>
             if result \<noteq> S_ok then Inl result
             else verify_loop F be d slot bytes (offset + count) (service_update be crc piece)
      else Inr crc)"
  by pat_completeness auto
termination
  by (relation "measure (\<lambda>(_, _, _, _, bytes, offset, _). bytes - offset)") auto

declare verify_loop.simps [simp del]

definition control_verify ::
  "'d flash \<Rightarrow> layout \<Rightarrow> 'c crc_backend \<Rightarrow> 'd \<Rightarrow> nat \<Rightarrow> image \<Rightarrow> status" where
  "control_verify F L be d slot im =
     (if \<not> flash_valid F \<or> \<not> layout_valid L \<or> slot \<ge> 2 \<or> img_size im = 0 \<or>
         unat (img_size im) > slot_size L \<or> img_product im \<noteq> product L \<or>
         img_revision im \<noteq> revision L \<or> img_installation im = 0
      then S_incompatible
      else case verify_loop F be d (slots L ! slot) (unat (img_size im)) 0 0 of
             Inl result \<Rightarrow> result
           | Inr crc \<Rightarrow> if crc = img_crc im then S_ok else S_checksum_error)"

text \<open>The loop over the candidate slots of \<open>select\<close>.\<close>

fun select_slots ::
  "'d flash \<Rightarrow> layout \<Rightarrow> 'c crc_backend \<Rightarrow> snapshot \<Rightarrow> nat list \<Rightarrow> status \<Rightarrow> journal \<Rightarrow> 'd \<Rightarrow>
   (selection \<times> journal \<times> 'd) option" where
  "select_slots F L be snap [] failure j d = Some (selection_failed failure, j, d)"
| "select_slots F L be snap (slot # rest) failure j d =
     (let im = snap_images snap ! slot
      in if img_state im \<noteq> I_pending \<and> img_state im \<noteq> I_confirmed then
           select_slots F L be snap rest failure j d
         else
           let result = control_verify F L be d slot im
           in if result \<noteq> S_ok then select_slots F L be snap rest result j d
              else if img_state im = I_pending then
                let im = im\<lparr>img_state := I_trial\<rparr>;
                    snap = snap\<lparr>snap_images := (snap_images snap)[slot := im]\<rparr>
                in case journal_commit F L snap 0 False j d of
                     None \<Rightarrow> None
                   | Some (result, j, d) \<Rightarrow>
                       if result \<noteq> S_ok then Some (selection_failed result, j, d)
                       else Some (\<lparr>sel_status = S_ok, sel_slot = slot, sel_trial = True, sel_image = im\<rparr>, j, d)
              else Some (\<lparr>sel_status = S_ok, sel_slot = slot, sel_trial = False, sel_image = im\<rparr>, j, d))"

definition reject_trial :: "image \<Rightarrow> image" where
  "reject_trial im = (if img_state im = I_trial then im\<lparr>img_state := I_rejected\<rparr> else im)"

definition control_select ::
  "'d flash \<Rightarrow> layout \<Rightarrow> 'c crc_backend \<Rightarrow> journal \<Rightarrow> 'd \<Rightarrow> (selection \<times> journal \<times> 'd) option" where
  "control_select F L be j d =
     (case journal_load F L j default_snapshot d of (result, snap, j, d) \<Rightarrow>
        if result \<noteq> S_ok then Some (selection_failed result, j, d)
        else
          let rejected = list_ex (\<lambda>im. img_state im = I_trial) (snap_images snap);
              snap = snap\<lparr>snap_images := map reject_trial (snap_images snap)\<rparr>
          in case (if rejected then journal_commit F L snap 0 False j d else Some (S_ok, j, d)) of
               None \<Rightarrow> None
             | Some (result, j, d) \<Rightarrow>
                 if result \<noteq> S_ok then Some (selection_failed result, j, d)
                 else
                   let newest = (if img_installation (snap_images snap ! 1) > img_installation (snap_images snap ! 0)
                                 then 1 else 0)
                   in select_slots F L be snap [newest, 1 - newest] S_not_found j d)"

definition confirm_image ::
  "'d flash \<Rightarrow> layout \<Rightarrow> nat \<Rightarrow> journal \<Rightarrow> 'd \<Rightarrow> (status \<times> journal \<times> 'd) option" where
  "confirm_image F L running_slot j d =
     (if running_slot \<ge> 2 then Some (S_unsupported, j, d)
      else case journal_load F L j default_snapshot d of (result, snap, j, d) \<Rightarrow>
        if result \<noteq> S_ok then Some (result, j, d)
        else
          let im = snap_images snap ! running_slot
          in if img_state im = I_confirmed then Some (S_ok, j, d)
             else if img_state im \<noteq> I_trial then Some (S_not_running, j, d)
             else journal_commit F L (snap\<lparr>snap_images := (snap_images snap)
                    [running_slot := im\<lparr>img_state := I_confirmed\<rparr>]\<rparr>) 0 False j d)"

section \<open>Verification of an image\<close>

text \<open>A CRC backend computes the CRC: what lib/util/crc32.h asks of one.\<close>

definition crc_faithful :: "'c crc_backend \<Rightarrow> bool" where
  "crc_faithful be \<longleftrightarrow> (\<forall>v bs. service_update be v bs = crc32_update v bs)"

definition slot_bytes :: "layout \<Rightarrow> (nat \<Rightarrow> byte) \<Rightarrow> nat \<Rightarrow> nat \<Rightarrow> byte list" where
  "slot_bytes L m slot n = map m [slots L ! slot..<slots L ! slot + n]"

lemma slot_outside:
  assumes "layout_valid L" "k < 2" "slots L ! k \<le> x" "x < slots L ! k + slot_size L"
  shows "x \<notin> metadata_area L"
proof -
  have "\<not> (metadata L ! b < slots L ! k + slot_size L \<and> slots L ! k < metadata L ! b + sector_size L)" if "b < 2" for b
    using assms(1,2) that by (auto simp: layout_valid_def layout_regions_def upt_rec less_2_cases_iff)
  then show ?thesis using assms(3,4) by (fastforce simp: metadata_area_def)
qed

text \<open>The image in a slot is fit to run: the right product, inside the slot, and with the CRC it was installed with.\<close>

definition image_intact :: "layout \<Rightarrow> (nat \<Rightarrow> byte) \<Rightarrow> nat \<Rightarrow> image \<Rightarrow> bool" where
  "image_intact L m slot im \<longleftrightarrow> slot < 2 \<and> img_size im \<noteq> 0 \<and> unat (img_size im) \<le> slot_size L \<and>
     img_product im = product L \<and> img_revision im = revision L \<and> img_installation im \<noteq> 0 \<and>
     crc32_calculate (slot_bytes L m slot (unat (img_size im))) = img_crc im"

lemma image_intact_frame:
  assumes "layout_valid L" "\<And>x. x \<notin> metadata_area L \<Longrightarrow> m' x = m x" "image_intact L m slot im"
  shows "image_intact L m' slot im"
proof -
  have s: "slot < 2" "unat (img_size im) \<le> slot_size L" using assms(3) by (auto simp: image_intact_def)
  have "slot_bytes L m' slot (unat (img_size im)) = slot_bytes L m slot (unat (img_size im))"
    unfolding slot_bytes_def using slot_outside [OF assms(1) s(1)] s(2) assms(2) by (intro map_cong) auto
  then show ?thesis using assms(3) by (simp add: image_intact_def)
qed

lemma verify_loop_error: "verify_loop F be d slot n offset crc \<noteq> Inl S_ok"
proof (induction F be d slot n offset crc rule: verify_loop.induct)
  case (1 F be d slot n offset crc)
  then show ?case by (subst verify_loop.simps) (auto simp: Let_def split: prod.split)
qed

context flash_device
begin

lemma verify_loop_crc:
  assumes "wf d" "crc_faithful be"
  shows "verify_loop F be d slot n offset crc = Inr c \<Longrightarrow> offset \<le> n \<Longrightarrow>
    c = crc32_update crc (map (mem d) [slot + offset..<slot + n])"
proof (induction "n - offset" arbitrary: offset crc rule: less_induct)
  case less
  show ?case
  proof (cases "offset < n")
    case False
    then show ?thesis using less.prems by (subst (asm) verify_loop.simps) (simp add: crc32_update_Nil)
  next
    case True
    define count where "count = min 256 (n - offset)"
    obtain piece where r: "fl_read F d (slot + offset) count = (S_ok, piece)"
      and v: "verify_loop F be d slot n (offset + count) (service_update be crc piece) = Inr c"
      using less.prems(1) True by (subst (asm) verify_loop.simps) (auto simp: Let_def count_def split: prod.splits if_splits)
    have p: "piece = map (mem d) [slot + offset..<slot + offset + count]" using read_ok [OF assms(1) r] .
    have "n - (offset + count) < n - offset" "offset + count \<le> n" using True by (auto simp: count_def)
    from less.hyps [OF this(1) v this(2)] have "c = crc32_update crc (piece @ map (mem d) [slot + (offset + count)..<slot + n])"
      using assms(2) by (simp add: crc_faithful_def crc32_update_append)
    also have "piece @ map (mem d) [slot + (offset + count)..<slot + n] = map (mem d) [slot + offset..<slot + n]"
      using \<open>offset + count \<le> n\<close> upt_add_eq_append [of "slot + offset" "slot + offset + count" "n - (offset + count)"]
      unfolding p map_append [symmetric] by (simp add: add.assoc)
    finally show ?thesis .
  qed
qed

lemma verify_intact:
  assumes "wf d" "crc_faithful be" "control_verify F L be d slot im = S_ok"
  shows "image_intact L (mem d) slot im"
proof -
  obtain c where "verify_loop F be d (slots L ! slot) (unat (img_size im)) 0 0 = Inr c" "c = img_crc im"
    and "slot < 2" "img_size im \<noteq> 0" "unat (img_size im) \<le> slot_size L" "img_product im = product L"
      "img_revision im = revision L" "img_installation im \<noteq> 0"
    using assms(3) verify_loop_error [of F be d "slots L ! slot" "unat (img_size im)" 0 0]
    by (auto simp: control_verify_def split: if_splits sum.splits)
  then show ?thesis
    using verify_loop_crc [OF assms(1,2), of "slots L ! slot" "unat (img_size im)" 0 0 c]
    by (simp add: image_intact_def slot_bytes_def crc32_calculate_def)
qed

end

section \<open>Stored snapshots\<close>

lemma decode_wf:
  assumes "decode b = Some s" "length b = 256"
  shows "snapshot_wf s"
  using assms by (auto simp: decode_def decode_image_def Let_def snapshot_wf_def image_wf_def split: if_splits option.splits)

lemma current_wf: "journal_current L m s \<Longrightarrow> snapshot_wf s"
  by (auto simp: journal_current_def dest!: decode_wf)

text \<open>The device is idle and its journal holds the snapshot \<open>s\<close>.\<close>

definition stored ::
  "'d flash \<Rightarrow> layout \<Rightarrow> ('d \<Rightarrow> nat \<Rightarrow> byte) \<Rightarrow> ('d \<Rightarrow> flash_op option) \<Rightarrow> ('d \<Rightarrow> bool) \<Rightarrow> journal \<Rightarrow> 'd \<Rightarrow> snapshot \<Rightarrow> bool" where
  "stored F L mem pending good j d s \<longleftrightarrow> good d \<and> pending d = None \<and> journal_idle F L j \<and>
     journal_wf L (mem d) \<and> journal_current L (mem d) s"

text \<open>
  The images that are stored when a slot of the snapshot is selected: a pending one is on trial.
\<close>

definition selected :: "snapshot \<Rightarrow> nat \<Rightarrow> image list" where
  "selected snap slot =
     (let im = snap_images snap ! slot
      in if img_state im = I_pending then (snap_images snap)[slot := im\<lparr>img_state := I_trial\<rparr>] else snap_images snap)"

lemma image_wf_state [simp]: "image_wf (im\<lparr>img_state := s\<rparr>) = image_wf im"
  by (simp add: image_wf_def)

lemma snapshot_wf_update:
  "snapshot_wf s \<Longrightarrow> k < 2 \<Longrightarrow> snapshot_wf (s\<lparr>snap_images := (snap_images s)[k := (snap_images s ! k)\<lparr>img_state := x\<rparr>]\<rparr>)"
  by (auto simp: snapshot_wf_def list_all_length nth_list_update)

text \<open>
  What the boot policy relies on besides the device contract: a valid configuration, and a device that
  answers when it is idle.
\<close>

locale boot_flash = flash_device F mem pending wf "sector_size L"
  for F :: "'d flash" and mem pending wf and L +
  assumes config: "wf d \<Longrightarrow> layout_wf L \<and> no_wrap L"
    and bound: "flash_valid F"
    and idle_reads: "wf d \<Longrightarrow> pending d = None \<Longrightarrow> reads_ok F L d"
    and idle_poll: "wf d \<Longrightarrow> pending d = None \<Longrightarrow> fst (fl_poll F d) \<noteq> S_busy"
begin

lemma poll_idle:
  assumes "wf d" "pending d = None" "fl_poll F d = (s, d')"
  shows "wf d'" "pending d' = None" "mem d' = mem d" "s \<noteq> S_busy" "reads_ok F L d'"
  using poll_law [OF assms(1,3)] assms idle_poll [OF assms(1,2)] idle_reads [of d'] by auto

lemma journal_idle_latest [simp]: "journal_idle F L (j\<lparr>j_latest := a\<rparr>) = journal_idle F L j"
  by (simp add: journal_idle_def journal_ok_def)

lemma load_stored:
  assumes "stored F L mem pending wf j d s"
  obtains j' d' where "journal_load F L j snap d = (S_ok, s, j', d')" "stored F L mem pending wf j' d' s" "mem d' = mem d"
proof -
  have st: "wf d" "pending d = None" "journal_idle F L j" "journal_wf L (mem d)" "journal_current L (mem d) s"
    using assms by (auto simp: stored_def)
  obtain p d' where p: "fl_poll F d = (p, d')" by fastforce
  note i = poll_idle [OF st(1,2) p]
  obtain a where "journal_load F L j snap d = (S_ok, s, j\<lparr>j_latest := a\<rparr>, d')"
    using load_current [OF st(1) bound _ p i(4,5), of s j snap] config st i by (auto simp: layout_wf_def)
  then show thesis using that [of "j\<lparr>j_latest := a\<rparr>" d'] st i by (simp add: stored_def)
qed

lemma commit_stored:
  assumes "stored F L mem pending wf j d s" "snapshot_wf snap" "journal_commit F L snap t i j d = Some (S_ok, j', d')"
  shows "stored F L mem pending wf j' d' (snap\<lparr>snap_sequence := snap_sequence s + 1\<rparr>)"
    and "x \<notin> metadata_area L \<Longrightarrow> mem d' x = mem d x"
proof -
  have st: "wf d" "pending d = None" "journal_idle F L j" "journal_wf L (mem d)" "journal_current L (mem d) s"
    using assms by (auto simp: stored_def)
  obtain p d1 where p: "fl_poll F d = (p, d1)" by fastforce
  note i = poll_idle [OF st(1,2) p]
  have layout: "layout_wf L" "no_wrap L" using config [OF st(1)] by auto
  note c = commit_correct [OF refl st(1,3) bound layout assms(2) p i(4,5) _ _ assms(3), of s]
  show "stored F L mem pending wf j' d' (snap\<lparr>snap_sequence := snap_sequence s + 1\<rparr>)"
    using c st i by (simp add: stored_def)
  show "mem d' x = mem d x" if "x \<notin> metadata_area L" using c st i that by simp
qed

text \<open>The slot loop.\<close>

lemma select_slots_ok:
  assumes "stored F L mem pending wf j d s" "snap_images s = snap_images snap" "snapshot_wf snap" "crc_faithful be"
    "select_slots F L be snap ks failure j d = Some (sel, j', d')" "sel_status sel = S_ok" "failure \<noteq> S_ok"
  shows "sel_slot sel \<in> set ks \<and> sel_slot sel < 2 \<and>
    img_state (snap_images snap ! sel_slot sel) \<in> {I_pending, I_confirmed} \<and>
    sel_trial sel = (img_state (snap_images snap ! sel_slot sel) = I_pending) \<and>
    image_intact L (mem d') (sel_slot sel) (snap_images snap ! sel_slot sel) \<and>
    (\<exists>s'. stored F L mem pending wf j' d' s' \<and> snap_images s' = selected snap (sel_slot sel)) \<and>
    (\<forall>k \<in> set (takeWhile (\<lambda>k. k \<noteq> sel_slot sel) ks).
       img_state (snap_images snap ! k) \<in> {I_pending, I_confirmed} \<longrightarrow>
       control_verify F L be d k (snap_images snap ! k) \<noteq> S_ok)"
  using assms(5,7)
proof (induction ks arbitrary: failure)
  case Nil
  then show ?case using assms(6) by (auto simp: selection_failed_def)
next
  case (Cons k ks)
  let ?im = "snap_images snap ! k"
  let ?r = "control_verify F L be d k ?im"
  consider (skip) "img_state ?im \<notin> {I_pending, I_confirmed}" | (bad) "img_state ?im \<in> {I_pending, I_confirmed}" "?r \<noteq> S_ok"
    | (trial) "img_state ?im = I_pending" "?r = S_ok" | (run) "img_state ?im = I_confirmed" "?r = S_ok" by auto
  then show ?case
  proof cases
    case skip
    then have "select_slots F L be snap ks failure j d = Some (sel, j', d')" using Cons.prems(1) by (simp add: Let_def)
    from Cons.IH [OF this Cons.prems(2)] skip show ?thesis by auto
  next
    case bad
    then have "select_slots F L be snap ks ?r j d = Some (sel, j', d')" using Cons.prems(1) by (auto simp: Let_def)
    from Cons.IH [OF this bad(2)] bad show ?thesis by auto
  next
    case trial
    have wf: "wf d" using assms(1) by (simp add: stored_def)
    have int: "image_intact L (mem d) k ?im" using verify_intact [OF wf assms(4) trial(2)] .
    then have k: "k < 2" by (simp add: image_intact_def)
    let ?snap = "snap\<lparr>snap_images := (snap_images snap)[k := ?im\<lparr>img_state := I_trial\<rparr>]\<rparr>"
    have c: "journal_commit F L ?snap 0 False j d = Some (S_ok, j', d')" and sel: "sel_slot sel = k" "sel_trial sel"
      using Cons.prems(1) trial assms(6) by (auto simp: Let_def selection_failed_def split: option.splits if_splits)
    note cs = commit_stored [OF assms(1) snapshot_wf_update [OF assms(3) k] c]
    have "layout_valid L" using config [OF wf] by (simp add: layout_wf_def)
    from image_intact_frame [OF this cs(2) int] cs(1) sel trial k show ?thesis
      by (auto simp: selected_def intro!: exI)
  next
    case run
    have wf: "wf d" using assms(1) by (simp add: stored_def)
    have int: "image_intact L (mem d) k ?im" using verify_intact [OF wf assms(4) run(2)] .
    then have k: "k < 2" by (simp add: image_intact_def)
    have "sel_slot sel = k" "\<not> sel_trial sel" "j' = j" "d' = d" using Cons.prems(1) run by (auto simp: Let_def)
    then show ?thesis using run int k assms(1,2) by (auto simp: selected_def)
  qed
qed

lemma select_ok:
  assumes "stored F L mem pending wf j d s" "crc_faithful be"
    "control_select F L be j d = Some (sel, j', d')" "sel_status sel = S_ok"
  shows "sel_slot sel < 2" "img_state (snap_images s ! sel_slot sel) \<in> {I_pending, I_confirmed}"
    "sel_trial sel = (img_state (snap_images s ! sel_slot sel) = I_pending)"
    "image_intact L (mem d') (sel_slot sel) (snap_images s ! sel_slot sel)"
    "\<exists>s'. stored F L mem pending wf j' d' s' \<and>
       snap_images s' = selected (s\<lparr>snap_images := map reject_trial (snap_images s)\<rparr>) (sel_slot sel)"
proof -
  obtain j1 d1 where l: "journal_load F L j default_snapshot d = (S_ok, s, j1, d1)" "stored F L mem pending wf j1 d1 s"
    using load_stored [OF assms(1)] by blast
  have w: "snapshot_wf s" using assms(1) current_wf by (auto simp: stored_def)
  let ?snap = "s\<lparr>snap_images := map reject_trial (snap_images s)\<rparr>"
  have w1: "snapshot_wf ?snap"
    using w by (auto simp: snapshot_wf_def list_all_iff reject_trial_def)
  obtain j2 d2 newest where c: "(if list_ex (\<lambda>im. img_state im = I_trial) (snap_images s) then journal_commit F L ?snap 0 False j1 d1
      else Some (S_ok, j1, d1)) = Some (S_ok, j2, d2)"
    and sl: "select_slots F L be ?snap [newest, 1 - newest] S_not_found j2 d2 = Some (sel, j', d')"
    using assms(3,4) l(1) by (auto simp: control_select_def selection_failed_def Let_def split: option.splits if_splits)
  obtain s2 where s2: "stored F L mem pending wf j2 d2 s2" "snap_images s2 = snap_images ?snap"
  proof (cases "list_ex (\<lambda>im. img_state im = I_trial) (snap_images s)")
    case True
    then show thesis using that c commit_stored(1) [OF l(2) w1, of 0 False j2 d2] by simp
  next
    case False
    then have "map reject_trial (snap_images s) = snap_images s"
      by (auto simp: reject_trial_def list_ex_iff intro!: map_idI)
    then show thesis using that [of s] c False l(2) by simp
  qed
  note sel = select_slots_ok [OF s2 w1 assms(2) sl assms(4)]
  have k: "sel_slot sel < 2" using sel by simp
  then have n: "snap_images ?snap ! sel_slot sel = reject_trial (snap_images s ! sel_slot sel)"
    using w by (simp add: snapshot_wf_def)
  then have n': "snap_images ?snap ! sel_slot sel = snap_images s ! sel_slot sel"
    using sel by (auto simp: reject_trial_def split: if_splits)
  show "sel_slot sel < 2" "img_state (snap_images s ! sel_slot sel) \<in> {I_pending, I_confirmed}"
    "sel_trial sel = (img_state (snap_images s ! sel_slot sel) = I_pending)"
    "image_intact L (mem d') (sel_slot sel) (snap_images s ! sel_slot sel)"
    "\<exists>s'. stored F L mem pending wf j' d' s' \<and> snap_images s' = selected ?snap (sel_slot sel)"
    using sel unfolding n' by simp_all
qed

lemma current_stored_unique:
  assumes "stored F L mem pending wf j d s" "stored F L mem pending wf j' d' s'" "mem d' = mem d"
  shows "s' = s"
  using assms current_unique [of L "mem d" s' s] by (auto simp: stored_def)

text \<open>A trial that was not confirmed is not selected again.\<close>

lemma trial_once:
  assumes "stored F L mem pending wf j d s" "crc_faithful be"
    "control_select F L be j d = Some (sel, j1, d1)" "sel_status sel = S_ok" "sel_trial sel"
    and reboot: "stored F L mem pending wf j2 d2 s2" "mem d2 = mem d1"
    and again: "control_select F L be j2 d2 = Some (sel2, j3, d3)" "sel_status sel2 = S_ok"
  shows "sel_slot sel2 \<noteq> sel_slot sel"
proof
  assume eq: "sel_slot sel2 = sel_slot sel"
  note s = select_ok [OF assms(1-4)]
  obtain s' where s': "stored F L mem pending wf j1 d1 s'"
    "snap_images s' = selected (s\<lparr>snap_images := map reject_trial (snap_images s)\<rparr>) (sel_slot sel)"
    using s(5) by blast
  have "length (snap_images s) = 2" using assms(1) current_wf by (auto simp: stored_def snapshot_wf_def)
  then have "img_state (snap_images s' ! sel_slot sel) = I_trial"
    using s(1,3) assms(5) s'(2) by (simp add: selected_def Let_def reject_trial_def)
  moreover have "s2 = s'" using current_stored_unique [OF s'(1) reboot] .
  moreover have "img_state (snap_images s2 ! sel_slot sel) \<in> {I_pending, I_confirmed}"
    using select_ok(2) [OF reboot(1) assms(2) again] eq by simp
  ultimately show False by auto
qed

lemma confirm_ok:
  assumes "stored F L mem pending wf j d s" "confirm_image F L slot j d = Some (S_ok, j', d')"
  shows "\<exists>s'. stored F L mem pending wf j' d' s' \<and>
    snap_images s' = (snap_images s)[slot := (snap_images s ! slot)\<lparr>img_state := I_confirmed\<rparr>] \<and>
    img_state (snap_images s ! slot) \<in> {I_trial, I_confirmed} \<and> slot < 2"
proof -
  obtain j1 d1 where l: "journal_load F L j default_snapshot d = (S_ok, s, j1, d1)" "stored F L mem pending wf j1 d1 s"
    using load_stored [OF assms(1)] by blast
  have w: "snapshot_wf s" using assms(1) current_wf by (auto simp: stored_def)
  have k: "slot < 2" using assms(2) by (auto simp: confirm_image_def split: if_splits)
  let ?im = "snap_images s ! slot"
  consider "img_state ?im = I_confirmed" "j' = j1" "d' = d1"
    | "img_state ?im = I_trial" "journal_commit F L (s\<lparr>snap_images := (snap_images s)[slot := ?im\<lparr>img_state := I_confirmed\<rparr>]\<rparr>)
        0 False j1 d1 = Some (S_ok, j', d')"
    using assms(2) l(1) k by (auto simp: confirm_image_def Let_def split: if_splits)
  then show ?thesis
  proof cases
    case 1
    then have "?im\<lparr>img_state := I_confirmed\<rparr> = ?im" by (metis image.surjective image.update_convs(4))
    then have upd: "(snap_images s)[slot := ?im\<lparr>img_state := I_confirmed\<rparr>] = snap_images s" by (metis list_update_id)
    show ?thesis unfolding upd using 1 l(2) k by auto
  next
    case 2
    then show ?thesis using commit_stored(1) [OF l(2) snapshot_wf_update [OF w k] 2(2)] k by auto
  qed
qed

end

end
