(* ===== verification/Journal_Prompt.thy ===== *)
theory Journal_Prompt
  imports Boot_Control
begin

text \<open>
  A device on which nothing goes wrong: operations on the journal's sectors are accepted, end well after
  finitely many polls, and the clock stays within the time limit. On such a device \<open>Journal::commit\<close>
  returns \<open>ok\<close>, so that the theorems about commits that succeed are about something.
\<close>

locale prompt_flash = boot_flash F mem pending wf L
  for F :: "'d flash" and mem pending wf L +
  fixes patience :: "'d \<Rightarrow> nat" and clk :: "'d \<Rightarrow> time" and base :: time
  assumes erase_prompt: "wf d \<Longrightarrow> pending d = None \<Longrightarrow> a \<in> set (metadata L) \<Longrightarrow> fst (fl_erase F d a) = S_ok"
    and program_prompt: "wf d \<Longrightarrow> pending d = None \<Longrightarrow> T \<in> record_addrs L \<Longrightarrow> k + length bs \<le> 256 \<Longrightarrow>
      write_size L dvd k \<Longrightarrow> length bs = write_size L \<Longrightarrow>
      (\<And>i. i < length bs \<Longrightarrow> mem d (T + k + i) = 0xff) \<Longrightarrow> fst (fl_program F d (T + k) bs) = S_ok"
    and poll_prompt: "wf d \<Longrightarrow> pending d \<noteq> None \<Longrightarrow> fl_poll F d = (s, d') \<Longrightarrow>
      s = S_ok \<or> s = S_busy \<and> patience d' < patience d"
    and record_reads: "wf d \<Longrightarrow> pending d = None \<Longrightarrow> a \<in> record_addrs L \<Longrightarrow> fst (fl_read F d a kRecordSize) = S_ok"
    and clock_window: "wf d \<Longrightarrow> fl_now F d = (t, d') \<Longrightarrow> base \<le> clk d \<and> clk d \<le> t \<and> clk d' = t \<and>
      t - base < operation_timeout L \<and> patience d' \<le> patience d"
    and clk_erase: "wf d \<Longrightarrow> fl_erase F d a = (s, d') \<Longrightarrow> clk d' = clk d"
    and clk_program: "wf d \<Longrightarrow> fl_program F d a bs = (s, d') \<Longrightarrow> clk d' = clk d"
    and clk_poll: "wf d \<Longrightarrow> fl_poll F d = (s, d') \<Longrightarrow> clk d' = clk d"

text \<open>How far an operation is: the copy of a checkpoint comes first.\<close>

definition run_rank :: "journal_state \<Rightarrow> journal \<Rightarrow> nat" where
  "run_rank cs j =
     (if accept_state cs then 3000 else if cs = J_erase then 2500 else if cs = J_erase_wait then 2000
      else if cs = J_write then (256 - j_offset j) * 3 + 2 else if cs = J_write_wait then (256 - j_offset j) * 3 + 1
      else 0)"

abbreviation checkpoints :: "journal \<Rightarrow> nat" where
  "checkpoints j \<equiv> of_bool (j_checkpoint j)"

context prompt_flash
begin

definition nearer :: "journal_state \<Rightarrow> journal \<Rightarrow> 'd \<Rightarrow> journal_state \<Rightarrow> journal \<Rightarrow> 'd \<Rightarrow> bool" where
  "nearer ns j' d' cs j d \<longleftrightarrow> checkpoints j' < checkpoints j \<or> checkpoints j' = checkpoints j \<and>
     (run_rank ns j' < run_rank cs j \<or> run_rank ns j' = run_rank cs j \<and> patience d' < patience d)"

definition good_step :: "journal_state \<Rightarrow> journal \<Rightarrow> 'd \<Rightarrow> journal_state \<Rightarrow> journal \<Rightarrow> 'd \<Rightarrow> bool" where
  "good_step ns j' d' cs j d \<longleftrightarrow> (j_status j' = S_ok \<or> j_status j' = S_busy \<and> nearer ns j' d' cs j d) \<and>
     clk d' = clk d \<and> j_operation_started j' = j_operation_started j \<and> \<not> j_requested j'"

lemma step_good:
  assumes "wf d" and inv: "journal_inv L old nxt cs j (mem d) (pending d)" and st: "j_status j = S_busy" "\<not> j_timed_out j"
    and step: "journal_step F L cs (j, d) = (ns, j', d')"
  shows "good_step ns j' d' cs j d"
proof -
  obtain M P er where job: "job L M P (j_target j) (j_record j) er" and b: "busy_inv L M er cs j (mem d) (pending d)"
    and cp: "j_checkpoint j \<longrightarrow> j_pending_target j \<in> set (metadata L)"
    using inv st(1) by (auto simp: journal_inv_def job_inv_def)
  have jb: "layout_wf L" "j_target j \<in> record_addrs L" "length (j_record j) = 256" "er \<Longrightarrow> j_target j \<in> set (metadata L)"
    using job by (auto simp: job_def)
  have ws: "write_size L = 16 \<or> write_size L = 32" using jb(1) layout_valid_sizes by (auto simp: layout_wf_def)
  have rq: "j_requested j = accept_state cs" using b by (simp add: busy_inv_def)
  have acc: "good_step ns j' d' cs j d" if "accept_state cs"
  proof -
    have "journal_step F L cs (j, d) = journal_accept cs j d" "j_offset j = 0"
      using that b by (cases cs; simp add: accept_state_def busy_inv_def)+
    then have "ns = (if j_erase_needed j then J_erase else J_write)" "j' = j\<lparr>j_requested := False\<rparr>" "d' = d"
      "j_offset j = 0"
      using step rq that by (simp_all add: journal_accept_def)
    then show ?thesis using that st by (simp add: good_step_def nearer_def run_rank_def accept_state_def)
  qed
  show ?thesis
  proof (cases cs)
    case J_erase
    then have "pending d = None" "er" using b by (auto simp: busy_inv_def)
    moreover obtain s d1 where e: "fl_erase F d (j_target j) = (s, d1)" by fastforce
    ultimately have "s = S_ok" using erase_prompt [OF assms(1) _ jb(4)] by simp
    then show ?thesis using J_erase step st e clk_erase [OF assms(1) e] rq
      by (auto simp: good_step_def nearer_def run_rank_def accept_state_def)
  next
    case J_write
    then have w: "pending d = None" "j_offset j < 256" "write_size L dvd j_offset j"
      "written L M (j_target j) (j_record j) er (j_offset j) (mem d)" using b by (auto simp: busy_inv_def)
    note u = unit_fits [OF job w(2,3)]
    let ?bs = "take (write_size L) (drop (j_offset j) (j_record j))"
    obtain s d1 where e: "fl_program F d (j_target j + j_offset j) ?bs = (s, d1)" by fastforce
    have "mem d (j_target j + j_offset j + i) = 0xff" if "i < length ?bs" for i
    proof -
      have "j_offset j + i < 256" using that u by simp
      then have "mem d (j_target j + (j_offset j + i)) = 0xff" using w(4) unfolding written_def by auto
      then show ?thesis by (simp add: add.assoc)
    qed
    then have "s = S_ok" using program_prompt [OF assms(1) w(1) jb(2) _ w(3), of ?bs] u e by simp
    then show ?thesis using J_write step st e clk_program [OF assms(1) e] rq
      by (auto simp: good_step_def nearer_def run_rank_def accept_state_def)
  next
    case J_verify
    then have w: "pending d = None" "written L M (j_target j) (j_record j) er 256 (mem d)" using b by (auto simp: busy_inv_def)
    obtain bs where r: "fl_read F d (j_target j) kRecordSize = (S_ok, bs)"
      using record_reads [OF assms(1) w(1) jb(2)] by (metis prod.collapse)
    have "rec_at (mem d) (j_target j) = j_record j"
      using w(2) jb(3) by (intro rec_at_eqI) (auto simp: written_def)
    then have "bs = j_record j" using read_ok [OF assms(1) r] by (simp add: rec_at_def)
    then show ?thesis using J_verify step st r rq
      by (auto simp: good_step_def nearer_def run_rank_def accept_state_def split: if_splits)
  next
    case J_erase_wait
    then have "pending d \<noteq> None" "j_offset j = 0" using b by (auto simp: busy_inv_def)
    moreover obtain s d1 where p: "fl_poll F d = (s, d1)" by fastforce
    moreover have "\<not> j_erase_only j" using inv by (auto simp: journal_inv_def job_inv_def)
    ultimately show ?thesis using J_erase_wait step st poll_prompt [OF assms(1) _ p] clk_poll [OF assms(1) p] rq
      by (auto simp: journal_wait_def good_step_def nearer_def run_rank_def accept_state_def split: if_splits)
  next
    case J_write_wait
    then have w: "pending d \<noteq> None" "j_offset j < 256" "write_size L dvd j_offset j" using b by (auto simp: busy_inv_def)
    moreover obtain s d1 where p: "fl_poll F d = (s, d1)" by fastforce
    ultimately show ?thesis using J_write_wait step st poll_prompt [OF assms(1) _ p] clk_poll [OF assms(1) p] rq ws
        unit_fits(1) [OF job w(2,3)]
      by (auto simp: journal_wait_def Let_def good_step_def nearer_def run_rank_def accept_state_def split: if_splits)
  qed (use acc in \<open>simp_all add: accept_state_def\<close>)
qed

lemma in_window:
  assumes "base \<le> a" "a \<le> t" "t - base < lim"
  shows "\<not> lim \<le> t - a"
proof -
  have "unat (t - a) = unat t - unat a" "unat (t - base) = unat t - unat base" "unat base \<le> unat a"
    using assms(1,2) by (auto simp: unat_sub word_le_nat_alt intro: order_trans)
  then show ?thesis using assms(3) by (simp add: word_less_nat_alt linorder_not_le)
qed

definition in_time :: "time \<Rightarrow> journal \<Rightarrow> 'd \<Rightarrow> bool" where
  "in_time start j d \<longleftrightarrow> base \<le> start \<and> start \<le> clk d \<and>
     (\<not> j_requested j \<longrightarrow> base \<le> j_operation_started j \<and> j_operation_started j \<le> clk d)"

lemma tick_good:
  assumes inv: "state_inv L old nxt j d" and st: "j_status j = S_busy" "\<not> j_timed_out j" and tm: "in_time start j d"
    and t: "journal_tick F L (j, d) = (j', d')"
  shows "(j_status j' = S_ok \<or> j_status j' = S_busy \<and> nearer (sm_cs (j_machine j')) j' d' (sm_cs (j_machine j)) j d) \<and>
    in_time start j' d'"
proof -
  obtain t0 d0 where n: "fl_now F d = (t0, d0)" by fastforce
  have w: "wf d" using inv by blast
  note c = clock_window [OF w n]
  define j0 where "j0 = (if j_requested j then j\<lparr>j_operation_started := t0\<rparr> else j)"
  have "tick_clock F L j d = (j0, d0)"
  proof (cases "j_requested j")
    case False
    then have "base \<le> j_operation_started j" "j_operation_started j \<le> t0"
      using tm c order_trans unfolding in_time_def by blast+
    from in_window [OF this] show ?thesis using n st c False by (simp add: tick_clock_def j0_def)
  qed (simp add: tick_clock_def j0_def n)
  then obtain ns j1 m where s: "journal_step F L (sm_cs (j_machine j)) (j0, d0) = (ns, j1, d')"
    and j': "j' = j1\<lparr>j_machine := m\<rparr>" "sm_cs m = ns"
    using journal_tick_split [OF _ t] inv by metis
  have i0: "wf d0" "journal_inv L old nxt (sm_cs (j_machine j)) j0 (mem d0) (pending d0)" "j_status j0 = S_busy" "\<not> j_timed_out j0"
    using inv now_law [OF w n] st by (simp_all add: j0_def frame_simps)
  note g = step_good [OF i0 s]
  have r: "checkpoints j0 = checkpoints j" "run_rank cs j0 = run_rank cs j" "run_rank cs j' = run_rank cs j1"
      "checkpoints j' = checkpoints j1" "j_status j' = j_status j1" "sm_cs (j_machine j') = ns" for cs
    by (simp_all add: j0_def j' run_rank_def)
  have "nearer ns j' d' (sm_cs (j_machine j)) j d" if "nearer ns j1 d' (sm_cs (j_machine j)) j0 d0"
    using that c unfolding nearer_def r by linarith
  moreover have "start \<le> t0" "base \<le> j_operation_started j0" "j_operation_started j0 \<le> t0"
    using tm c order_trans unfolding in_time_def j0_def by (auto split: if_split)
  then have "in_time start j' d'"
    using g tm c by (simp add: in_time_def good_step_def j')
  ultimately show ?thesis using g unfolding good_step_def r by blast
qed

lemma run_prompt:
  assumes "state_inv L old nxt j d" "j_status j = S_busy \<or> j_status j = S_ok" "in_time start j d"
    and lim: "operation_timeout L \<le> timeout"
  shows "\<exists>j' d'. journal_run F L start timeout j d = Some (j', d') \<and> j_status j' = S_ok \<and>
    wf d' \<and> base \<le> clk d'"
proof -
  have "\<exists>j' d'. journal_run F L start timeout j d = Some (j', d') \<and> j_status j' = S_ok \<and> wf d' \<and> base \<le> clk d'"
    if "x = (checkpoints j, run_rank (sm_cs (j_machine j)) j, patience d)" "state_inv L old nxt j d"
      "j_status j = S_busy \<or> j_status j = S_ok" "in_time start j d" for x j d
    using that
  proof (induction x arbitrary: j d rule: wf_induct_rule [OF wf_lex_prod [OF wf_less_than wf_lex_prod [OF wf_less_than wf_less_than]]])
    case (1 x)
    show ?case
    proof (cases "j_status j = S_busy")
      case False
      then show ?thesis using "1.prems" by (subst journal_run.simps) (use order_trans in \<open>auto simp: in_time_def\<close>)
    next
      case True
      have w: "wf d" using "1.prems"(2) by blast
      obtain t d1 where t: "fl_now F d = (t, d1)" by fastforce
      note c = clock_window [OF w t]
      let ?j = "j\<lparr>j_timed_out := (timeout \<le> t - start)\<rparr>"
      have nt: "\<not> timeout \<le> t - start"
      proof -
        have "start \<le> t" "t - base < timeout" using c "1.prems"(4) lim order_trans order_less_le_trans
          unfolding in_time_def by blast+
        then show ?thesis using in_window "1.prems"(4) by (simp add: in_time_def)
      qed
      obtain j2 d2 where tk: "journal_tick F L (?j, d1) = (j2, d2)" by fastforce
      have eq: "journal_run F L start timeout j d = journal_run F L start timeout j2 d2"
        using True t tk by (subst journal_run.simps) simp
      have i1: "state_inv L old nxt ?j d1" using "1.prems"(2) now_law [OF _ t] by (simp add: frame_simps journal_ok_def)
      have tm1: "in_time start ?j d1" using "1.prems"(4) c order_trans unfolding in_time_def by auto
      have g: "(j_status j2 = S_ok \<or> j_status j2 = S_busy \<and> nearer (sm_cs (j_machine j2)) j2 d2 (sm_cs (j_machine ?j)) ?j d1) \<and>
          in_time start j2 d2"
        using tick_good [OF i1 _ _ tm1 tk] True nt by simp
      have i2: "state_inv L old nxt j2 d2" using tick_inv [OF refl i1 tk] .
      show ?thesis
      proof (cases "j_status j2 = S_ok")
        case True
        then show ?thesis unfolding eq using g i2 by (subst journal_run.simps) (use order_trans in \<open>auto simp: in_time_def\<close>)
      next
        case False
        then have nr: "nearer (sm_cs (j_machine j2)) j2 d2 (sm_cs (j_machine ?j)) ?j d1" "j_status j2 = S_busy" using g by auto
        have "((checkpoints j2, run_rank (sm_cs (j_machine j2)) j2, patience d2), x) \<in> less_than <*lex*> less_than <*lex*> less_than"
        proof -
          have "run_rank cs ?j = run_rank cs j" "checkpoints ?j = checkpoints j" for cs by (simp_all add: run_rank_def)
          then show ?thesis using nr(1) c "1.prems"(1) unfolding nearer_def
            by (cases "j_checkpoint j"; cases "j_checkpoint j2") auto
        qed
        from "1.IH" [OF this refl i2] nr(2) g show ?thesis unfolding eq by blast
      qed
    qed
  qed
  then show ?thesis using assms by blast
qed

text \<open>\<open>commit\<close> succeeds, for a snapshot that is fit to be stored.\<close>

lemma commit_prompt:
  assumes st: "stored F L mem pending wf j d s" and bank: "fl_executing_bank F = None"
    and snap: "snapshot_wf snap" "snap_sequence s \<noteq> - 1" "snap_counter s \<le> snap_counter snap"
      "snapshot_committable (snap\<lparr>snap_sequence := snap_sequence s + 1\<rparr>)"
  shows "\<exists>j' d'. journal_commit F L snap 0 initialize j d = Some (S_ok, j', d')"
proof -
  have s: "wf d" "pending d = None" "journal_idle F L j" "journal_wf L (mem d)" "journal_current L (mem d) s"
    using st by (auto simp: stored_def)
  obtain p1 d1 where p1: "fl_poll F d = (p1, d1)" by fastforce
  note i1 = poll_idle [OF s(1,2) p1]
  obtain p2 d2 where p2: "fl_poll F d1 = (p2, d2)" by fastforce
  note i2 = poll_idle [OF i1(1,2) p2]
  have cfg: "layout_wf L" "no_wrap L" using config [OF s(1)] by auto
  let ?nxt = "snap\<lparr>snap_sequence := snap_sequence s + 1\<rparr>"
  obtain j1 where b: "journal_begin F L snap initialize j d = Some (S_ok, j1, d2)" "state_inv L s ?nxt j1 d2"
    using begin_correct [OF s(1,3) bound cfg snap(1) p1 i1(4,5), of s initialize] s i1 i2 p2 bank snap by auto
  obtain t d3 where t: "fl_now F d2 = (t, d3)" by fastforce
  note c = clock_window [OF i2(1) t]
  have b3: "state_inv L s ?nxt j1 d3" using b(2) now_law [OF i2(1) t] by simp
  have r: "j_status j1 = S_busy" "j_requested j1"
    using b(1) bank by (auto simp: journal_begin_def begin_place_def Let_def split: if_splits prod.splits option.splits)
  then have "in_time t j1 d3" using c order_trans unfolding in_time_def by auto
  from run_prompt [OF b3 _ this order_refl] r obtain j' d' where
    "journal_run F L t (operation_timeout L) j1 d3 = Some (j', d')" "j_status j' = S_ok" by blast
  then show ?thesis using b(1) t by (simp add: journal_commit_def)
qed

end

end
