(* ===== verification/File_Flash.thy ===== *)
theory File_Flash
  imports Flash
begin

text \<open>
  The host's flash device, class \<open>FileFlash\<close> of platform/host/flash.h and platform/host/flash.cpp:
  a file seen as NOR flash, with the two-state machine that runs the one operation in progress.

  The members are the fields of \<open>file_flash\<close>; the file's content is the byte list \<open>ff_file\<close>. What
  the kernel answers to the successive system calls is part of the state: for a read of a given
  place the outcomes of its \<open>pread\<close> calls, and the outcomes still to come of \<open>pwrite\<close> and \<open>fsync\<close>;
  when a list is used up the calls succeed in full. A clock is the function from the number of
  readings so far to the reading.
\<close>

section \<open>State\<close>

record geometry =
  geo_base :: nat
  geo_size :: nat
  geo_sector_size :: nat
  geo_write_size :: nat

datatype ff_state = FF_idle | FF_execute

datatype ff_operation = FFO_erase | FFO_program

datatype open_mode = OM_existing | OM_create

text \<open>What a \<open>pread\<close> or \<open>pwrite\<close> returns: interrupted, failed, or a number of bytes.\<close>

datatype io = Io_eintr | Io_error | Io_count nat

record file_flash =
  ff_open :: bool
  ff_geometry :: geometry
  ff_machine :: "ff_state state_machine"
  ff_operation :: ff_operation
  ff_requested :: bool
  ff_closed :: bool
  ff_address :: nat
  ff_word :: "byte list"
  ff_file :: "byte list"
  ff_pread :: "nat \<Rightarrow> nat \<Rightarrow> io list"
  ff_pwrite :: "io list"
  ff_fsync :: "bool list"
  ff_readings :: nat

section \<open>File access\<close>

text \<open>\<open>pwrite\<close> on the file's content; a write past the end leaves a hole of zero bytes.\<close>

definition file_write :: "byte list \<Rightarrow> nat \<Rightarrow> byte list \<Rightarrow> byte list" where
  "file_write f offset bytes =
     (let f = f @ replicate (offset - length f) 0
      in take offset f @ bytes @ drop (offset + length bytes) f)"

text \<open>The loop of \<open>Read\<close>: \<open>None\<close> is the return of \<open>io_error\<close>.\<close>

fun ff_read_loop :: "byte list \<Rightarrow> nat \<Rightarrow> nat \<Rightarrow> io list \<Rightarrow> byte list option" where
  "ff_read_loop f offset n [] = Some (take n (drop offset f))"
| "ff_read_loop f offset n (r # rs) =
     (if n = 0 then Some []
      else case r of
        Io_eintr \<Rightarrow> ff_read_loop f offset n rs
      | Io_error \<Rightarrow> None
      | Io_count c \<Rightarrow>
          let c = min c n
          in if c = 0 then None
             else map_option (\<lambda>rest. take c (drop offset f) @ rest) (ff_read_loop f (offset + c) (n - c) rs))"

text \<open>The loop of \<open>Write\<close>: whether all was written, the file, and the outcomes left.\<close>

fun ff_write :: "byte list \<Rightarrow> nat \<Rightarrow> byte list \<Rightarrow> io list \<Rightarrow> bool \<times> byte list \<times> io list" where
  "ff_write f offset bytes [] = (True, if bytes = [] then f else file_write f offset bytes, [])"
| "ff_write f offset bytes (r # rs) =
     (if bytes = [] then (True, f, r # rs)
      else case r of
        Io_eintr \<Rightarrow> ff_write f offset bytes rs
      | Io_error \<Rightarrow> (False, f, rs)
      | Io_count c \<Rightarrow>
          let c = min c (length bytes)
          in if c = 0 then (False, f, rs)
             else ff_write (file_write f offset (take c bytes)) (offset + c) (drop c bytes) rs)"

text \<open>The loops that write erased bytes in pieces of at most 4096, in \<open>open\<close> and in \<open>Step\<close>.\<close>

function ff_fill :: "byte list \<Rightarrow> nat \<Rightarrow> nat \<Rightarrow> nat \<Rightarrow> io list \<Rightarrow> bool \<times> byte list \<times> io list" where
  "ff_fill f base at limit rs =
     (if at < limit then
        let n = min 4096 (limit - at)
        in case ff_write f (base + at) (replicate n 0xff) rs of
             (written, f, rs) \<Rightarrow> if written then ff_fill f base (at + n) limit rs else (False, f, rs)
      else (True, f, rs))"
  by pat_completeness auto
termination by (relation "measure (\<lambda>(f, base, at, limit, rs). limit - at)") auto

declare ff_fill.simps [simp del]

section \<open>Operations\<close>

definition ff_close :: "file_flash \<Rightarrow> file_flash" where
  "ff_close d = d\<lparr>ff_open := False, ff_closed := True, ff_requested := False\<rparr>"

definition ff_range :: "file_flash \<Rightarrow> nat \<Rightarrow> nat \<Rightarrow> bool" where
  "ff_range d address n \<longleftrightarrow> ff_open d \<and> geo_base (ff_geometry d) \<le> address \<and>
     address - geo_base (ff_geometry d) \<le> geo_size (ff_geometry d) \<and>
     n \<le> geo_size (ff_geometry d) - (address - geo_base (ff_geometry d))"

definition ff_read :: "file_flash \<Rightarrow> nat \<Rightarrow> nat \<Rightarrow> status \<times> byte list" where
  "ff_read d address n =
     (if \<not> ff_open d then (S_not_running, [])
      else if \<not> ff_range d address n then (S_invalid_argument, [])
      else if ff_requested d \<or> sm_cs (ff_machine d) \<noteq> FF_idle then (S_busy, [])
      else case ff_read_loop (ff_file d) (address - geo_base (ff_geometry d)) n (ff_pread d address n) of
             None \<Rightarrow> (S_io_error, [])
           | Some bytes \<Rightarrow> (S_ok, bytes))"

definition ff_erase :: "file_flash \<Rightarrow> nat \<Rightarrow> status \<times> file_flash" where
  "ff_erase d address =
     (if \<not> ff_open d then (S_not_running, d)
      else if ff_requested d \<or> sm_cs (ff_machine d) \<noteq> FF_idle then (S_busy, d)
      else if \<not> ff_range d address (geo_sector_size (ff_geometry d)) \<or>
              address mod geo_sector_size (ff_geometry d) \<noteq> 0 then (S_invalid_argument, d)
      else (S_ok, d\<lparr>ff_address := address, ff_operation := FFO_erase, ff_requested := True\<rparr>))"

definition ff_program :: "file_flash \<Rightarrow> nat \<Rightarrow> byte list \<Rightarrow> status \<times> file_flash" where
  "ff_program d address bytes =
     (if \<not> ff_open d then (S_not_running, d)
      else if ff_requested d \<or> sm_cs (ff_machine d) \<noteq> FF_idle then (S_busy, d)
      else if length bytes \<noteq> geo_write_size (ff_geometry d) \<or>
              address mod geo_write_size (ff_geometry d) \<noteq> 0 \<or> \<not> ff_range d address (length bytes) then
        (S_invalid_argument, d)
      else case ff_read d address (geo_write_size (ff_geometry d)) of (status, old) \<Rightarrow>
        if status \<noteq> S_ok then (status, d)
        else if \<exists>i < length bytes. old ! i AND bytes ! i \<noteq> bytes ! i then (S_invalid_argument, d)
        else (S_ok, d\<lparr>ff_word := memcpy_at (ff_word d) 0 bytes, ff_address := address,
                       ff_operation := FFO_program, ff_requested := True\<rparr>))"

text \<open>The write that \<open>Step\<close> performs in state \<open>execute\<close>.\<close>

definition ff_execute :: "file_flash \<Rightarrow> bool \<times> byte list \<times> io list" where
  "ff_execute d =
     (let offset = ff_address d - geo_base (ff_geometry d)
      in case ff_operation d of
           FFO_program \<Rightarrow>
             ff_write (ff_file d) offset (take (geo_write_size (ff_geometry d)) (ff_word d)) (ff_pwrite d)
         | FFO_erase \<Rightarrow> ff_fill (ff_file d) offset 0 (geo_sector_size (ff_geometry d)) (ff_pwrite d))"

fun ff_step :: "ff_state \<Rightarrow> file_flash \<times> status \<Rightarrow> ff_state \<times> file_flash \<times> status" where
  "ff_step FF_idle (d, status) =
     (if ff_closed d then (FF_idle, d\<lparr>ff_closed := False\<rparr>, status)
      else if ff_requested d then (FF_execute, d, S_busy)
      else (FF_idle, d, status))"
| "ff_step FF_execute (d, status) =
     (if ff_closed d then (FF_idle, d\<lparr>ff_closed := False, ff_requested := False\<rparr>, status)
      else case ff_execute d of (written, f, rs) \<Rightarrow>
        let d = d\<lparr>ff_file := f, ff_pwrite := rs\<rparr>;
            synced = (case ff_fsync d of [] \<Rightarrow> True | ok # _ \<Rightarrow> ok);
            d = d\<lparr>ff_fsync := (if written then drop 1 (ff_fsync d) else ff_fsync d)\<rparr>
        in (FF_idle, d\<lparr>ff_requested := False\<rparr>, if \<not> written \<or> \<not> synced then S_io_error else status))"

definition ff_derived :: "(ff_state, file_flash \<times> status) derived" where
  "ff_derived = \<lparr>dv_initial = FF_idle, dv_index = (\<lambda>s. if s = FF_idle then 0 else 1), dv_count = 2,
     dv_step = ff_step, dv_on_tick = (\<lambda>_ ob. ob), dv_on_enter = (\<lambda>_ ob. ob),
     dv_on_exit = (\<lambda>_ ob. ob)\<rparr>"

definition ff_poll :: "file_flash \<Rightarrow> status \<times> file_flash" where
  "ff_poll d =
     (case sm_tick ff_derived (ff_machine d) (d, if ff_open d then S_ok else S_not_running) of
        (_, m, d, status) \<Rightarrow> (status, d\<lparr>ff_machine := m\<rparr>))"

definition ff_now :: "(nat \<Rightarrow> time) \<Rightarrow> file_flash \<Rightarrow> time \<times> file_flash" where
  "ff_now clock d = (clock (ff_readings d), d\<lparr>ff_readings := ff_readings d + 1\<rparr>)"

definition ff_driver :: "(nat \<Rightarrow> time) \<Rightarrow> file_flash flash" where
  "ff_driver clock = \<lparr>fl_bound = True, fl_read = ff_read, fl_erase = ff_erase, fl_program = ff_program,
     fl_poll = ff_poll, fl_now = ff_now clock, fl_executing_bank = None\<rparr>"

section \<open>Opening\<close>

definition geometry_valid :: "geometry \<Rightarrow> bool" where
  "geometry_valid g \<longleftrightarrow>
     \<not> (geo_size g = 0 \<or> geo_sector_size g = 0 \<or> (geo_write_size g \<noteq> 16 \<and> geo_write_size g \<noteq> 32) \<or>
        geo_sector_size g mod geo_write_size g \<noteq> 0 \<or> geo_size g mod geo_sector_size g \<noteq> 0 \<or>
        geo_base g mod geo_sector_size g \<noteq> 0 \<or> geo_base g + geo_size g > 2 ^ 32)"

text \<open>What the system answers when a path is opened, and the file behind it.\<close>

record open_result =
  or_opened :: bool
  or_locked :: bool
  or_regular :: bool
  or_content :: "byte list"

definition ff_open_file ::
  "bool \<Rightarrow> open_result \<Rightarrow> geometry \<Rightarrow> open_mode \<Rightarrow> file_flash \<Rightarrow> status \<times> file_flash" where
  "ff_open_file path r g mode d =
     (if ff_open d then (S_already_initialized, d)
      else if \<not> path \<or> \<not> geometry_valid g then (S_invalid_argument, d)
      else if \<not> or_opened r then (S_io_error, d)
      else
        let d = d\<lparr>ff_open := True, ff_geometry := g, ff_file := or_content r\<rparr>
        in if \<not> or_locked r then (S_busy, ff_close d)
           else if \<not> or_regular r then (S_io_error, ff_close d)
           else if mode = OM_existing \<and> length (ff_file d) \<noteq> geo_size g then (S_invalid_argument, ff_close d)
           else if mode = OM_existing then (S_ok, snd (ff_poll d))
           else case ff_fill (ff_file d) 0 0 (geo_size g) (ff_pwrite d) of (written, f, rs) \<Rightarrow>
             let d = d\<lparr>ff_file := f, ff_pwrite := rs\<rparr>
             in if \<not> written then (S_io_error, ff_close d)
                else
                  let synced = (case ff_fsync d of [] \<Rightarrow> True | ok # _ \<Rightarrow> ok);
                      d = d\<lparr>ff_fsync := drop 1 (ff_fsync d)\<rparr>
                  in if \<not> synced then (S_io_error, ff_close d) else (S_ok, snd (ff_poll d)))"

definition ff_new :: file_flash where
  "ff_new = \<lparr>ff_open = False,
     ff_geometry = \<lparr>geo_base = 0, geo_size = 0, geo_sector_size = 0, geo_write_size = 16\<rparr>,
     ff_machine = sm_new ff_derived, ff_operation = FFO_erase, ff_requested = False, ff_closed = False,
     ff_address = 0, ff_word = replicate 32 0, ff_file = [], ff_pread = (\<lambda>_ _. []), ff_pwrite = [],
     ff_fsync = [], ff_readings = 0\<rparr>"

section \<open>The file as a memory\<close>

definition ff_mem :: "file_flash \<Rightarrow> nat \<Rightarrow> byte" where
  "ff_mem d x = (if geo_base (ff_geometry d) \<le> x \<and> x - geo_base (ff_geometry d) < length (ff_file d)
     then ff_file d ! (x - geo_base (ff_geometry d)) else 0)"

definition ff_op :: "file_flash \<Rightarrow> flash_op" where
  "ff_op d = (case ff_operation d of
     FFO_erase \<Rightarrow> Op_erase (ff_address d)
   | FFO_program \<Rightarrow> Op_program (ff_address d) (take (geo_write_size (ff_geometry d)) (ff_word d)))"

definition ff_pending :: "file_flash \<Rightarrow> flash_op option" where
  "ff_pending d = (if ff_requested d then Some (ff_op d) else None)"

text \<open>The length of the operation's region; a requested operation lies inside the file.\<close>

definition ff_extent :: "file_flash \<Rightarrow> nat" where
  "ff_extent d = (case ff_operation d of
     FFO_erase \<Rightarrow> geo_sector_size (ff_geometry d) | FFO_program \<Rightarrow> geo_write_size (ff_geometry d))"

definition ff_wf :: "nat \<Rightarrow> file_flash \<Rightarrow> bool" where
  "ff_wf ss d \<longleftrightarrow> ff_open d \<and> \<not> ff_closed d \<and> geometry_valid (ff_geometry d) \<and>
     geo_sector_size (ff_geometry d) = ss \<and> length (ff_file d) = geo_size (ff_geometry d) \<and>
     length (ff_word d) = 32 \<and> sm_wf ff_derived (ff_machine d) \<and>
     (ff_requested d \<longrightarrow> ff_range d (ff_address d) (ff_extent d)) \<and>
     (sm_cs (ff_machine d) = FF_execute \<longrightarrow> ff_requested d)"

section \<open>Frames\<close>

lemma ff_mem_frame [frame_simps]:
  "ff_mem (d\<lparr>ff_machine := m\<rparr>) = ff_mem d" "ff_mem (d\<lparr>ff_requested := b\<rparr>) = ff_mem d"
  "ff_mem (d\<lparr>ff_address := a\<rparr>) = ff_mem d" "ff_mem (d\<lparr>ff_operation := p\<rparr>) = ff_mem d"
  "ff_mem (d\<lparr>ff_word := w\<rparr>) = ff_mem d" "ff_mem (d\<lparr>ff_pwrite := rs\<rparr>) = ff_mem d"
  "ff_mem (d\<lparr>ff_fsync := fs\<rparr>) = ff_mem d" "ff_mem (d\<lparr>ff_readings := n\<rparr>) = ff_mem d"
  by (simp_all add: ff_mem_def fun_eq_iff)

lemma ff_range_frame [frame_simps]:
  "ff_range (d\<lparr>ff_machine := m\<rparr>) = ff_range d" "ff_range (d\<lparr>ff_requested := b\<rparr>) = ff_range d"
  "ff_range (d\<lparr>ff_address := a\<rparr>) = ff_range d" "ff_range (d\<lparr>ff_operation := p\<rparr>) = ff_range d"
  "ff_range (d\<lparr>ff_word := w\<rparr>) = ff_range d" "ff_range (d\<lparr>ff_readings := n\<rparr>) = ff_range d"
  by (simp_all add: ff_range_def fun_eq_iff)

lemma ff_op_frame [frame_simps]:
  "ff_op (d\<lparr>ff_machine := m\<rparr>) = ff_op d" "ff_op (d\<lparr>ff_requested := b\<rparr>) = ff_op d"
  "ff_op (d\<lparr>ff_readings := n\<rparr>) = ff_op d"
  "ff_extent (d\<lparr>ff_machine := m\<rparr>) = ff_extent d" "ff_extent (d\<lparr>ff_requested := b\<rparr>) = ff_extent d"
  "ff_extent (d\<lparr>ff_readings := n\<rparr>) = ff_extent d"
  by (simp_all add: ff_op_def ff_extent_def cong: ff_operation.case_cong)

section \<open>File access lemmas\<close>

lemma length_file_write [simp]:
  "offset + length bytes \<le> length f \<Longrightarrow> length (file_write f offset bytes) = length f"
  by (simp add: file_write_def)

lemma nth_file_write:
  "offset + length bytes \<le> length f \<Longrightarrow> i < length f \<Longrightarrow>
   file_write f offset bytes ! i = (if offset \<le> i \<and> i < offset + length bytes then bytes ! (i - offset) else f ! i)"
  by (auto simp: file_write_def nth_append min_def)

lemma file_write_Nil [simp]: "offset \<le> length f \<Longrightarrow> file_write f offset [] = f"
  by (simp add: file_write_def)

lemma file_write_eq:
  "offset \<le> length f \<Longrightarrow> file_write f offset bytes = take offset f @ bytes @ drop (offset + length bytes) f"
  by (simp add: file_write_def)

lemma file_write_end: "offset \<le> length f \<Longrightarrow> offset + length bytes \<le> length (file_write f offset bytes)"
  by (simp add: file_write_eq)

lemma file_write_append:
  assumes "offset \<le> length f"
  shows "file_write (file_write f offset a) (offset + length a) b = file_write f offset (a @ b)"
  using assms file_write_end [OF assms, of a]
  by (simp add: file_write_eq min_absorb2) (simp add: add.commute add.left_commute)

lemma take_split: "c \<le> n \<Longrightarrow> take c xs @ take (n - c) (drop c xs) = take n xs"
  by (metis le_add_diff_inverse take_add)

text \<open>A read returns the file's bytes however the kernel splits it.\<close>

lemma ff_read_loop_eq:
  "offset + n \<le> length f \<Longrightarrow> ff_read_loop f offset n rs = Some bytes \<Longrightarrow> bytes = take n (drop offset f)"
proof (induction f offset n rs arbitrary: bytes rule: ff_read_loop.induct)
  case (2 f offset n r rs)
  show ?case
  proof (cases "n = 0 \<or> (\<forall>c. r \<noteq> Io_count c)")
    case True then show ?thesis using 2 by (auto split: io.splits if_splits)
  next
    case False
    then obtain c where r: "r = Io_count c" and n: "n \<noteq> 0" by auto
    define k where "k = min c n"
    then have k: "0 < k" "k \<le> n" using 2(4) r n by (auto simp: Let_def split: if_splits)
    obtain rest where rest: "ff_read_loop f (offset + k) (n - k) rs = Some rest" "bytes = take k (drop offset f) @ rest"
      using 2(4) r n k by (auto simp: Let_def k_def [symmetric])
    have "rest = take (n - k) (drop (offset + k) f)"
      using 2(2) [OF n r k_def _ _ rest(1)] k 2(3) by simp
    then show ?thesis using rest(2) take_split [OF k(2), of "drop offset f"] by (simp add: add.commute)
  qed
qed simp

text \<open>
  A write changes nothing outside its bytes, changes them from the lowest up, and writes them all
  when it reports so.
\<close>

lemma ff_write_spec:
  assumes "offset \<le> length f" "ff_write f offset bytes rs = (written, f', rs')"
  shows "\<exists>k \<le> length bytes. f' = file_write f offset (take k bytes) \<and> (written \<longrightarrow> k = length bytes)"
  using assms
proof (induction f offset bytes rs rule: ff_write.induct)
  case (1 f offset bytes)
  then show ?case by (auto split: if_splits)
next
  case (2 f offset bytes r rs)
  show ?case
  proof (cases "bytes = [] \<or> (\<forall>c. r \<noteq> Io_count c)")
    case True then show ?thesis using 2 by (auto split: io.splits if_splits intro!: exI [of _ 0])
  next
    case False
    then obtain c where r: "r = Io_count c" and b: "bytes \<noteq> []" by auto
    define k where "k = min c (length bytes)"
    show ?thesis
    proof (cases "k = 0")
      case True
      then show ?thesis using 2(4,3) r b by (auto simp: Let_def k_def intro!: exI [of _ 0])
    next
      case k: False
      have kl: "k \<le> length bytes" by (simp add: k_def)
      have w: "ff_write (file_write f offset (take k bytes)) (offset + k) (drop k bytes) rs = (written, f', rs')"
        using 2(4) r b k by (simp add: Let_def k_def [symmetric])
      then obtain l where l: "l \<le> length (drop k bytes)"
        "f' = file_write (file_write f offset (take k bytes)) (offset + k) (take l (drop k bytes))"
        "written \<longrightarrow> l = length (drop k bytes)"
        using 2(2) [OF b r k_def k _ w] file_write_end [OF 2(3), of "take k bytes"] kl by (auto simp: min_absorb2)
      have "f' = file_write f offset (take (k + l) bytes)"
        using file_write_append [of offset f "take k bytes" "take l (drop k bytes)"] l(1,2) kl 2(3)
        by (simp add: min_absorb2 take_add)
      then show ?thesis using l kl by (intro exI [of _ "k + l"]) auto
    qed
  qed
qed

text \<open>The filling loop, likewise.\<close>

lemma ff_fill_spec:
  assumes "base + at \<le> length f" "at \<le> limit" "ff_fill f base at limit rs = (written, f', rs')"
  shows "\<exists>k \<le> limit - at. f' = file_write f (base + at) (replicate k 0xff) \<and> (written \<longrightarrow> k = limit - at)"
  using assms
proof (induction f base at limit rs rule: ff_fill.induct)
  case (1 f base at limit rs)
  show ?case
  proof (cases "at < limit")
    case False
    then show ?thesis using 1(2-4) by (subst (asm) ff_fill.simps) (auto intro!: exI [of _ 0])
  next
    case True
    define n where "n = min 4096 (limit - at)"
    then have n: "n \<le> limit - at" by simp
    obtain w f1 r1 where w: "ff_write f (base + at) (replicate n 0xff) rs = (w, f1, r1)" by (metis prod_cases3)
    from ff_write_spec [OF 1(2) w, unfolded length_replicate] obtain k where k: "k \<le> n"
      "f1 = file_write f (base + at) (replicate k 0xff)" "w \<longrightarrow> k = n"
      unfolding take_replicate by (metis min_absorb1)
    show ?thesis
    proof (cases w)
      case False
      then have "f' = f1 \<and> \<not> written"
        using 1(4) True w by (subst (asm) ff_fill.simps) (simp add: n_def [symmetric] Let_def)
      then show ?thesis using k n by (intro exI [of _ k]) auto
    next
      case w': True
      have nl: "at + n \<le> limit" using True by (simp add: n_def)
      have "ff_fill f1 base (at + n) limit r1 = (written, f', rs')"
        using 1(4) True w w' by (subst (asm) ff_fill.simps) (simp add: n_def [symmetric] Let_def)
      moreover have "base + (at + n) \<le> length f1"
        using file_write_end [OF 1(2), of "replicate n 0xff"] k w' by simp
      ultimately obtain l where l: "l \<le> limit - (at + n)" "f' = file_write f1 (base + (at + n)) (replicate l 0xff)"
        "written \<longrightarrow> l = limit - (at + n)"
        using 1(1) [OF True n_def w [symmetric] refl w'] nl by blast
      have "f' = file_write f (base + at) (replicate (n + l) 0xff)"
        using file_write_append [of "base + at" f "replicate n 0xff" "replicate l 0xff"] l(1,2) k w' 1(2) nl
        by (simp add: replicate_add add.assoc)
      then show ?thesis using l nl by (intro exI [of _ "n + l"]) auto
    qed
  qed
qed

section \<open>The device meets its contract\<close>

interpretation ff_sm: plain_machine ff_derived
proof
  fix s and ob :: "file_flash \<times> status"
  show "sm_valid ff_derived (dv_initial ff_derived)" and "sm_valid ff_derived (fst (dv_step ff_derived s ob))"
    by (simp_all add: sm_valid_def ff_derived_def)
qed (simp_all add: ff_derived_def)

lemma ff_mem_write:
  assumes "length f = geo_size (ff_geometry d)" "length (ff_file d) = length f"
    "geo_base (ff_geometry d) \<le> a" "a - geo_base (ff_geometry d) + length bs \<le> length f"
    "f = file_write (ff_file d) (a - geo_base (ff_geometry d)) bs"
  shows "ff_mem (d\<lparr>ff_file := f\<rparr>) x = (if a \<le> x \<and> x < a + length bs then bs ! (x - a) else ff_mem d x)"
proof -
  have "x - geo_base (ff_geometry d) - (a - geo_base (ff_geometry d)) = x - a" using assms(3) by simp
  then show ?thesis
    using assms by (auto simp: ff_mem_def nth_file_write)
qed

lemma ff_poll_eq:
  assumes "sm_wf ff_derived (ff_machine d)" "ff_open d"
    "ff_step (sm_cs (ff_machine d)) (d, S_ok) = (ns, d', s)"
  obtains m where "ff_poll d = (s, d'\<lparr>ff_machine := m\<rparr>)" "sm_cs m = ns" "sm_wf ff_derived m"
proof -
  have "dv_step ff_derived (sm_cs (ff_machine d)) (d, S_ok) = (ns, d', s)" using assms(3) by (simp add: ff_derived_def)
  from ff_sm.tick_step [OF assms(1) this] obtain m where
    "sm_tick ff_derived (ff_machine d) (d, S_ok) = (S_ok, m, d', s)" "sm_cs m = ns" "sm_wf ff_derived m" .
  then show thesis using that [of m] assms(2) by (simp add: ff_poll_def)
qed

text \<open>What a run of the operation leaves in the file.\<close>

lemma ff_execute_spec:
  assumes wf: "ff_wf ss d" and r: "ff_requested d" and e: "ff_execute d = (written, f, rs)"
  shows "length f = length (ff_file d)"
    and "op_partial ss (ff_op d) (ff_mem d) (ff_mem (d\<lparr>ff_file := f\<rparr>))"
    and "written \<Longrightarrow> ff_mem (d\<lparr>ff_file := f\<rparr>) = apply_op ss (ff_op d) (ff_mem d)"
proof -
  let ?o = "ff_address d - geo_base (ff_geometry d)"
  have rg: "ff_range d (ff_address d) (ff_extent d)" and len: "length (ff_file d) = geo_size (ff_geometry d)"
    and ss: "geo_sector_size (ff_geometry d) = ss" using wf r by (auto simp: ff_wf_def)
  then have o: "geo_base (ff_geometry d) \<le> ff_address d" "?o + ff_extent d \<le> length (ff_file d)"
    by (auto simp: ff_range_def)
  have "length f = length (ff_file d) \<and> op_partial ss (ff_op d) (ff_mem d) (ff_mem (d\<lparr>ff_file := f\<rparr>)) \<and>
    (written \<longrightarrow> ff_mem (d\<lparr>ff_file := f\<rparr>) = apply_op ss (ff_op d) (ff_mem d))"
  proof (cases "ff_operation d")
    case FFO_erase
    then have "ff_fill (ff_file d) ?o 0 ss (ff_pwrite d) = (written, f, rs)" using e ss by (simp add: ff_execute_def)
    with ff_fill_spec [of ?o 0 "ff_file d" ss] o(2) obtain k where
      k: "k \<le> ss" "f = file_write (ff_file d) ?o (replicate k 0xff)" "written \<longrightarrow> k = ss" by fastforce
    have l: "?o + k \<le> length (ff_file d)" using k o FFO_erase ss by (simp add: ff_extent_def)
    then have lf: "length f = length (ff_file d)" using k(2) by simp
    have m: "ff_mem (d\<lparr>ff_file := f\<rparr>) x = (if ff_address d \<le> x \<and> x < ff_address d + k then 0xff else ff_mem d x)" for x
      using ff_mem_write [of f d "ff_address d" "replicate k 0xff" x] lf len l o(1) k(2) by auto
    show ?thesis using lf m k FFO_erase by (auto simp: ff_op_def fun_eq_iff)
  next
    case FFO_program
    let ?w = "geo_write_size (ff_geometry d)"
    have lw: "length (take ?w (ff_word d)) = ?w" using wf by (auto simp: ff_wf_def geometry_valid_def)
    have "ff_write (ff_file d) ?o (take ?w (ff_word d)) (ff_pwrite d) = (written, f, rs)"
      using e FFO_program by (simp add: ff_execute_def)
    then obtain k where
      k: "k \<le> ?w" "f = file_write (ff_file d) ?o (take k (take ?w (ff_word d)))" "written \<longrightarrow> k = ?w"
      using ff_write_spec [of ?o "ff_file d" "take ?w (ff_word d)"] o(2) unfolding lw by (meson add_leD1)
    have lk: "length (take k (take ?w (ff_word d))) = k" using k(1) lw by simp
    have l: "?o + k \<le> length (ff_file d)" using k o FFO_program by (simp add: ff_extent_def)
    then have lf: "length f = length (ff_file d)" using k(2) lk by simp
    have m: "ff_mem (d\<lparr>ff_file := f\<rparr>) x =
        (if ff_address d \<le> x \<and> x < ff_address d + k then take k (take ?w (ff_word d)) ! (x - ff_address d) else ff_mem d x)" for x
      using ff_mem_write [of f d "ff_address d" "take k (take ?w (ff_word d))" x] lf len l lk o(1) k(2) by auto
    show ?thesis using lf m k lw FFO_program by (auto simp: ff_op_def fun_eq_iff)
  qed
  then show "length f = length (ff_file d)"
    and "op_partial ss (ff_op d) (ff_mem d) (ff_mem (d\<lparr>ff_file := f\<rparr>))"
    and "written \<Longrightarrow> ff_mem (d\<lparr>ff_file := f\<rparr>) = apply_op ss (ff_op d) (ff_mem d)" by simp_all
qed

lemma ff_wf_range:
  assumes "ff_wf ss d" "ff_range d a n"
  shows "geo_base (ff_geometry d) \<le> a" "a - geo_base (ff_geometry d) + n \<le> length (ff_file d)"
  using assms by (auto simp: ff_wf_def ff_range_def)

lemma ff_read_content:
  assumes wf: "ff_wf ss d" and r: "ff_read d a n = (S_ok, bs)"
  shows "bs = map (ff_mem d) [a..<a + n]"
proof -
  let ?o = "a - geo_base (ff_geometry d)"
  have rg: "ff_range d a n" and l: "ff_read_loop (ff_file d) ?o n (ff_pread d a n) = Some bs"
    using r by (auto simp: ff_read_def split: if_splits option.splits)
  note b = ff_wf_range [OF wf rg]
  have "bs = take n (drop ?o (ff_file d))" using ff_read_loop_eq [OF b(2) l] .
  then show ?thesis using b by (intro nth_equalityI) (auto simp: ff_mem_def)
qed

lemma ff_poll_law:
  assumes wf: "ff_wf ss d" and p: "ff_poll d = (s, d')"
  shows "ff_wf ss d' \<and> (case ff_pending d of
         None \<Rightarrow> ff_mem d' = ff_mem d \<and> ff_pending d' = None
       | Some opn \<Rightarrow>
           (if s = S_busy then ff_pending d' = Some opn \<and> op_partial ss opn (ff_mem d) (ff_mem d')
            else if s = S_ok then ff_pending d' = None \<and> ff_mem d' = apply_op ss opn (ff_mem d)
            else ff_pending d' = None \<and> op_partial ss opn (ff_mem d) (ff_mem d')))"
proof -
  obtain ns d1 s1 where st: "ff_step (sm_cs (ff_machine d)) (d, S_ok) = (ns, d1, s1)" by (metis prod_cases3)
  have "sm_wf ff_derived (ff_machine d)" "ff_open d" and nc: "\<not> ff_closed d" using wf by (simp_all add: ff_wf_def)
  from ff_poll_eq [OF this(1,2) st] obtain m where
    m: "ff_poll d = (s1, d1\<lparr>ff_machine := m\<rparr>)" "sm_cs m = ns" "sm_wf ff_derived m" .
  then have d': "d' = d1\<lparr>ff_machine := m\<rparr>" "s = s1" using p by simp_all
  show ?thesis
  proof (cases "sm_cs (ff_machine d)")
    case FF_idle
    then have "d1 = d" "(ns, s1) = (if ff_requested d then (FF_execute, S_busy) else (FF_idle, S_ok))"
      using st nc by (auto split: if_splits)
    then show ?thesis using wf m d'
      by (auto simp: ff_wf_def ff_pending_def frame_simps op_partial_refl split: if_splits)
  next
    case FF_execute
    obtain w f rs where e: "ff_execute d = (w, f, rs)" by (metis prod_cases3)
    have r: "ff_requested d" using wf FF_execute by (simp add: ff_wf_def)
    note ex = ff_execute_spec [OF wf r e]
    let ?d = "\<lambda>fs. d\<lparr>ff_file := f, ff_pwrite := rs, ff_fsync := fs, ff_requested := False, ff_machine := m\<rparr>"
    obtain fs where d1: "d' = ?d fs" and s: "s = S_ok \<or> s = S_io_error" "s = S_ok \<longrightarrow> w" and ns: "ns = FF_idle"
      using st FF_execute nc e d'
      by (cases w; cases "ff_fsync d") (auto simp: Let_def split: if_splits)
    have "ff_wf ss (?d fs)" using wf ns m(2,3) ex(1) by (simp add: ff_wf_def)
    moreover have "ff_mem (?d fs) = ff_mem (d\<lparr>ff_file := f\<rparr>)" by (simp add: frame_simps)
    ultimately show ?thesis using d1 s ex(2,3) r by (auto simp: ff_pending_def)
  qed
qed

lemma take_memcpy_word:
  "length bs = n \<Longrightarrow> n \<le> 32 \<Longrightarrow> length w = 32 \<Longrightarrow> take n (memcpy_at w 0 bs) = bs"
  by (simp add: memcpy_at_def)

lemma ff_erase_law:
  assumes "ff_wf ss d" "ff_erase d a = (s, d')"
  shows "ff_wf ss d' \<and> ff_mem d' = ff_mem d \<and> ff_pending d' = (if s = S_ok then Some (Op_erase a) else ff_pending d)"
proof (cases "s = S_ok")
  case False
  then show ?thesis using assms by (auto simp: ff_erase_def split: if_splits)
next
  case True
  let ?d = "d\<lparr>ff_address := a, ff_operation := FFO_erase, ff_requested := True\<rparr>"
  have d': "d' = ?d" "ff_range d a (geo_sector_size (ff_geometry d))"
    using True assms(2) by (auto simp: ff_erase_def split: if_splits)
  have "ff_extent ?d = geo_sector_size (ff_geometry d)" "ff_op ?d = Op_erase a" by (simp_all add: ff_extent_def ff_op_def)
  then show ?thesis using True d' assms(1) by (simp add: ff_wf_def ff_pending_def frame_simps)
qed

lemma ff_program_law:
  assumes "ff_wf ss d" "ff_program d a bs = (s, d')"
  shows "ff_wf ss d' \<and> ff_mem d' = ff_mem d \<and> ff_pending d' = (if s = S_ok then Some (Op_program a bs) else ff_pending d)"
proof (cases "s = S_ok")
  case False
  then show ?thesis using assms by (auto simp: ff_program_def split: if_splits prod.splits)
next
  case True
  let ?d = "d\<lparr>ff_word := memcpy_at (ff_word d) 0 bs, ff_address := a, ff_operation := FFO_program, ff_requested := True\<rparr>"
  have d': "d' = ?d" "length bs = geo_write_size (ff_geometry d)" "ff_range d a (length bs)"
    using True assms(2) by (auto simp: ff_program_def split: if_splits prod.splits)
  have w: "length (ff_word d) = 32" "length bs \<le> 32"
    using assms(1) d'(2) by (auto simp: ff_wf_def geometry_valid_def)
  then have "ff_extent ?d = length bs" "ff_op ?d = Op_program a bs" "length (memcpy_at (ff_word d) 0 bs) = 32"
    using take_memcpy_word [of bs "length bs" "ff_word d"] d'(2) by (simp_all add: ff_extent_def ff_op_def)
  then show ?thesis using True d' assms(1) by (simp add: ff_wf_def ff_pending_def frame_simps)
qed

interpretation ff: flash_device "ff_driver clock" ff_mem ff_pending "ff_wf ss" ss for clock ss
proof (unfold_locales, unfold ff_driver_def flash.simps)
  fix d a n assume "ff_wf ss d" "ff_pending d = None"
  then show "fst (ff_read d a n) \<noteq> S_busy"
    by (cases "sm_cs (ff_machine d)") (auto simp: ff_read_def ff_pending_def ff_wf_def split: option.splits if_splits)
next
  fix d d' t assume "ff_wf ss d" "ff_now clock d = (t, d')"
  then show "ff_wf ss d' \<and> ff_mem d' = ff_mem d \<and> ff_pending d' = ff_pending d"
    by (auto simp: ff_now_def ff_wf_def ff_pending_def frame_simps)
qed (fact ff_read_content ff_erase_law ff_program_law ff_poll_law)+

section \<open>Opening an image\<close>

text \<open>A device that is not open: its machine may still hold a request that \<open>close\<close> dropped.\<close>

definition ff_shut :: "file_flash \<Rightarrow> bool" where
  "ff_shut d \<longleftrightarrow> \<not> ff_open d \<and> \<not> ff_requested d \<and> (sm_cs (ff_machine d) = FF_execute \<longrightarrow> ff_closed d) \<and>
     length (ff_word d) = 32 \<and> sm_wf ff_derived (ff_machine d)"

lemma ff_new_shut: "ff_shut ff_new"
  using ff_sm.new_wf by (simp add: ff_shut_def ff_new_def sm_new_def ff_derived_def)

lemma ff_close_shut: "ff_wf ss d \<Longrightarrow> ff_shut (ff_close d)"
  by (simp add: ff_wf_def ff_shut_def ff_close_def)

lemma ff_first_poll:
  assumes "\<not> ff_requested d" "sm_cs (ff_machine d) = FF_execute \<longrightarrow> ff_closed d" "ff_open d"
    "length (ff_word d) = 32" "sm_wf ff_derived (ff_machine d)" "geometry_valid (ff_geometry d)"
    "length (ff_file d) = geo_size (ff_geometry d)"
  shows "ff_wf (geo_sector_size (ff_geometry d)) (snd (ff_poll d)) \<and> ff_pending (snd (ff_poll d)) = None \<and>
    ff_file (snd (ff_poll d)) = ff_file d \<and> ff_geometry (snd (ff_poll d)) = ff_geometry d"
proof -
  have st: "ff_step (sm_cs (ff_machine d)) (d, S_ok) = (FF_idle, d\<lparr>ff_closed := False, ff_requested := False\<rparr>, S_ok)"
    using assms(1,2) by (cases "sm_cs (ff_machine d)"; cases "ff_closed d") simp_all
  obtain m where "ff_poll d = (S_ok, d\<lparr>ff_closed := False, ff_requested := False, ff_machine := m\<rparr>)"
    "sm_cs m = FF_idle" "sm_wf ff_derived m"
    by (rule ff_poll_eq [OF assms(5,3) st])
  then show ?thesis using assms by (simp add: ff_wf_def ff_pending_def)
qed

lemma ff_open_file_ok:
  assumes "ff_shut d" "ff_open_file path r g mode d = (S_ok, d')" "mode = OM_create \<Longrightarrow> or_content r = []"
  shows "ff_wf (geo_sector_size g) d' \<and> ff_pending d' = None \<and> ff_geometry d' = g \<and>
    ff_file d' = (if mode = OM_create then replicate (geo_size g) 0xff else or_content r)"
proof (cases mode)
  case OM_existing
  then show ?thesis
    using assms(1,2) ff_first_poll [of "d\<lparr>ff_open := True, ff_geometry := g, ff_file := or_content r\<rparr>"]
    by (auto simp: ff_open_file_def Let_def ff_shut_def split: if_splits)
next
  case OM_create
  obtain w f rs where f: "ff_fill [] 0 0 (geo_size g) (ff_pwrite d) = (w, f, rs)" by (metis prod_cases3)
  have w: w and g: "geometry_valid g"
    using assms OM_create f by (auto simp: ff_open_file_def Let_def split: if_splits)
  then have "f = replicate (geo_size g) 0xff"
    using ff_fill_spec [OF _ _ f] by (auto simp: file_write_def)
  then show ?thesis
    using assms OM_create f w g
      ff_first_poll [of "d\<lparr>ff_open := True, ff_geometry := g, ff_file := f, ff_pwrite := rs, ff_fsync := drop 1 (ff_fsync d)\<rparr>"]
    by (auto simp: ff_open_file_def Let_def ff_shut_def split: if_splits)
qed

end
