(* ===== verification/Journal_Host.thy ===== *)
theory Journal_Host
  imports Journal_Commit File_Flash
begin

text \<open>
  The journal on the host's file-backed flash: the contracts of \<open>flash_device\<close> and \<open>timed_flash\<close>
  hold of \<open>FileFlash\<close>, and a small image with one committed record, on which the journal's theorems
  are applied.
\<close>

section \<open>The host's clock\<close>

text \<open>
  A clock that from its \<open>n\<close>-th reading on shows a time at least \<open>timeout\<close> after \<open>start\<close>: every
  monotonic clock, for every operation whose limit it reaches.
\<close>

definition late_clock :: "(nat \<Rightarrow> time) \<Rightarrow> nat \<Rightarrow> time \<Rightarrow> time \<Rightarrow> (nat \<Rightarrow> time) \<Rightarrow> nat \<Rightarrow> time" where
  "late_clock early n start timeout elapsed i =
     (if i < n then early i else start + max timeout (elapsed i))"

lemma late_clock_self:
  assumes "\<And>i. n \<le> i \<Longrightarrow> timeout \<le> clock i - start"
  shows "late_clock clock n start timeout (\<lambda>i. clock i - start) = clock"
  using assms by (auto simp: late_clock_def fun_eq_iff max_absorb2)

text \<open>A poll does not read the clock and does not change how reads fare.\<close>

lemma ff_poll_frame:
  assumes "ff_wf ss d" "ff_poll d = (s, d')"
  shows "ff_readings d' = ff_readings d" "ff_pread d' = ff_pread d" "ff_geometry d' = ff_geometry d"
proof -
  obtain ns d1 s1 where st: "ff_step (sm_cs (ff_machine d)) (d, S_ok) = (ns, d1, s1)" by (metis prod_cases3)
  have "sm_wf ff_derived (ff_machine d)" "ff_open d" using assms(1) by (simp_all add: ff_wf_def)
  from ff_poll_eq [OF this st] obtain m where "d' = d1\<lparr>ff_machine := m\<rparr>" using assms(2) by (metis prod.inject)
  moreover have "ff_readings d1 = ff_readings d" "ff_pread d1 = ff_pread d" "ff_geometry d1 = ff_geometry d"
    using st by (cases "sm_cs (ff_machine d)"; auto simp: Let_def split: prod.splits if_splits)+
  ultimately show "ff_readings d' = ff_readings d" "ff_pread d' = ff_pread d" "ff_geometry d' = ff_geometry d"
    by simp_all
qed

interpretation ff_timed: timed_flash "ff_driver (late_clock early n start timeout elapsed)" ff_mem ff_pending
  "ff_wf ss" ss start timeout "\<lambda>d. n - ff_readings d" for early n start timeout elapsed ss
proof (unfold_locales, unfold ff_driver_def flash.simps)
  fix d d' t assume "ff_wf ss d" "ff_now (late_clock early n start timeout elapsed) d = (t, d')"
  then show "n - ff_readings d' \<le> n - ff_readings d - 1 \<and> (n - ff_readings d = 0 \<longrightarrow> timeout \<le> t - start)"
    by (auto simp: ff_now_def late_clock_def)
next
  fix d d' s assume "ff_wf ss d" "ff_poll d = (s, d')"
  then show "n - ff_readings d' \<le> n - ff_readings d" using ff_poll_frame(1) by simp
next
  fix d d' a s assume "ff_erase d a = (s, d')"
  then show "n - ff_readings d' \<le> n - ff_readings d" by (auto simp: ff_erase_def split: if_splits)
next
  fix d d' a bs s assume "ff_program d a bs = (s, d')"
  then show "n - ff_readings d' \<le> n - ff_readings d" by (auto simp: ff_program_def split: if_splits prod.splits)
qed

section \<open>Reads that succeed\<close>

lemma ff_reads_ok:
  assumes wf: "ff_wf ss d" and "ff_pending d = None" "ff_pread d = (\<lambda>_ _. [])"
    and r: "\<And>a. a \<in> record_addrs L \<Longrightarrow> ff_range d a 256"
  shows "reads_ok (ff_driver clock) L d"
proof -
  have "fst (ff_read d a k) = S_ok" if "ff_range d a k" for a k
    using that assms(1-3) by (cases "sm_cs (ff_machine d)") (auto simp: ff_read_def ff_wf_def ff_pending_def)
  moreover have "ff_range d a 16" "ff_range d (a + 16) 240" if "a \<in> record_addrs L" for a
    using r [OF that] by (auto simp: ff_range_def)
  ultimately show ?thesis by (simp add: reads_ok_def ff_driver_def)
qed

section \<open>A small image\<close>

text \<open>Two metadata sectors of two records each, then two slots of one sector; the first record is committed.\<close>

definition ex_layout :: layout where
  "ex_layout = \<lparr>slots = [1024, 1536], metadata = [0, 512], slot_size = 512, sector_size = 512, write_size = 16,
     product = 1, revision = 1, operation_timeout = 1000\<rparr>"

definition ex_snapshot :: snapshot where
  "ex_snapshot = default_snapshot\<lparr>snap_sequence := 1\<rparr>"

definition ex_with :: "snapshot \<Rightarrow> file_flash" where
  "ex_with s = ff_new\<lparr>ff_open := True,
     ff_geometry := \<lparr>geo_base = 0, geo_size = 2048, geo_sector_size = 512, geo_write_size = 16\<rparr>,
     ff_file := encode s 16 @ replicate 1792 0xff\<rparr>"

definition ex_device :: file_flash where
  "ex_device = ex_with ex_snapshot"

lemma ex_snapshot_committable: "snapshot_committable ex_snapshot" "snapshot_wf ex_snapshot"
  by (simp_all add: ex_snapshot_def default_snapshot_def default_image_def default_version_def
      snapshot_committable_def snapshot_wf_def image_wf_def)

lemma ex_layout_wf: "layout_wf ex_layout" "no_wrap ex_layout" "layout_valid ex_layout" "sector_size ex_layout = 512"
  by (simp_all add: ex_layout_def layout_wf_def layout_valid_def layout_regions_def kRecordSize_def no_wrap_def upt_rec)

lemma ex_record_addrs: "record_addrs ex_layout = {0, 256, 512, 768}"
proof -
  have "sector_addrs s 2 = {s, s + 256}" for s
  proof -
    have "sector_addrs s 2 = (\<lambda>k. s + k * 256) ` {..<2}" by (auto simp: sector_addrs_def kRecordSize_def)
    also have "{..<2 :: nat} = {0, 1}" by auto
    finally show ?thesis by simp
  qed
  then show ?thesis by (simp add: record_addrs_def ex_layout_def kRecordSize_def insert_commute)
qed

lemma ex_with_wf:
  assumes "snapshot_wf s"
  shows "ff_wf 512 (ex_with s)" "ff_pending (ex_with s) = None"
  using ff_new_shut assms
  by (simp_all add: ff_wf_def ff_shut_def ex_with_def ff_pending_def geometry_valid_def ff_new_def sm_new_def ff_derived_def)

lemma ex_with_journal:
  assumes "snapshot_committable s"
  shows "journal_wf ex_layout (ff_mem (ex_with s))" "journal_current ex_layout (ff_mem (ex_with s)) s"
proof -
  let ?m = "ff_mem (ex_with s)"
  have swf: "snapshot_wf s" using assms by (simp add: snapshot_committable_def)
  have m: "?m x = (if x < 256 then encode s 16 ! x else if x < 2048 then 0xff else 0)" for x
    using swf by (simp add: ff_mem_def ex_with_def nth_append)
  have r0: "rec_at ?m 0 = encode s 16"
    by (rule rec_at_eqI) (simp_all add: m swf)
  have d0: "decode (encode s 16) = Some s"
    using decode_encode [OF swf] assms by simp
  have "decode (rec_at ?m a) = None" if "a = 256 \<or> a = 512 \<or> a = 768" for a
    using that by (intro decode_blank_first) (auto simp: rec_at_nth m)
  then have dec: "decode (rec_at ?m a) = (if a = 0 then Some s else None)" if "a \<in> record_addrs ex_layout" for a
    using that r0 d0 by (auto simp: ex_record_addrs)
  have zero: "0 \<in> record_addrs ex_layout" by (simp add: ex_record_addrs)
  have "record_native ex_layout (encode s 16)"
    using encode_version [OF swf, of 16] by (simp add: record_native_def ex_layout_def)
  then show "journal_wf ex_layout ?m"
    using dec r0 by (auto simp: journal_wf_def journal_consistent_def split: if_splits)
  show "journal_current ex_layout ?m s"
    using dec zero by (auto simp: journal_current_def split: if_splits)
qed

lemmas ex_device_wf = ex_with_wf [OF ex_snapshot_committable(2), folded ex_device_def]

lemmas ex_journal = ex_with_journal [OF ex_snapshot_committable(1), folded ex_device_def]

text \<open>The device after the polls of \<open>load\<close> and \<open>begin\<close>.\<close>

lemma ex_poll:
  assumes "ff_wf 512 d" "ff_pending d = None"
  shows "fst (ff_poll d) = S_ok" "ff_wf 512 (snd (ff_poll d))" "ff_pending (snd (ff_poll d)) = None"
    "ff_mem (snd (ff_poll d)) = ff_mem d" "ff_pread (snd (ff_poll d)) = ff_pread d"
    "ff_geometry (snd (ff_poll d)) = ff_geometry d" "ff_readings (snd (ff_poll d)) = ff_readings d"
proof -
  have i: "\<not> ff_requested d" "\<not> ff_closed d" "ff_open d" "sm_wf ff_derived (ff_machine d)"
    "sm_cs (ff_machine d) \<noteq> FF_execute"
    using assms by (auto simp: ff_wf_def ff_pending_def split: if_splits)
  then have "sm_cs (ff_machine d) = FF_idle" by (cases "sm_cs (ff_machine d)") simp_all
  with i have "ff_step (sm_cs (ff_machine d)) (d, S_ok) = (FF_idle, d, S_ok)" by simp
  from ff_poll_eq [OF i(4,3) this] show "fst (ff_poll d) = S_ok" by (metis fst_conv)
  obtain s d' where p: "ff_poll d = (s, d')" by fastforce
  show "ff_wf 512 (snd (ff_poll d))" "ff_pending (snd (ff_poll d)) = None"
    "ff_mem (snd (ff_poll d)) = ff_mem d"
    using ff_poll_law [OF assms(1) p] assms(2) p by simp_all
  show "ff_pread (snd (ff_poll d)) = ff_pread d" "ff_geometry (snd (ff_poll d)) = ff_geometry d"
    "ff_readings (snd (ff_poll d)) = ff_readings d"
    using ff_poll_frame [OF assms(1) p] p by simp_all
qed

lemma ex_reads_ok:
  assumes "ff_wf 512 d" "ff_pending d = None" "ff_pread d = ff_pread ex_device" "ff_geometry d = ff_geometry ex_device"
  shows "reads_ok (ff_driver clock) ex_layout d"
proof (rule ff_reads_ok [OF assms(1,2)])
  show "ff_pread d = (\<lambda>_ _. [])" using assms(3) by (simp add: ex_device_def ex_with_def ff_new_def)
  show "ff_range d a 256" if "a \<in> record_addrs ex_layout" for a
    using that assms(1,4) by (auto simp: ex_record_addrs ff_range_def ff_wf_def ex_device_def ex_with_def)
qed

section \<open>Commits\<close>

text \<open>
  Where a commit starts: an idle journal on a device whose memory, readable after the poll of
  \<open>load\<close>, is a journal with the current snapshot \<open>old\<close>.
\<close>

definition commit_start ::
  "'d flash \<Rightarrow> ('d \<Rightarrow> nat \<Rightarrow> byte) \<Rightarrow> layout \<Rightarrow> journal \<Rightarrow> snapshot \<Rightarrow> 'd \<Rightarrow> bool" where
  "commit_start F mem L j old d \<longleftrightarrow> journal_idle F L j \<and> flash_valid F \<and> layout_wf L \<and> no_wrap L \<and>
     fst (fl_poll F d) \<noteq> S_busy \<and> reads_ok F L (snd (fl_poll F d)) \<and>
     journal_wf L (mem (snd (fl_poll F d))) \<and> journal_current L (mem (snd (fl_poll F d))) old"

lemma ex_commit_start: "commit_start (ff_driver clock) ff_mem ex_layout (journal_new (ff_driver clock) ex_layout) ex_snapshot ex_device"
  using ex_poll [OF ex_device_wf] ex_layout_wf ex_journal journal_new_idle
    ex_reads_ok [OF ex_poll(2,3,5,6) [OF ex_device_wf], of clock]
  by (auto simp: commit_start_def flash_valid_def ff_driver_def)

text \<open>
  C1. Crash safety of a commit, on every device that meets the contract of lib/boot/flash.h: after
  \<open>begin\<close> has accepted a snapshot, and any number of ticks later, the power may fail with the
  operation in progress cut short at any point; on the memory that is left, the next \<open>load\<close> returns
  \<open>ok\<close> with the snapshot that was current before, or with the new one under the next sequence number.
\<close>

theorem commit_crash_safe:
  assumes dev: "flash_device F mem pending good (sector_size L)"
    and wf: "good d" and start: "commit_start F mem L j old d" and snap: "snapshot_wf snap"
    and b: "journal_begin F L snap initialize j d = Some (S_ok, j1, d1)"
    and t: "journal_ticks F L n (j1, d1) = (j2, d2)"
    and crash: "crash_image (sector_size L) (pending d2) (mem d2) m'"
    and reboot: "good d3" "fst (fl_poll F d3) \<noteq> S_busy" "mem (snd (fl_poll F d3)) = m'" "reads_ok F L (snd (fl_poll F d3))"
  shows "\<exists>best a. journal_load F L j3 s3 d3 = (S_ok, best, j3\<lparr>j_latest := a\<rparr>, snd (fl_poll F d3)) \<and>
    best \<in> {old, snap\<lparr>snap_sequence := snap_sequence old + 1\<rparr>}"
proof -
  have inv: "good d1 \<and> journal_ok F L j1 \<and>
      journal_inv L old (snap\<lparr>snap_sequence := snap_sequence old + 1\<rparr>) (sm_cs (j_machine j1)) j1 (mem d1) (pending d1)"
    using flash_device.begin_correct [OF dev wf, of L j snap _ "snd (fl_poll F d)" old initialize] start snap b
    unfolding commit_start_def by (metis (no_types, lifting) option.inject prod.collapse prod.inject)
  have "journal_wf L m' \<and> (journal_current L m' old \<or> journal_current L m' (snap\<lparr>snap_sequence := snap_sequence old + 1\<rparr>))"
    using flash_device.ticks_crash [OF dev refl inv t crash] .
  moreover have "\<exists>a. journal_load F L j3 s3 d3 = (S_ok, best, j3\<lparr>j_latest := a\<rparr>, snd (fl_poll F d3))"
    if "journal_wf L m'" "journal_current L m' best" for best
    by (rule flash_device.load_current [OF dev reboot(1) _ _ prod.collapse [symmetric]])
      (use reboot(2-4) start that in \<open>auto simp: commit_start_def layout_wf_def\<close>)
  ultimately show ?thesis by blast
qed

text \<open>The example's \<open>begin\<close> is accepted.\<close>

lemma ex_begin:
  "\<exists>j1 d1. journal_begin (ff_driver clock) ex_layout ex_snapshot False (journal_new (ff_driver clock) ex_layout) ex_device =
     Some (S_ok, j1, d1) \<and> ff_mem d1 = ff_mem ex_device \<and> ff_pending d1 = None \<and> ff_wf 512 d1"
proof -
  let ?F = "ff_driver clock"
  note p1 = ex_poll [OF ex_device_wf]
  note p2 = ex_poll [OF p1(2,3)]
  have c: "snapshot_committable (ex_snapshot\<lparr>snap_sequence := snap_sequence ex_snapshot + 1\<rparr>)"
    "snap_sequence ex_snapshot \<noteq> - 1"
    using ex_snapshot_committable by (simp_all add: snapshot_committable_def snapshot_wf_def ex_snapshot_def)
  have st: "journal_idle ?F ex_layout (journal_new ?F ex_layout)" "flash_valid ?F"
    by (simp_all add: journal_new_idle flash_valid_def ff_driver_def)
  have pl: "fl_poll ?F ex_device = (S_ok, snd (ff_poll ex_device))" "fst (fl_poll ?F (snd (ff_poll ex_device))) \<noteq> S_busy"
    "fl_executing_bank ?F = None"
    using p1(1) p2(1) by (simp_all add: ff_driver_def prod_eq_iff)
  have j: "journal_wf ex_layout (ff_mem (snd (ff_poll ex_device)))"
    "journal_current ex_layout (ff_mem (snd (ff_poll ex_device))) ex_snapshot"
    using ex_journal p1(4) by simp_all
  show ?thesis
    using flash_device.begin_correct [OF ff.flash_device_axioms ex_device_wf(1) st ex_layout_wf(1,2) ex_snapshot_committable(2) pl(1) _
        ex_reads_ok [OF p1(2,3,5,6)] j, of False] pl(2,3) c p1(4)
    by auto
qed

theorem commit_crash_safe_witness:
  "\<exists>best a. journal_load (ff_driver of_nat) ex_layout (journal_new (ff_driver of_nat) ex_layout) default_snapshot ex_device =
     (S_ok, best, (journal_new (ff_driver of_nat) ex_layout)\<lparr>j_latest := a\<rparr>, snd (fl_poll (ff_driver of_nat) ex_device)) \<and>
     best \<in> {ex_snapshot, ex_snapshot\<lparr>snap_sequence := snap_sequence ex_snapshot + 1\<rparr>}"
proof -
  obtain j1 d1 where b: "journal_begin (ff_driver of_nat) ex_layout ex_snapshot False
      (journal_new (ff_driver of_nat) ex_layout) ex_device = Some (S_ok, j1, d1)"
    and d1: "ff_mem d1 = ff_mem ex_device" "ff_pending d1 = None"
    using ex_begin by blast
  have t: "journal_ticks (ff_driver of_nat) ex_layout 0 (j1, d1) = (j1, d1)" by simp
  have wf: "ff_wf (sector_size ex_layout) ex_device" using ex_device_wf(1) ex_layout_wf(4) by simp
  have "crash_image (sector_size ex_layout) (ff_pending d1) (ff_mem d1) (ff_mem ex_device)"
    using d1 by (simp add: crash_image_def)
  note th = commit_crash_safe [OF ff.flash_device_axioms wf ex_commit_start ex_snapshot_committable(2) b t this wf]
  show ?thesis
    by (rule th) (use ex_poll [OF ex_device_wf] ex_reads_ok [OF ex_poll(2,3,5,6) [OF ex_device_wf]] in
        \<open>simp_all add: ff_driver_def\<close>)
qed

text \<open>
  C23. A commit on the host's flash returns: whatever the system calls answer, \<open>commit\<close> ends once its
  time limit has passed for good on the clock.
\<close>

theorem host_commit_returns:
  assumes wf: "ff_wf (sector_size L) d" and start: "commit_start (ff_driver clock) ff_mem L j old d"
    and snap: "snapshot_wf snap"
    and late: "\<And>i. n \<le> i \<Longrightarrow> (if limit = 0 then operation_timeout L else limit) \<le> clock i - clock (ff_readings d)"
  shows "\<exists>s j' d'. journal_commit (ff_driver clock) L snap limit initialize j d = Some (s, j', d')"
proof -
  let ?timeout = "if limit = 0 then operation_timeout L else limit"
  let ?start = "clock (ff_readings d)"
  have cl: "late_clock clock n ?start ?timeout (\<lambda>i. clock i - ?start) = clock" using late by (rule late_clock_self)
  obtain s1 d1 where p1: "ff_poll d = (s1, d1)" by fastforce
  obtain s2 d2 where p2: "ff_poll d1 = (s2, d2)" by fastforce
  have w1: "ff_wf (sector_size L) d1" using ff_poll_law [OF wf p1] by blast
  have st: "s1 \<noteq> S_busy" "journal_idle (ff_driver clock) L j" "flash_valid (ff_driver clock)" "layout_wf L" "no_wrap L"
    "reads_ok (ff_driver clock) L d1" "journal_wf L (ff_mem d1)" "journal_current L (ff_mem d1) old"
    using start p1 by (auto simp: commit_start_def ff_driver_def)
  have "fst (fl_now (ff_driver clock) (snd (fl_poll (ff_driver clock) d1))) = ?start"
    using p2 ff_poll_frame(1) [OF wf p1] ff_poll_frame(1) [OF w1 p2] by (simp add: ff_driver_def ff_now_def)
  then show ?thesis
    using ff_timed.commit_returns [where early = clock and n = n and start = ?start and timeout = ?timeout
        and elapsed = "\<lambda>i. clock i - ?start", unfolded cl, OF refl wf st(2-5) snap _ st(1,6-8)] p1
    by (auto simp: ff_driver_def)
qed

theorem host_commit_returns_witness:
  "\<exists>s j' d'. journal_commit (ff_driver (\<lambda>i. of_nat (min i 1000))) ex_layout ex_snapshot 5 False
     (journal_new (ff_driver (\<lambda>i. of_nat (min i 1000))) ex_layout) ex_device = Some (s, j', d')"
proof (rule host_commit_returns [OF _ ex_commit_start ex_snapshot_committable(2), of 5])
  show "ff_wf (sector_size ex_layout) ex_device" using ex_device_wf(1) ex_layout_wf(4) by simp
  fix i :: nat assume "5 \<le> i"
  then have "5 \<le> min i 1000" "min i 1000 < 2 ^ 64" by simp_all
  then have "(5 :: time) \<le> of_nat (min i 1000)" by (simp add: word_le_nat_alt unat_of_nat)
  then show "(if 5 = (0 :: time) then operation_timeout ex_layout else 5) \<le>
      of_nat (min i 1000) - of_nat (min (ff_readings ex_device) 1000)"
    by (simp add: ex_device_def ex_with_def ff_new_def)
qed

end
