(* ===== verification/Boot_Host.thy ===== *)
theory Boot_Host
  imports Journal_Prompt Journal_Host
begin

text \<open>
  The boot policy on the host's flash: the contracts of \<open>boot_flash\<close> and \<open>prompt_flash\<close> hold of
  \<open>FileFlash\<close>, and the properties of \<open>Control\<close> with an example image on which they are applied.
\<close>

section \<open>A host flash whose reads succeed\<close>

definition ff_covers :: "layout \<Rightarrow> geometry \<Rightarrow> bool" where
  "ff_covers L g \<longleftrightarrow> geo_write_size g = write_size L \<and>
     (\<forall>b < 2. geo_base g \<le> metadata L ! b \<and> metadata L ! b + sector_size L \<le> geo_base g + geo_size g) \<and>
     (\<forall>b < 2. geo_base g \<le> slots L ! b \<and> slots L ! b + slot_size L \<le> geo_base g + geo_size g)"

definition ff_calm :: "layout \<Rightarrow> file_flash \<Rightarrow> bool" where
  "ff_calm L d \<longleftrightarrow> ff_wf (sector_size L) d \<and> layout_wf L \<and> no_wrap L \<and> ff_pread d = (\<lambda>_ _. []) \<and>
     ff_covers L (ff_geometry d)"

lemma ff_calm_frame:
  "ff_calm L d \<Longrightarrow> ff_wf (sector_size L) d' \<Longrightarrow> ff_pread d' = ff_pread d \<Longrightarrow> ff_geometry d' = ff_geometry d \<Longrightarrow> ff_calm L d'"
  by (simp add: ff_calm_def)

lemma ff_erase_frame:
  "ff_erase d a = (s, d') \<Longrightarrow> ff_pread d' = ff_pread d \<and> ff_geometry d' = ff_geometry d \<and> ff_readings d' = ff_readings d \<and>
     ff_pwrite d' = ff_pwrite d \<and> ff_fsync d' = ff_fsync d"
  by (auto simp: ff_erase_def split: if_splits)

lemma ff_program_frame:
  "ff_program d a bs = (s, d') \<Longrightarrow> ff_pread d' = ff_pread d \<and> ff_geometry d' = ff_geometry d \<and> ff_readings d' = ff_readings d \<and>
     ff_pwrite d' = ff_pwrite d \<and> ff_fsync d' = ff_fsync d"
  by (auto simp: ff_program_def split: if_splits prod.splits)

lemma ff_now_frame:
  "ff_now clock d = (t, d') \<Longrightarrow> t = clock (ff_readings d) \<and> d' = d\<lparr>ff_readings := ff_readings d + 1\<rparr>"
  by (auto simp: ff_now_def)

lemma ff_record_range:
  assumes "ff_calm L d" "a \<in> record_addrs L"
  shows "ff_range d a 256"
proof -
  have lw: "layout_wf L" "ff_open d" using assms(1) by (auto simp: ff_calm_def ff_wf_def)
  have "{a..<a + 256} \<subseteq> metadata_area L" using record_in_area [OF lw(1) assms(2)] .
  then have in_area: "a + i \<in> metadata_area L" if "i < 256" for i using that by auto
  have "a + 0 \<in> metadata_area L" "a + 255 \<in> metadata_area L" using in_area [of 0] in_area [of 255] by simp_all
  then obtain b c where bc: "b < 2" "metadata L ! b \<le> a" "c < 2" "a + 255 < metadata L ! c + sector_size L"
    by (auto simp: metadata_area_def)
  have "geo_base (ff_geometry d) \<le> metadata L ! b" "metadata L ! c + sector_size L \<le> geo_base (ff_geometry d) + geo_size (ff_geometry d)"
    using assms(1) bc(1,3) by (auto simp: ff_calm_def ff_covers_def)
  then show ?thesis using bc lw(2) by (simp add: ff_range_def) linarith
qed

lemma ff_read_calm:
  assumes "ff_calm L d" "ff_pending d = None" "ff_range d a n"
  shows "fst (ff_read d a n) = S_ok"
  using assms by (cases "sm_cs (ff_machine d)") (auto simp: ff_read_def ff_calm_def ff_wf_def ff_pending_def split: if_splits)

lemma ff_poll_idle:
  assumes "ff_wf ss d" "ff_pending d = None"
  shows "fst (ff_poll d) = S_ok"
proof -
  have i: "\<not> ff_requested d" "\<not> ff_closed d" "ff_open d" "sm_wf ff_derived (ff_machine d)" "sm_cs (ff_machine d) \<noteq> FF_execute"
    using assms by (auto simp: ff_wf_def ff_pending_def split: if_splits)
  then have "sm_cs (ff_machine d) = FF_idle" by (cases "sm_cs (ff_machine d)") simp_all
  with i have "ff_step (sm_cs (ff_machine d)) (d, S_ok) = (FF_idle, d, S_ok)" by simp
  from ff_poll_eq [OF i(4,3) this] show ?thesis by (metis fst_conv)
qed

lemma ff_driver_fields:
  "fl_read (ff_driver clock) = ff_read" "fl_erase (ff_driver clock) = ff_erase" "fl_program (ff_driver clock) = ff_program"
  "fl_poll (ff_driver clock) = ff_poll" "fl_now (ff_driver clock) = ff_now clock" "fl_executing_bank (ff_driver clock) = None"
  by (simp_all add: ff_driver_def)

interpretation ff_boot: boot_flash "ff_driver clock" ff_mem ff_pending "ff_calm L" L for clock L
proof (unfold_locales, unfold ff_driver_fields)
  fix d a n bs assume "ff_calm L d" "ff_read d a n = (S_ok, bs)"
  then show "bs = map (ff_mem d) [a..<a + n]" using ff_read_content by (auto simp: ff_calm_def)
next
  fix d a n assume "ff_calm L d" "ff_pending d = None"
  then show "fst (ff_read d a n) \<noteq> S_busy" using ff.read_idle [of "sector_size L" d undefined a n]
    by (simp add: ff_calm_def ff_driver_fields)
next
  fix d a s d' assume c: "ff_calm L d" and e: "ff_erase d a = (s, d')"
  then show "ff_calm L d' \<and> ff_mem d' = ff_mem d \<and> ff_pending d' = (if s = S_ok then Some (Op_erase a) else ff_pending d)"
    using ff_erase_law [of "sector_size L" d a s d'] ff_erase_frame [OF e] by (simp add: ff_calm_def)
next
  fix d a bs s d' assume c: "ff_calm L d" and e: "ff_program d a bs = (s, d')"
  then show "ff_calm L d' \<and> ff_mem d' = ff_mem d \<and> ff_pending d' = (if s = S_ok then Some (Op_program a bs) else ff_pending d)"
    using ff_program_law [of "sector_size L" d a bs s d'] ff_program_frame [OF e] by (simp add: ff_calm_def)
next
  fix d s d' assume c: "ff_calm L d" and p: "ff_poll d = (s, d')"
  have w: "ff_wf (sector_size L) d" using c by (simp add: ff_calm_def)
  show "ff_calm L d' \<and> (case ff_pending d of
         None \<Rightarrow> ff_mem d' = ff_mem d \<and> ff_pending d' = None
       | Some opn \<Rightarrow>
           (if s = S_busy then ff_pending d' = Some opn \<and> op_partial (sector_size L) opn (ff_mem d) (ff_mem d')
            else if s = S_ok then ff_pending d' = None \<and> ff_mem d' = apply_op (sector_size L) opn (ff_mem d)
            else ff_pending d' = None \<and> op_partial (sector_size L) opn (ff_mem d) (ff_mem d')))"
    using ff_poll_law [OF w p] ff_poll_frame [OF w p] ff_calm_frame [OF c] by blast
next
  fix d t d' assume c: "ff_calm L d" and n: "ff_now clock d = (t, d')"
  then show "ff_calm L d' \<and> ff_mem d' = ff_mem d \<and> ff_pending d' = ff_pending d"
    using ff.now_law [of "sector_size L" d clock t d'] ff_now_frame [OF n] by (simp add: ff_calm_def ff_driver_fields)
next
  fix d assume "ff_calm L d"
  then show "layout_wf L \<and> no_wrap L" by (simp add: ff_calm_def)
next
  fix d assume c: "ff_calm L d" "ff_pending d = None"
  then show "fst (ff_poll d) \<noteq> S_busy" using ff_poll_idle by (auto simp: ff_calm_def)
next
  fix d assume c: "ff_calm L d" "ff_pending d = None"
  then show "reads_ok (ff_driver clock) L d"
    using ff_reads_ok [of "sector_size L" d L] ff_record_range [OF c(1)] by (simp add: ff_calm_def)
qed (simp add: flash_valid_def ff_driver_def)

section \<open>A host flash on which nothing fails\<close>

definition steady_clock :: "layout \<Rightarrow> (nat \<Rightarrow> time) \<Rightarrow> bool" where
  "steady_clock L clock \<longleftrightarrow> (\<forall>i. clock i \<le> clock (Suc i) \<and> clock i - clock 0 < operation_timeout L)"

definition ff_prompt :: "layout \<Rightarrow> (nat \<Rightarrow> time) \<Rightarrow> file_flash \<Rightarrow> bool" where
  "ff_prompt L clock d \<longleftrightarrow> ff_calm L d \<and> ff_pwrite d = [] \<and> ff_fsync d = [] \<and> steady_clock L clock"

definition ff_patience :: "file_flash \<Rightarrow> nat" where
  "ff_patience d = (if sm_cs (ff_machine d) = FF_idle then 1 else 0)"

definition ff_clk :: "(nat \<Rightarrow> time) \<Rightarrow> file_flash \<Rightarrow> time" where
  "ff_clk clock d = clock (ff_readings d - 1)"

lemma steady_clock_mono:
  assumes "steady_clock L clock"
  shows "i \<le> k \<Longrightarrow> clock i \<le> clock k"
  by (rule lift_Suc_mono_le [of clock]) (use assms in \<open>simp_all add: steady_clock_def\<close>)

lemma ff_fill_ok: "\<exists>f'. ff_fill f base at limit [] = (True, f', [])"
proof (induction "limit - at" arbitrary: f at rule: less_induct)
  case less
  show ?case
  proof (cases "at < limit")
    case True
    define n where "n = min 4096 (limit - at)"
    have "limit - (at + n) < limit - at" using True by (simp add: n_def)
    moreover have "ff_fill f base at limit [] = ff_fill (file_write f (base + at) (replicate n 0xff)) base (at + n) limit []"
      using True by (subst ff_fill.simps) (simp add: n_def [symmetric], simp add: n_def)
    ultimately show ?thesis using less.hyps by metis
  next
    case False
    then show ?thesis by (subst ff_fill.simps) simp
  qed
qed

lemma ff_execute_ok:
  assumes "ff_pwrite d = []"
  shows "\<exists>f. ff_execute d = (True, f, [])"
  using assms ff_fill_ok [of "ff_file d" "ff_address d - geo_base (ff_geometry d)" 0 "geo_sector_size (ff_geometry d)"]
  by (cases "ff_operation d") (simp_all add: ff_execute_def Let_def)

lemma ff_poll_ok:
  assumes "ff_wf ss d" "ff_pwrite d = []" "ff_fsync d = []" "ff_poll d = (s, d')"
  shows "ff_pwrite d' = [] \<and> ff_fsync d' = []"
    and "ff_pending d \<noteq> None \<Longrightarrow> s = S_ok \<or> s = S_busy \<and> ff_patience d' < ff_patience d"
proof -
  obtain ns d1 s1 where st: "ff_step (sm_cs (ff_machine d)) (d, S_ok) = (ns, d1, s1)" by (metis prod_cases3)
  have w: "sm_wf ff_derived (ff_machine d)" "ff_open d" "\<not> ff_closed d" using assms(1) by (simp_all add: ff_wf_def)
  from ff_poll_eq [OF w(1,2) st] obtain m where m: "d' = d1\<lparr>ff_machine := m\<rparr>" "s = s1" "sm_cs m = ns"
    using assms(4) by (metis prod.inject)
  obtain f where f: "ff_execute d = (True, f, [])" using ff_execute_ok [OF assms(2)] by blast
  have "ff_pwrite d' = [] \<and> ff_fsync d' = [] \<and>
    (ff_pending d \<noteq> None \<longrightarrow> s = S_ok \<or> s = S_busy \<and> ff_patience d' < ff_patience d)"
  proof (cases "sm_cs (ff_machine d)")
    case FF_idle
    then have "d1 = d" "s1 = (if ff_requested d then S_busy else S_ok)" "ns = (if ff_requested d then FF_execute else FF_idle)"
      using st w(3) by (simp_all split: if_splits)
    then show ?thesis using m assms(2,3) FF_idle by (simp add: ff_pending_def ff_patience_def)
  next
    case FF_execute
    then have "s1 = S_ok" "ff_pwrite d1 = []" "ff_fsync d1 = []"
      using st w(3) f assms(3) by (simp_all add: Let_def split: if_splits) auto
    then show ?thesis using m by simp
  qed
  then show "ff_pwrite d' = [] \<and> ff_fsync d' = []"
    "ff_pending d \<noteq> None \<Longrightarrow> s = S_ok \<or> s = S_busy \<and> ff_patience d' < ff_patience d" by blast+
qed

lemma ff_erase_ok:
  assumes "ff_calm L d" "ff_pending d = None" "a \<in> set (metadata L)"
  shows "fst (ff_erase d a) = S_ok"
proof -
  have c: "layout_wf L" "ff_open d" "geo_sector_size (ff_geometry d) = sector_size L"
    using assms(1) by (auto simp: ff_calm_def ff_wf_def)
  obtain b where b: "b < 2" "metadata L ! b = a" using assms(3) c(1) by (metis in_set_conv_nth layout_wf_def)
  have "a mod sector_size L = 0" using assms(3) layout_wf_metadata [OF c(1)] by (metis empty_iff empty_set set_ConsD)
  moreover have "geo_base (ff_geometry d) \<le> a" "a + sector_size L \<le> geo_base (ff_geometry d) + geo_size (ff_geometry d)"
    using assms(1) b by (auto simp: ff_calm_def ff_covers_def)
  moreover have "\<not> ff_requested d" "sm_cs (ff_machine d) = FF_idle"
    using assms(1,2) by (cases "sm_cs (ff_machine d)"; auto simp: ff_pending_def ff_wf_def ff_calm_def split: if_splits)+
  ultimately show ?thesis using c by (auto simp: ff_erase_def ff_range_def)
qed

lemma ff_program_ok:
  assumes "ff_calm L d" "ff_pending d = None" "T \<in> record_addrs L" "k + length bs \<le> 256" "write_size L dvd k"
    "length bs = write_size L" "\<And>i. i < length bs \<Longrightarrow> ff_mem d (T + k + i) = 0xff"
  shows "fst (ff_program d (T + k) bs) = S_ok"
proof -
  have c: "layout_wf L" "geo_write_size (ff_geometry d) = write_size L" "ff_open d" "ff_wf (sector_size L) d"
    using assms(1) by (auto simp: ff_calm_def ff_covers_def ff_wf_def)
  have "write_size L dvd T"
  proof -
    have "256 dvd T" using record_addr_dvd [OF c(1) assms(3)] .
    moreover have "write_size L dvd 256" using c(1) layout_valid_sizes(4) [of L] by (auto simp: layout_wf_def)
    ultimately show ?thesis by (rule dvd_trans [rotated])
  qed
  then have al: "(T + k) mod write_size L = 0" using assms(5) by simp
  have rg: "ff_range d (T + k) (length bs)"
    using ff_record_range [OF assms(1,3)] assms(4) by (auto simp: ff_range_def)
  obtain old where r: "ff_read d (T + k) (write_size L) = (S_ok, old)"
    using ff_read_calm [OF assms(1,2) rg] assms(6) by (metis prod.collapse)
  have "old ! i AND bs ! i = bs ! i" if "i < length bs" for i
  proof -
    have "(0xff :: byte) = - 1" by simp
    then have "old ! i = - 1" using ff_read_content [OF c(4) r] assms(6,7) that by simp
    then show ?thesis by simp
  qed
  moreover have "\<not> ff_requested d" "sm_cs (ff_machine d) = FF_idle"
    using assms(2) c(4) by (cases "sm_cs (ff_machine d)"; auto simp: ff_pending_def ff_wf_def split: if_splits)+
  ultimately show ?thesis using al rg r c assms(6) by (simp add: ff_program_def)
qed

interpretation ff_prompt: prompt_flash "ff_driver clock" ff_mem ff_pending "ff_prompt L clock" L
  ff_patience "ff_clk clock" "clock 0" for clock L
proof (unfold_locales, unfold ff_driver_fields)
  fix d a n bs assume "ff_prompt L clock d" "ff_read d a n = (S_ok, bs)"
  then show "bs = map (ff_mem d) [a..<a + n]" using ff_read_content by (auto simp: ff_prompt_def ff_calm_def)
next
  fix d a n assume "ff_prompt L clock d" "ff_pending d = None"
  then show "fst (ff_read d a n) \<noteq> S_busy" using ff_boot.read_idle [of L d clock a n]
    by (simp add: ff_prompt_def ff_driver_fields)
next
  fix d a s d' assume c: "ff_prompt L clock d" and e: "ff_erase d a = (s, d')"
  then show "ff_prompt L clock d' \<and> ff_mem d' = ff_mem d \<and> ff_pending d' = (if s = S_ok then Some (Op_erase a) else ff_pending d)"
    using ff_boot.erase_law [of L d clock a s d'] ff_erase_frame [OF e] by (simp add: ff_prompt_def ff_driver_fields)
  show "ff_clk clock d' = ff_clk clock d" using ff_erase_frame [OF e] by (simp add: ff_clk_def)
next
  fix d a bs s d' assume c: "ff_prompt L clock d" and e: "ff_program d a bs = (s, d')"
  then show "ff_prompt L clock d' \<and> ff_mem d' = ff_mem d \<and> ff_pending d' = (if s = S_ok then Some (Op_program a bs) else ff_pending d)"
    using ff_boot.program_law [of L d clock a bs s d'] ff_program_frame [OF e] by (simp add: ff_prompt_def ff_driver_fields)
  show "ff_clk clock d' = ff_clk clock d" using ff_program_frame [OF e] by (simp add: ff_clk_def)
next
  fix d s d' assume c: "ff_prompt L clock d" and p: "ff_poll d = (s, d')"
  have w: "ff_wf (sector_size L) d" "ff_pwrite d = []" "ff_fsync d = []" "ff_calm L d"
    using c by (auto simp: ff_prompt_def ff_calm_def)
  show "ff_prompt L clock d' \<and> (case ff_pending d of
         None \<Rightarrow> ff_mem d' = ff_mem d \<and> ff_pending d' = None
       | Some opn \<Rightarrow>
           (if s = S_busy then ff_pending d' = Some opn \<and> op_partial (sector_size L) opn (ff_mem d) (ff_mem d')
            else if s = S_ok then ff_pending d' = None \<and> ff_mem d' = apply_op (sector_size L) opn (ff_mem d)
            else ff_pending d' = None \<and> op_partial (sector_size L) opn (ff_mem d) (ff_mem d')))"
    using ff_boot.poll_law [OF w(4), of clock s d'] p ff_poll_ok(1) [OF w(1-3) p] c
    unfolding ff_prompt_def ff_driver_fields by blast
  show "s = S_ok \<or> s = S_busy \<and> ff_patience d' < ff_patience d" if "ff_pending d \<noteq> None"
    using ff_poll_ok(2) [OF w(1-3) p that] .
  show "ff_clk clock d' = ff_clk clock d" using ff_poll_frame [OF w(1) p] by (simp add: ff_clk_def)
next
  fix d t d' assume c: "ff_prompt L clock d" and n: "ff_now clock d = (t, d')"
  have s: "steady_clock L clock" using c by (simp add: ff_prompt_def)
  show "ff_prompt L clock d' \<and> ff_mem d' = ff_mem d \<and> ff_pending d' = ff_pending d"
    using c ff_boot.now_law [of L d clock t d'] n ff_now_frame [OF n] by (simp add: ff_prompt_def ff_driver_fields)
  show "clock 0 \<le> ff_clk clock d \<and> ff_clk clock d \<le> t \<and> ff_clk clock d' = t \<and> t - clock 0 < operation_timeout L \<and>
      ff_patience d' \<le> ff_patience d"
    using ff_now_frame [OF n] s steady_clock_mono [OF s]
    by (auto simp: ff_clk_def ff_patience_def steady_clock_def)
next
  fix d assume "ff_prompt L clock d"
  then show "layout_wf L \<and> no_wrap L" by (simp add: ff_prompt_def ff_calm_def)
next
  fix d assume c: "ff_prompt L clock d" "ff_pending d = None"
  then show "fst (ff_poll d) \<noteq> S_busy" "reads_ok (ff_driver clock) L d"
    using ff_boot.idle_poll [of L d clock] ff_boot.idle_reads [of L d clock] by (auto simp: ff_prompt_def ff_driver_fields)
next
  fix d a assume "ff_prompt L clock d" "ff_pending d = None" "a \<in> set (metadata L)"
  then show "fst (ff_erase d a) = S_ok" using ff_erase_ok [of L d a] by (simp add: ff_prompt_def)
next
  fix d T k and bs :: "byte list"
  assume "ff_prompt L clock d" "ff_pending d = None" "T \<in> record_addrs L" "k + length bs \<le> 256" "write_size L dvd k"
    "length bs = write_size L" "\<And>i. i < length bs \<Longrightarrow> ff_mem d (T + k + i) = 0xff"
  then show "fst (ff_program d (T + k) bs) = S_ok" using ff_program_ok [of L d T k bs] by (simp add: ff_prompt_def)
next
  fix d a assume "ff_prompt L clock d" "ff_pending d = None" "a \<in> record_addrs L"
  then show "fst (ff_read d a kRecordSize) = S_ok"
    using ff_read_calm [of L d a 256] ff_record_range [of L d a] by (simp add: ff_prompt_def kRecordSize_def)
qed (simp add: flash_valid_def ff_driver_def)

text \<open>Any readings, made monotonic; a monotonic clock is its own.\<close>

definition run_max :: "(nat \<Rightarrow> time) \<Rightarrow> nat \<Rightarrow> time" where
  "run_max clock i = Max (clock ` {..i})"

lemma run_max_mono: "i \<le> k \<Longrightarrow> run_max clock i \<le> run_max clock k"
  unfolding run_max_def by (rule Max_mono) auto

lemma run_max_self: "mono clock \<Longrightarrow> run_max clock = clock"
  unfolding run_max_def by (rule ext, rule Max_eqI) (auto dest: monoD)

lemma ff_busy_refused:
  assumes "ff_wf ss d" "ff_pending d \<noteq> None"
  shows "fst (ff_erase d a) = S_busy" "fst (ff_program d a bs) = S_busy"
  using assms by (auto simp: ff_pending_def ff_wf_def ff_erase_def ff_program_def split: if_splits)

interpretation ff_contract: flash_contract "ff_driver (run_max clock)" ff_mem ff_pending "ff_wf ss" ss "ff_clk (run_max clock)"
  for clock ss
proof (unfold_locales, unfold ff_driver_fields)
  fix d a s d' assume "ff_erase d a = (s, d')"
  then show "ff_clk (run_max clock) d' = ff_clk (run_max clock) d" using ff_erase_frame by (simp add: ff_clk_def)
next
  fix d a bs s d' assume "ff_program d a bs = (s, d')"
  then show "ff_clk (run_max clock) d' = ff_clk (run_max clock) d" using ff_program_frame by (simp add: ff_clk_def)
next
  fix d s d' assume "ff_wf ss d" "ff_poll d = (s, d')"
  then show "ff_clk (run_max clock) d' = ff_clk (run_max clock) d" using ff_poll_frame by (simp add: ff_clk_def)
next
  fix d t d' assume "ff_now (run_max clock) d = (t, d')"
  then show "ff_clk (run_max clock) d \<le> t \<and> ff_clk (run_max clock) d' = t"
    by (auto simp: ff_clk_def ff_now_def run_max_mono)
qed (simp_all add: ff_busy_refused)

section \<open>What may be committed again\<close>

lemma current_committable: "journal_current L m s \<Longrightarrow> snapshot_committable s"
proof -
  assume c: "journal_current L m s"
  then obtain b where d: "decode b = Some s" by (auto simp: journal_current_def)
  have "list_all (\<lambda>im. img_installation im \<le> snap_counter s) (snap_images s)"
    using d by (auto simp: decode_def decode_image_def Let_def not_less split: if_splits option.splits)
  then show ?thesis using current_wf [OF c] decode_SomeD(8) [OF d] by (simp add: snapshot_committable_def)
qed

lemma committable_confirm:
  assumes "snapshot_committable s" "snap_sequence s \<noteq> - 1" "k < 2"
  shows "snapshot_committable (s\<lparr>snap_images := (snap_images s)[k := (snap_images s ! k)\<lparr>img_state := st\<rparr>],
    snap_sequence := snap_sequence s + 1\<rparr>)"
proof -
  have l: "length (snap_images s) = 2" using assms(1) by (simp add: snapshot_committable_def snapshot_wf_def)
  have "snap_sequence s + 1 \<noteq> 0" using assms(2) by (metis add.inverse_unique add.commute)
  then show ?thesis using assms(1,3) l
    by (auto simp: snapshot_committable_def snapshot_wf_def image_wf_def list_all_length nth_list_update)
qed

section \<open>Properties\<close>

text \<open>
  C6: a commit makes its snapshot durable. On a device that accepts the operations, finishes them and
  keeps within the time limit, committing a snapshot that may be stored returns \<open>ok\<close>, and every later
  \<open>load\<close> of the journal returns that snapshot under the next sequence number.
\<close>

theorem commit_durable:
  assumes dev: "prompt_flash F mem pending good L patience clk base" and st: "stored F L mem pending good j d s"
    and "fl_executing_bank F = None" "snapshot_wf snap" "snap_sequence s \<noteq> - 1" "snap_counter s \<le> snap_counter snap"
      "snapshot_committable (snap\<lparr>snap_sequence := snap_sequence s + 1\<rparr>)"
  shows "\<exists>j' d'. journal_commit F L snap 0 initialize j d = Some (S_ok, j', d') \<and>
    (\<exists>j'' d''. journal_load F L j' previous d' = (S_ok, snap\<lparr>snap_sequence := snap_sequence s + 1\<rparr>, j'', d''))"
proof -
  obtain j' d' where c: "journal_commit F L snap 0 initialize j d = Some (S_ok, j', d')"
    using prompt_flash.commit_prompt [OF assms] by blast
  have b: "boot_flash F mem pending good L" using dev by (rule prompt_flash.axioms)
  from boot_flash.commit_stored(1) [OF b st assms(4) c]
  show ?thesis using c boot_flash.load_stored [OF b, of j' d'] by metis
qed

text \<open>
  C2: the image that \<open>select\<close> chooses is one the journal held as pending or confirmed; it is for this
  product and revision, lies inside its slot, and the content of the slot has the CRC it was installed
  with, when \<open>select\<close> returns. A pending image is chosen as a trial, and the journal then holds it as one;
  every trial of an earlier boot is then held as rejected.
\<close>

theorem select_intact:
  assumes dev: "boot_flash F mem pending good L" and st: "stored F L mem pending good j d s" and crc: "crc_faithful be"
    and sel: "control_select F L be j d = Some (sel, j', d')" "sel_status sel = S_ok"
  shows "img_state (snap_images s ! sel_slot sel) \<in> {I_pending, I_confirmed} \<and>
    sel_trial sel = (img_state (snap_images s ! sel_slot sel) = I_pending) \<and>
    image_intact L (mem d') (sel_slot sel) (snap_images s ! sel_slot sel) \<and>
    (\<exists>s'. stored F L mem pending good j' d' s' \<and>
       (sel_trial sel \<longrightarrow> img_state (snap_images s' ! sel_slot sel) = I_trial) \<and>
       (\<forall>k < 2. img_state (snap_images s ! k) = I_trial \<longrightarrow> img_state (snap_images s' ! k) = I_rejected))"
proof -
  note ok = boot_flash.select_ok [OF dev st crc sel]
  have len: "length (snap_images s) = 2" using st current_wf by (auto simp: stored_def snapshot_wf_def)
  obtain s' where s': "stored F L mem pending good j' d' s'"
    "snap_images s' = selected (s\<lparr>snap_images := map reject_trial (snap_images s)\<rparr>) (sel_slot sel)"
    using ok(5) by blast
  have rej: "img_state (snap_images s' ! k) = I_rejected" if "k < 2" "img_state (snap_images s ! k) = I_trial" for k
  proof (cases "k = sel_slot sel")
    case True
    then show ?thesis using that(2) ok(2) by simp
  next
    case False
    then show ?thesis using that s'(2) len by (simp add: selected_def Let_def reject_trial_def nth_list_update)
  qed
  have tr: "img_state (snap_images s' ! sel_slot sel) = I_trial" if "sel_trial sel"
    using that s'(2) len ok(1,3) by (simp add: selected_def Let_def reject_trial_def)
  show ?thesis
  proof (intro conjI)
    show "img_state (snap_images s ! sel_slot sel) \<in> {I_pending, I_confirmed}" by (rule ok(2))
    show "sel_trial sel = (img_state (snap_images s ! sel_slot sel) = I_pending)" by (rule ok(3))
    show "image_intact L (mem d') (sel_slot sel) (snap_images s ! sel_slot sel)" by (rule ok(4))
    show "\<exists>s'. stored F L mem pending good j' d' s' \<and>
       (sel_trial sel \<longrightarrow> img_state (snap_images s' ! sel_slot sel) = I_trial) \<and>
       (\<forall>k < 2. img_state (snap_images s ! k) = I_trial \<longrightarrow> img_state (snap_images s' ! k) = I_rejected)"
      using s'(1) tr rej by blast
  qed
qed

text \<open>
  C3: a new image is tried once. After \<open>select\<close> has chosen an image as a trial, a boot that finds the
  memory as it was left (no confirmation in between) does not choose that slot.
\<close>

theorem trial_boots_once:
  assumes "boot_flash F mem pending good L" "stored F L mem pending good j d s" "crc_faithful be"
    "control_select F L be j d = Some (sel, j1, d1)" "sel_status sel = S_ok" "sel_trial sel"
    and "stored F L mem pending good j2 d2 s2" "mem d2 = mem d1"
    and "control_select F L be j2 d2 = Some (sel2, j3, d3)" "sel_status sel2 = S_ok"
  shows "sel_slot sel2 \<noteq> sel_slot sel"
  using assms by (rule boot_flash.trial_once)

text \<open>
  C7: confirmation of the running image, on a device that accepts the operations, finishes them and keeps
  within the time limit. \<open>confirm\<close> returns: \<open>ok\<close> for an image on trial or confirmed already, \<open>not_running\<close>
  for an image in any other state and \<open>unsupported\<close> for a slot that is none. After \<open>ok\<close> the next \<open>load\<close> of
  the journal gives that image as confirmed and the other one as it was; after an error, both as they were.
\<close>

theorem confirm_durable:
  assumes dev: "prompt_flash F mem pending good L patience clk base" and st: "stored F L mem pending good j d s"
    and bank: "fl_executing_bank F = None" and seq: "snap_sequence s \<noteq> - 1"
  shows "\<exists>r j' d' s' j'' d''. confirm_image F L slot j d = Some (r, j', d') \<and>
    r = (if 2 \<le> slot then S_unsupported
         else if img_state (snap_images s ! slot) \<in> {I_trial, I_confirmed} then S_ok else S_not_running) \<and>
    journal_load F L j' previous d' = (S_ok, s', j'', d'') \<and>
    snap_images s' = (if r = S_ok then (snap_images s)[slot := (snap_images s ! slot)\<lparr>img_state := I_confirmed\<rparr>]
                      else snap_images s)"
proof -
  have bf: "boot_flash F mem pending good L" using dev by (rule prompt_flash.axioms)
  obtain j1 d1 where l: "journal_load F L j default_snapshot d = (S_ok, s, j1, d1)" "stored F L mem pending good j1 d1 s"
    using boot_flash.load_stored [OF bf st] by metis
  let ?im = "snap_images s ! slot"
  let ?new = "s\<lparr>snap_images := (snap_images s)[slot := ?im\<lparr>img_state := I_confirmed\<rparr>]\<rparr>"
  show ?thesis
  proof (cases "slot < 2 \<and> img_state ?im \<in> {I_trial, I_confirmed}")
    case True
    have w: "snapshot_committable s" using st current_committable by (auto simp: stored_def)
    have wf: "snapshot_wf ?new" using snapshot_wf_update [of s slot] w True by (simp add: snapshot_committable_def)
    obtain j2 d2 where "journal_commit F L ?new 0 False j1 d1 = Some (S_ok, j2, d2)"
      using prompt_flash.commit_prompt [OF dev l(2) bank wf seq, of False] committable_confirm [OF w seq, of slot I_confirmed] True
      by (simp only: snapshot.simps) auto
    then obtain j' d' where c: "confirm_image F L slot j d = Some (S_ok, j', d')"
      using True l(1) by (auto simp: confirm_image_def Let_def)
    obtain s' where s': "stored F L mem pending good j' d' s'" "snap_images s' = snap_images ?new"
      using boot_flash.confirm_ok [OF bf st c] by auto
    obtain j'' d'' where "journal_load F L j' previous d' = (S_ok, s', j'', d'')"
      using boot_flash.load_stored [OF bf s'(1), of previous] by metis
    then show ?thesis using c s'(2) True by (intro exI conjI) (assumption | simp)+
  next
    case False
    then obtain r j' d' where c: "confirm_image F L slot j d = Some (r, j', d')" "stored F L mem pending good j' d' s"
      "r = (if 2 \<le> slot then S_unsupported else S_not_running)"
      using st l by (cases "slot < 2") (auto simp: confirm_image_def Let_def)
    obtain j'' d'' where "journal_load F L j' previous d' = (S_ok, s, j'', d'')"
      using boot_flash.load_stored [OF bf c(2), of previous] by metis
    then show ?thesis using c(1,3) False by (intro exI conjI) (assumption | auto split: if_splits)+
  qed
qed

section \<open>An example boot\<close>

definition ex_image :: "u64 \<Rightarrow> image_state \<Rightarrow> image" where
  "ex_image n st = default_image\<lparr>img_installation := n, img_size := 1, img_crc := 0xff000000, img_state := st,
     img_product := 1, img_revision := 1\<rparr>"

definition ex_boot_snapshot :: "image_state \<Rightarrow> snapshot" where
  "ex_boot_snapshot st = \<lparr>snap_sequence = 1, snap_counter = 2, snap_images = [ex_image 1 I_confirmed, ex_image 2 st]\<rparr>"

lemma ex_crc: "crc32_update 0 [0xff] = 0xff000000"
  by (simp add: crc32_update_def crc_byte_unfold crc_bit_def)

lemma ex_boot_committable: "snapshot_committable (ex_boot_snapshot st)" "snapshot_wf (ex_boot_snapshot st)"
  by (simp_all add: ex_boot_snapshot_def ex_image_def default_image_def default_version_def
      snapshot_committable_def snapshot_wf_def image_wf_def)

lemma ex_prompt:
  assumes "snapshot_wf s"
  shows "ff_prompt ex_layout (\<lambda>_. c) (ex_with s)"
proof -
  have "steady_clock ex_layout (\<lambda>_. c)" by (simp add: steady_clock_def ex_layout_def)
  moreover have "ff_pread (ex_with s) = (\<lambda>_ _. [])" "ff_pwrite (ex_with s) = []" "ff_fsync (ex_with s) = []"
    by (simp_all add: ex_with_def ff_new_def)
  moreover have "ff_covers ex_layout (ff_geometry (ex_with s))"
    by (auto simp: ff_covers_def ex_with_def ex_layout_def less_2_cases_iff)
  ultimately show ?thesis using ex_with_wf(1) [OF assms] ex_layout_wf by (simp add: ff_prompt_def ff_calm_def)
qed

abbreviation ex_flash :: "file_flash flash" where
  "ex_flash \<equiv> ff_driver (\<lambda>_. 0)"

abbreviation ex_stored :: "journal \<Rightarrow> file_flash \<Rightarrow> snapshot \<Rightarrow> bool" where
  "ex_stored \<equiv> stored ex_flash ex_layout ff_mem ff_pending (ff_prompt ex_layout (\<lambda>_. 0))"

lemma ex_stored_start:
  assumes "snapshot_committable s"
  shows "ex_stored (journal_new ex_flash ex_layout) (ex_with s) s"
  using ex_prompt ex_with_wf ex_with_journal [OF assms] assms journal_new_idle
  by (auto simp: stored_def snapshot_committable_def)

theorem commit_durable_witness:
  "\<exists>j' d' j'' d''. journal_commit ex_flash ex_layout (ex_boot_snapshot I_trial) 0 False
       (journal_new ex_flash ex_layout) (ex_with (ex_boot_snapshot I_pending)) = Some (S_ok, j', d') \<and>
     journal_load ex_flash ex_layout j' default_snapshot d' =
       (S_ok, (ex_boot_snapshot I_trial)\<lparr>snap_sequence := 2\<rparr>, j'', d'')"
proof -
  have "snapshot_committable ((ex_boot_snapshot I_trial)\<lparr>snap_sequence := snap_sequence (ex_boot_snapshot I_pending) + 1\<rparr>)"
    "snap_sequence (ex_boot_snapshot I_pending) \<noteq> - 1" "snap_counter (ex_boot_snapshot I_pending) \<le> snap_counter (ex_boot_snapshot I_trial)"
    "snap_sequence (ex_boot_snapshot I_pending) + 1 = 2"
    using ex_boot_committable [of I_trial]
    by (simp_all add: snapshot_committable_def snapshot_wf_def ex_boot_snapshot_def)
  then show ?thesis
    using commit_durable [OF ff_prompt.prompt_flash_axioms ex_stored_start [OF ex_boot_committable(1)] _ ex_boot_committable(2)]
    by (metis ff_driver_fields(6))
qed

definition ex_crc_service :: "unit crc_backend" where
  "ex_crc_service = \<lparr>cb_context = (), cb_update = None, cb_in_interrupt = None\<rparr>"

lemma ex_crc_faithful: "crc_faithful ex_crc_service"
  by (simp add: crc_faithful_def ex_crc_service_def service_update_def)

text \<open>The slots of the example are erased, so that an image of one byte \<open>0xff\<close> verifies.\<close>

definition ex_ready :: "journal \<Rightarrow> file_flash \<Rightarrow> snapshot \<Rightarrow> bool" where
  "ex_ready j d s \<longleftrightarrow> ex_stored j d s \<and> ff_mem d 1024 = 0xff \<and> ff_mem d 1536 = 0xff"

lemma ex_verify:
  assumes "ex_ready j d s" "k < 2" "n \<noteq> 0"
  shows "control_verify ex_flash ex_layout ex_crc_service d k (ex_image n st) = S_ok"
proof -
  have "ff_prompt ex_layout (\<lambda>_. 0) d" and p: "ff_pending d = None" and m: "ff_mem d 1024 = 0xff" "ff_mem d 1536 = 0xff"
    using assms(1) unfolding ex_ready_def stored_def by blast+
  then have c: "ff_calm ex_layout d" by (simp add: ff_prompt_def)
  have k: "slots ex_layout ! k = 1024 \<or> slots ex_layout ! k = 1536" using less_2_cases [OF assms(2)] by (auto simp: ex_layout_def)
  have d: "ff_calm ex_layout d" "ff_pending d = None" "ff_mem d (slots ex_layout ! k) = 0xff" "ff_wf (sector_size ex_layout) d"
    using c p m k by (auto simp: ff_calm_def)
  have g: "geo_base (ff_geometry d) \<le> slots ex_layout ! k" "slots ex_layout ! k + slot_size ex_layout \<le> geo_base (ff_geometry d) + geo_size (ff_geometry d)"
    "ff_open d" using c assms(2) unfolding ff_calm_def ff_covers_def ff_wf_def by blast+
  moreover have "slot_size ex_layout = 512" by (simp add: ex_layout_def)
  ultimately have "ff_range d (slots ex_layout ! k) 1" unfolding ff_range_def by linarith
  from ff_read_calm [OF d(1,2) this] obtain bs where r: "ff_read d (slots ex_layout ! k) 1 = (S_ok, bs)"
    by (metis prod.collapse)
  then have "bs = [0xff]" using ff_read_content [OF d(4) r] d(3) by simp
  moreover have "verify_loop ex_flash ex_crc_service d a 1 1 c = Inr c" for a c by (subst verify_loop.simps) simp
  moreover have "verify_loop ex_flash ex_crc_service d (slots ex_layout ! k) 1 0 0 =
      verify_loop ex_flash ex_crc_service d (slots ex_layout ! k) 1 1 (service_update ex_crc_service 0 bs)"
    using r by (subst verify_loop.simps) (simp add: Let_def ff_driver_fields)
  moreover have "service_update ex_crc_service 0 [0xff] = 0xff000000"
    using ex_crc by (simp add: ex_crc_service_def service_update_def)
  ultimately have "verify_loop ex_flash ex_crc_service d (slots ex_layout ! k) 1 0 0 = Inr 0xff000000" by simp
  moreover have "flash_valid ex_flash" by (simp add: flash_valid_def ff_driver_def)
  moreover have "slot_size ex_layout = 512" "product ex_layout = 1" "revision ex_layout = 1" by (simp_all add: ex_layout_def)
  ultimately show ?thesis
    using assms(2,3) ex_layout_wf(3) by (simp add: control_verify_def ex_image_def)
qed

lemma ex_outside: "1024 \<notin> metadata_area ex_layout" "1536 \<notin> metadata_area ex_layout"
proof -
  have "(\<exists>b < 2. P b) \<longleftrightarrow> P 0 \<or> P (1 :: nat)" for P by (auto simp: less_2_cases_iff)
  then show "1024 \<notin> metadata_area ex_layout" "1536 \<notin> metadata_area ex_layout"
    by (simp_all add: metadata_area_def ex_layout_def)
qed

lemma ex_ready_commit:
  assumes "ex_ready j d s" "snapshot_wf snap" "journal_commit ex_flash ex_layout snap 0 False j d = Some (S_ok, j', d')"
  shows "ex_ready j' d' (snap\<lparr>snap_sequence := snap_sequence s + 1\<rparr>)"
proof -
  have st: "ex_stored j d s" using assms(1) by (simp add: ex_ready_def)
  note c = ff_prompt.commit_stored [OF st assms(2,3)]
  show ?thesis using c(1) c(2) [OF ex_outside(1)] c(2) [OF ex_outside(2)] assms(1) by (simp add: ex_ready_def)
qed

lemma ex_ready_load:
  assumes "ex_ready j d s"
  obtains j' d' where "journal_load ex_flash ex_layout j previous d = (S_ok, s, j', d')" "ex_ready j' d' s"
proof -
  have st: "ex_stored j d s" using assms by (simp add: ex_ready_def)
  obtain j' d' where "journal_load ex_flash ex_layout j previous d = (S_ok, s, j', d')" "ex_stored j' d' s" "ff_mem d' = ff_mem d"
    using ff_prompt.load_stored [OF st] by blast
  then show thesis using that assms by (simp add: ex_ready_def)
qed

definition ex_images :: "image_state \<Rightarrow> image list" where
  "ex_images st = [ex_image 1 I_confirmed, ex_image 2 st]"

lemma ex_commit:
  assumes "ex_ready j d s" "snap_counter s = 2" "snap_counter snap = 2" "snap_images snap = ex_images st" "snap_sequence s < 5"
  obtains j' d' where "journal_commit ex_flash ex_layout snap 0 False j d = Some (S_ok, j', d')"
    "ex_ready j' d' (snap\<lparr>snap_sequence := snap_sequence s + 1\<rparr>)"
proof -
  have w: "snapshot_wf snap" using assms(4) ex_boot_committable(2) [of st]
    by (simp add: snapshot_wf_def ex_images_def ex_boot_snapshot_def)
  have "snap_sequence s \<noteq> - 1" using assms(5) by auto
  moreover have "snap_sequence s + 1 \<noteq> 0" using \<open>snap_sequence s \<noteq> - 1\<close> by (simp add: eq_neg_iff_add_eq_0)
  moreover from this have "snapshot_committable (snap\<lparr>snap_sequence := snap_sequence s + 1\<rparr>)"
    using w assms(3,4) by (simp add: snapshot_committable_def snapshot_wf_def ex_images_def ex_image_def)
  moreover have "ex_stored j d s" using assms(1) by (simp add: ex_ready_def)
  moreover have "snap_counter s \<le> snap_counter snap" using assms(2,3) by simp
  ultimately obtain j' d' where c: "journal_commit ex_flash ex_layout snap 0 False j d = Some (S_ok, j', d')"
    using ff_prompt.commit_prompt [OF _ ff_driver_fields(6) w] by blast
  from that [OF c ex_ready_commit [OF assms(1) w c]] show thesis .
qed

lemma ex_select_trial:
  assumes "ex_ready j d s" "snap_counter s = 2" "snap_images s = ex_images I_pending" "snap_sequence s < 4"
  obtains sel j' d' where "control_select ex_flash ex_layout ex_crc_service j d = Some (sel, j', d')"
    "sel_status sel = S_ok" "sel_trial sel" "sel_slot sel = 1"
    "ex_ready j' d' (s\<lparr>snap_images := ex_images I_trial, snap_sequence := snap_sequence s + 1\<rparr>)"
proof -
  obtain j1 d1 where l: "journal_load ex_flash ex_layout j default_snapshot d = (S_ok, s, j1, d1)" "ex_ready j1 d1 s"
    using ex_ready_load [OF assms(1)] by blast
  have im: "map reject_trial (snap_images s) = snap_images s" "\<not> list_ex (\<lambda>im. img_state im = I_trial) (snap_images s)"
    "(snap_images s)[1 := (snap_images s ! 1)\<lparr>img_state := I_trial\<rparr>] = ex_images I_trial"
    "snap_images s ! 1 = ex_image 2 I_pending" "snap_images s ! 0 = ex_image 1 I_confirmed"
    using assms(3) by (simp_all add: ex_images_def reject_trial_def ex_image_def)
  have "snap_sequence s < 5" using assms(4) by (rule order_less_trans) simp
  then obtain j' d' where c: "journal_commit ex_flash ex_layout (s\<lparr>snap_images := ex_images I_trial\<rparr>) 0 False j1 d1 = Some (S_ok, j', d')"
    "ex_ready j' d' (s\<lparr>snap_images := ex_images I_trial, snap_sequence := snap_sequence s + 1\<rparr>)"
    using ex_commit [OF l(2) assms(2), of "s\<lparr>snap_images := ex_images I_trial\<rparr>" I_trial] assms(2) by auto
  have v: "control_verify ex_flash ex_layout ex_crc_service d1 1 (ex_image 2 I_pending) = S_ok"
    using ex_verify [OF l(2)] by simp
  have "img_installation (ex_image 1 I_confirmed) < img_installation (ex_image 2 I_pending)"
    "img_state (ex_image 2 I_pending) = I_pending" by (simp_all add: ex_image_def)
  then show thesis using that c l(1) im v by (simp add: control_select_def Let_def del: One_nat_def)
qed

lemma ex_select_fallback:
  assumes "ex_ready j d s" "snap_counter s = 2" "snap_images s = ex_images I_trial" "snap_sequence s < 4"
  obtains sel j' d' where "control_select ex_flash ex_layout ex_crc_service j d = Some (sel, j', d')"
    "sel_status sel = S_ok" "sel_slot sel = 0"
proof -
  obtain j1 d1 where l: "journal_load ex_flash ex_layout j default_snapshot d = (S_ok, s, j1, d1)" "ex_ready j1 d1 s"
    using ex_ready_load [OF assms(1)] by blast
  have im: "map reject_trial (snap_images s) = ex_images I_rejected" "list_ex (\<lambda>im. img_state im = I_trial) (snap_images s)"
    using assms(3) by (simp_all add: ex_images_def reject_trial_def ex_image_def)
  have "snap_sequence s < 5" using assms(4) by (rule order_less_trans) simp
  then obtain j' d' where c: "journal_commit ex_flash ex_layout (s\<lparr>snap_images := ex_images I_rejected\<rparr>) 0 False j1 d1 = Some (S_ok, j', d')"
    "ex_ready j' d' (s\<lparr>snap_images := ex_images I_rejected, snap_sequence := snap_sequence s + 1\<rparr>)"
    using ex_commit [OF l(2) assms(2), of "s\<lparr>snap_images := ex_images I_rejected\<rparr>" I_rejected] assms(2) by auto
  have v: "control_verify ex_flash ex_layout ex_crc_service d' 0 (ex_image 1 I_confirmed) = S_ok"
    using ex_verify [OF c(2)] by simp
  have "ex_images I_rejected ! 0 = ex_image 1 I_confirmed" "ex_images I_rejected ! 1 = ex_image 2 I_rejected"
    "img_installation (ex_image 1 I_confirmed) < img_installation (ex_image 2 I_rejected)"
    "img_state (ex_image 1 I_confirmed) = I_confirmed" "img_state (ex_image 2 I_rejected) = I_rejected"
    by (simp_all add: ex_image_def ex_images_def)
  then show thesis using that c(1) l(1) im v by (simp add: control_select_def Let_def del: One_nat_def)
qed

lemma ex_ready_start:
  "ex_ready (journal_new ex_flash ex_layout) (ex_with (ex_boot_snapshot st)) (ex_boot_snapshot st)"
proof -
  have "ff_mem (ex_with (ex_boot_snapshot st)) x = 0xff" if "256 \<le> x" "x < 2048" for x
    using that ex_boot_committable(2) [of st] by (simp add: ff_mem_def ex_with_def nth_append)
  then show ?thesis using ex_stored_start [OF ex_boot_committable(1)] by (simp add: ex_ready_def)
qed

lemma ex_boot_fields [simp]:
  "snap_counter (ex_boot_snapshot st) = 2" "snap_images (ex_boot_snapshot st) = ex_images st" "snap_sequence (ex_boot_snapshot st) = 1"
  by (simp_all add: ex_boot_snapshot_def ex_images_def)

theorem select_intact_witness:
  "\<exists>sel j' d'. control_select ex_flash ex_layout ex_crc_service (journal_new ex_flash ex_layout)
       (ex_with (ex_boot_snapshot I_pending)) = Some (sel, j', d') \<and> sel_slot sel = 1 \<and>
     image_intact ex_layout (ff_mem d') 1 (ex_image 2 I_pending)"
proof -
  have r: "ex_ready (journal_new ex_flash ex_layout) (ex_with (ex_boot_snapshot I_pending)) (ex_boot_snapshot I_pending)"
    by (rule ex_ready_start)
  obtain sel j' d' where s: "control_select ex_flash ex_layout ex_crc_service (journal_new ex_flash ex_layout)
       (ex_with (ex_boot_snapshot I_pending)) = Some (sel, j', d')" "sel_status sel = S_ok" "sel_slot sel = 1"
    by (rule ex_select_trial [OF r ex_boot_fields(1,2)]) simp
  have "ex_stored (journal_new ex_flash ex_layout) (ex_with (ex_boot_snapshot I_pending)) (ex_boot_snapshot I_pending)"
    using r by (simp add: ex_ready_def)
  from select_intact [OF ff_prompt.boot_flash_axioms this ex_crc_faithful s(1,2)] s show ?thesis
    by (auto simp: ex_images_def)
qed

theorem trial_boots_once_witness:
  "\<exists>sel j1 d1 sel2 j3 d3.
     control_select ex_flash ex_layout ex_crc_service (journal_new ex_flash ex_layout)
       (ex_with (ex_boot_snapshot I_pending)) = Some (sel, j1, d1) \<and> sel_trial sel \<and>
     control_select ex_flash ex_layout ex_crc_service j1 d1 = Some (sel2, j3, d3) \<and> sel_slot sel2 \<noteq> sel_slot sel"
proof -
  have r: "ex_ready (journal_new ex_flash ex_layout) (ex_with (ex_boot_snapshot I_pending)) (ex_boot_snapshot I_pending)"
    by (rule ex_ready_start)
  obtain sel j1 d1 where s: "control_select ex_flash ex_layout ex_crc_service (journal_new ex_flash ex_layout)
       (ex_with (ex_boot_snapshot I_pending)) = Some (sel, j1, d1)" "sel_status sel = S_ok" "sel_trial sel"
    "ex_ready j1 d1 ((ex_boot_snapshot I_pending)\<lparr>snap_images := ex_images I_trial, snap_sequence := snap_sequence (ex_boot_snapshot I_pending) + 1\<rparr>)"
    by (rule ex_select_trial [OF r ex_boot_fields(1,2)]) simp
  obtain sel2 j3 d3 where s2: "control_select ex_flash ex_layout ex_crc_service j1 d1 = Some (sel2, j3, d3)" "sel_status sel2 = S_ok"
    by (rule ex_select_fallback [OF s(4)]) simp_all
  note st = r [unfolded ex_ready_def, THEN conjunct1] s(4) [unfolded ex_ready_def, THEN conjunct1]
  from trial_boots_once [OF ff_prompt.boot_flash_axioms st(1) ex_crc_faithful s(1-3) st(2) refl s2] s s2 show ?thesis by blast
qed

theorem confirm_durable_witness:
  "\<exists>j' d' s' j'' d''. confirm_image ex_flash ex_layout 1 (journal_new ex_flash ex_layout)
       (ex_with (ex_boot_snapshot I_trial)) = Some (S_ok, j', d') \<and>
     journal_load ex_flash ex_layout j' default_snapshot d' = (S_ok, s', j'', d'') \<and> snap_images s' = ex_images I_confirmed"
proof -
  have im: "(ex_images I_trial)[1 := (ex_images I_trial ! 1)\<lparr>img_state := I_confirmed\<rparr>] = ex_images I_confirmed"
    "img_state (ex_images I_trial ! 1) = I_trial"
    by (simp_all add: ex_images_def ex_image_def)
  have "snap_sequence (ex_boot_snapshot I_trial) \<noteq> - 1" by simp
  from confirm_durable [OF ff_prompt.prompt_flash_axioms ex_stored_start [OF ex_boot_committable(1)] ff_driver_fields(6) this,
      of 1 default_snapshot] im
  show ?thesis by (simp del: One_nat_def)
qed

end
