(* ===== verification/Boot_Properties.thy ===== *)
theory Boot_Properties
  imports Boot_Host
begin

text \<open>Properties of the record codec, the CRC, the journal's scan and the host's flash.\<close>

text \<open>
  C11: a record that is encoded is read back as the same snapshot, for both write granularities, if the
  snapshot has a sequence number and no installation above its counter; any other snapshot is refused.
\<close>

theorem record_roundtrip:
  assumes "snapshot_wf s"
  shows "decode (encode s ws) = (if snapshot_committable s then Some s else None)"
  using assms by (rule decode_encode)

definition sample_snapshot :: snapshot where
  "sample_snapshot = default_snapshot\<lparr>snap_sequence := 1\<rparr>"

lemma sample_snapshot_ok: "snapshot_wf sample_snapshot" "snapshot_committable sample_snapshot"
  by (simp_all add: sample_snapshot_def default_snapshot_def default_image_def default_version_def
      snapshot_committable_def snapshot_wf_def image_wf_def)

theorem record_roundtrip_witness: "decode (encode sample_snapshot 32) = Some sample_snapshot"
  using record_roundtrip [OF sample_snapshot_ok(1), of 32] sample_snapshot_ok(2) by simp

text \<open>
  C12: a torn record is refused. Whatever bytes a write that was cut short in the commit trailer has left
  there, the record is either not accepted or is the complete record.
\<close>

theorem torn_record_refused:
  assumes "decode R = Some r" "length R = 256" and "length b = 256"
    and "\<And>k. k < trailer_of R \<Longrightarrow> b ! k = R ! k"
  shows "decode b = None \<or> b = R"
proof (cases "decode b")
  case (Some t)
  then show ?thesis using decode_torn [OF assms(1,2) Some assms(3,4)] by simp
qed simp

theorem torn_record_refused_witness:
  "decode (take 240 (encode sample_snapshot 16) @ replicate 16 0) = None \<or>
     take 240 (encode sample_snapshot 16) @ replicate 16 0 = encode sample_snapshot 16"
proof (rule torn_record_refused)
  have v: "read32 (encode sample_snapshot 16) 4 = 1" using encode_version [OF sample_snapshot_ok(1), of 16] by simp
  show "decode (encode sample_snapshot 16) = Some sample_snapshot"
    using decode_encode [OF sample_snapshot_ok(1)] sample_snapshot_ok(2) by simp
  show l: "length (encode sample_snapshot 16) = 256" using sample_snapshot_ok(1) by simp
  show "length (take 240 (encode sample_snapshot 16) @ replicate 16 0) = 256" using l by simp
  fix k assume "k < trailer_of (encode sample_snapshot 16)"
  then have "k < 240" using v by (simp add: trailer_of_def)
  then show "(take 240 (encode sample_snapshot 16) @ replicate 16 0) ! k = encode sample_snapshot 16 ! k"
    using l by (simp add: nth_append)
qed

text \<open>
  C21: the CRC detects every burst: two inputs that differ only inside a window of at most four bytes
  have different checksums, whatever surrounds the window.
\<close>

theorem crc_detects_burst:
  assumes "length as \<le> 4" "length bs = length as" "as \<noteq> bs"
  shows "crc32_update v (xs @ as @ ys) \<noteq> crc32_update v (xs @ bs @ ys)"
  using crc32_burst [OF assms(1,2)] assms(3) by blast

theorem crc_detects_burst_witness: "crc32_update 0 ([7] @ [1, 2] @ [9]) \<noteq> crc32_update 0 ([7] @ [2, 1] @ [9])"
  by (rule crc_detects_burst) simp_all

text \<open>
  C22: the bit-serial update is CRC-32/ISO-HDLC (its check value), and a calculation may be made in
  pieces: updating with two pieces is updating with their concatenation.
\<close>

theorem crc_incremental:
  "crc32_calculate [0x31, 0x32, 0x33, 0x34, 0x35, 0x36, 0x37, 0x38, 0x39] = 0xcbf43926 \<and>
   crc32_update (crc32_update v xs) ys = crc32_update v (xs @ ys) \<and> crc32_update v [] = v"
  using crc32_check_value crc32_update_append crc32_update_Nil by blast

text \<open>
  C18: a load returns the newest record: on a journal whose readable records are consistent, \<open>load\<close> gives
  the snapshot of an accepted record than which none has a higher sequence number, or \<open>not_found\<close> when no
  record is accepted, in which case the caller's snapshot is left as it was.
\<close>

theorem load_newest:
  assumes "flash_device F mem pending good ss" "good d" "flash_valid F" "layout_valid L"
    and "fl_poll F d = (s, d')" "s \<noteq> S_busy" "reads_ok F L d'" "journal_consistent L (mem d')"
  shows "(\<exists>best j'. journal_load F L j snap d = (S_ok, best, j', d') \<and> journal_current L (mem d') best) \<or>
    (\<exists>j'. journal_load F L j snap d = (S_not_found, snap, j', d') \<and> journal_empty L (mem d'))"
  using flash_device.journal_load_correct [OF assms, of j snap] unfolding Let_def by blast

theorem load_newest_witness:
  "\<exists>best j'. journal_load (ff_driver of_nat) ex_layout (journal_new (ff_driver of_nat) ex_layout) default_snapshot ex_device =
     (S_ok, best, j', snd (ff_poll ex_device)) \<and> journal_current ex_layout (ff_mem (snd (ff_poll ex_device))) best"
proof -
  let ?d = "snd (ff_poll ex_device)"
  note p = ex_poll [OF ex_device_wf]
  have f: "flash_valid (ff_driver of_nat)" "fl_poll (ff_driver of_nat) ex_device = (S_ok, ?d)"
    using p(1) by (simp_all add: flash_valid_def ff_driver_def prod_eq_iff)
  have c: "journal_consistent ex_layout (ff_mem ?d)" "\<not> journal_empty ex_layout (ff_mem ?d)"
    using ex_journal p(4) by (auto simp: journal_wf_def journal_current_def journal_empty_def)
  from load_newest [OF ff.flash_device_axioms ex_device_wf(1) f(1) ex_layout_wf(3) f(2) _ ex_reads_ok [OF p(2,3,5,6)] c(1)] c(2)
  show ?thesis by blast
qed

text \<open>
  C19: the host's file-backed flash implements the contract of the flash the journal is written against, for
  every sector size and every monotonic clock: reads return the memory; an accepted erase or program is
  carried out by the polls that follow, completely when they report success, and nothing else changes;
  one operation at a time is admitted; readings of the clock never go back. So between any two polls
  of an operation, whatever a client calls, nothing else is started and the memory stays.
\<close>

theorem host_flash_refines:
  assumes "mono clock"
  shows "flash_contract (ff_driver clock) ff_mem ff_pending (ff_wf ss) ss (ff_clk clock) \<and>
    (\<forall>d cs as d'. ff_wf ss d \<longrightarrow> flash_calls (ff_driver clock) cs d = (as, d') \<longrightarrow>
       sorted (clock_readings as) \<and>
       (ff_pending d \<noteq> None \<longrightarrow> FC_poll \<notin> set cs \<longrightarrow>
          FA_start S_ok \<notin> set as \<and> ff_mem d' = ff_mem d \<and> ff_pending d' = ff_pending d))"
proof (intro conjI allI impI)
  note c = ff_contract.flash_contract_axioms [of clock ss, unfolded run_max_self [OF assms]]
  show "flash_contract (ff_driver clock) ff_mem ff_pending (ff_wf ss) ss (ff_clk clock)" by (rule c)
  fix d cs as d' assume r: "ff_wf ss d" "flash_calls (ff_driver clock) cs d = (as, d')"
  show "sorted (clock_readings as)" using flash_contract.readings_sorted [OF c r] by blast
  assume "ff_pending d \<noteq> None" "FC_poll \<notin> set cs"
  note q = flash_contract.starts_refused [OF c r(1) this r(2)]
  then show "FA_start S_ok \<notin> set as" "ff_mem d' = ff_mem d" "ff_pending d' = ff_pending d" by blast+
qed

definition ex_two_times :: "nat \<Rightarrow> time" where
  "ex_two_times i = (if i < 1 then 5 else 9)"

definition ex_erasing :: file_flash where
  "ex_erasing = snd (ff_erase ex_device 512)"

theorem host_flash_refines_witness:
  "fst (ff_erase ex_device 512) = S_ok \<and>
   (\<exists>as d'. flash_calls (ff_driver ex_two_times) [FC_now, FC_erase 0, FC_program 0 [], FC_now] ex_erasing = (as, d') \<and>
      clock_readings as = [5, 9] \<and> FA_start S_ok \<notin> set as \<and> ff_pending d' = Some (Op_erase 512))"
proof -
  let ?F = "ff_driver ex_two_times" and ?cs = "[FC_now, FC_erase 0, FC_program 0 [], FC_now]"
  have m: "mono ex_two_times" by (simp add: mono_def ex_two_times_def)
  have e: "fst (ff_erase ex_device 512) = S_ok" "ff_pending ex_erasing = Some (Op_erase 512)"
    "clock_readings (fst (flash_calls ?F ?cs ex_erasing)) = [5, 9]"
    by (simp_all add: ex_erasing_def ex_device_def ex_with_def ff_erase_def ff_program_def ff_now_def ff_new_def sm_new_def
        ff_derived_def ff_range_def ff_pending_def ff_op_def ff_driver_fields ex_two_times_def)
  obtain as d' where r: "flash_calls ?F ?cs ex_erasing = (as, d')" by fastforce
  have "ff_erase ex_device 512 = (S_ok, ex_erasing)" using e(1) by (simp add: ex_erasing_def prod_eq_iff)
  then have w: "ff_wf 512 ex_erasing" using ff.erase_law [OF ex_device_wf(1), of undefined 512] by (simp add: ff_driver_fields)
  have "FC_poll \<notin> set ?cs" "ff_pending ex_erasing \<noteq> None" using e(2) by simp_all
  then have "FA_start S_ok \<notin> set as \<and> ff_pending d' = ff_pending ex_erasing"
    using host_flash_refines [OF m, of 512] w r by blast
  with r e show ?thesis by (metis fst_conv)
qed

text \<open>
  C20: opening an image of the host's flash: if it succeeds, a created image is erased throughout and an
  existing one has the content of the file, the geometry is the one asked for, and the device is idle
  and ready.
\<close>

theorem host_open_ready:
  assumes "ff_shut d" "ff_open_file path r g mode d = (S_ok, d')" "mode = OM_create \<Longrightarrow> or_content r = []"
  shows "ff_wf (geo_sector_size g) d' \<and> ff_pending d' = None \<and> ff_geometry d' = g \<and>
    ff_file d' = (if mode = OM_create then replicate (geo_size g) 0xff else or_content r)"
  using assms by (rule ff_open_file_ok)

definition ex_geometry :: geometry where
  "ex_geometry = \<lparr>geo_base = 0, geo_size = 1024, geo_sector_size = 512, geo_write_size = 16\<rparr>"

theorem host_open_ready_witness:
  "\<exists>d'. ff_open_file True \<lparr>or_opened = True, or_locked = True, or_regular = True, or_content = []\<rparr> ex_geometry OM_create ff_new =
     (S_ok, d') \<and> ff_file d' = replicate 1024 0xff"
proof -
  let ?r = "\<lparr>or_opened = True, or_locked = True, or_regular = True, or_content = []\<rparr>"
  obtain f where "ff_fill [] 0 0 (geo_size ex_geometry) [] = (True, f, [])" using ff_fill_ok by blast
  moreover have "ff_pwrite ff_new = []" "ff_fsync ff_new = []" "\<not> ff_open ff_new" by (simp_all add: ff_new_def)
  moreover have "geometry_valid ex_geometry" by (simp add: geometry_valid_def ex_geometry_def)
  ultimately obtain d' where "ff_open_file True ?r ex_geometry OM_create ff_new = (S_ok, d')"
    by (simp add: ff_open_file_def)
  from host_open_ready [OF ff_new_shut this] this show ?thesis by (simp add: ex_geometry_def)
qed

end
