(* ===== verification/Queue.thy ===== *)
theory Queue
  imports Foundation
begin

text \<open>
  The fixed-capacity queues of lib/core/queue/queue.hpp: the ring buffer \<open>Queue\<close>, and
  \<open>ThreadSafeQueue\<close>, which runs each of its operations under one attempt to take the platform's
  mutex or, without a mutex, inside a critical section.

  The contract of a bounded FIFO is the locale \<open>fifo\<close>, stated over the list of queued items; both
  queues are instances of it.
\<close>

section \<open>The contract\<close>

text \<open>
  The calls of a queue, and what a call hands back: a status and a value. \<open>QO_pop\<close> and \<open>QO_peek\<close> carry the
  content of the caller's output variable before the call.
\<close>

datatype 'a queue_op = QO_push 'a | QO_pop 'a | QO_peek 'a | QO_clear | QO_size | QO_empty | QO_full

datatype 'a queue_value = QV_none | QV_item 'a | QV_size nat | QV_flag bool

type_synonym 'a queue_answer = "status \<times> 'a queue_value"

text \<open>The specification: a list of at most \<open>n\<close> items.\<close>

fun spec_op :: "nat \<Rightarrow> 'a queue_op \<Rightarrow> 'a list \<Rightarrow> 'a queue_answer \<times> 'a list" where
  "spec_op n (QO_push x) xs = (if length xs < n then ((S_ok, QV_none), xs @ [x]) else ((S_full, QV_none), xs))"
| "spec_op n (QO_pop out) xs = (case xs of [] \<Rightarrow> ((S_empty, QV_item out), []) | y # ys \<Rightarrow> ((S_ok, QV_item y), ys))"
| "spec_op n (QO_peek out) xs = (case xs of [] \<Rightarrow> ((S_empty, QV_item out), []) | y # ys \<Rightarrow> ((S_ok, QV_item y), y # ys))"
| "spec_op n QO_clear xs = ((S_ok, QV_none), [])"
| "spec_op n QO_size xs = ((S_ok, QV_size (length xs)), xs)"
| "spec_op n QO_empty xs = ((S_ok, QV_flag (xs = [])), xs)"
| "spec_op n QO_full xs = ((S_ok, QV_flag (length xs = n)), xs)"

text \<open>A sequence of calls, with all answers.\<close>

primrec run_ops :: "('c \<Rightarrow> 'q \<Rightarrow> 'r \<times> 'q) \<Rightarrow> 'c list \<Rightarrow> 'q \<Rightarrow> 'r list \<times> 'q" where
  "run_ops f [] q = ([], q)"
| "run_ops f (c # cs) q = (case f c q of (r, q) \<Rightarrow> case run_ops f cs q of (rs, q) \<Rightarrow> (r # rs, q))"


locale fifo =
  fixes push :: "'a \<Rightarrow> 'q \<Rightarrow> status \<times> 'q"
    and pop :: "'a \<Rightarrow> 'q \<Rightarrow> status \<times> 'a \<times> 'q"
    and inv :: "'q \<Rightarrow> bool"
    and items :: "'q \<Rightarrow> 'a list"
    and cap :: "'q \<Rightarrow> nat"
  assumes push_full: "inv q \<Longrightarrow> length (items q) = cap q \<Longrightarrow> push x q = (S_full, q)"
    and push_room: "inv q \<Longrightarrow> length (items q) < cap q \<Longrightarrow> push x q = (s, q') \<Longrightarrow>
      s = S_ok \<and> inv q' \<and> items q' = items q @ [x] \<and> cap q' = cap q"
    and pop_empty: "inv q \<Longrightarrow> items q = [] \<Longrightarrow> pop out q = (S_empty, out, q)"
    and pop_item: "inv q \<Longrightarrow> items q = x # xs \<Longrightarrow> pop out q = (s, y, q') \<Longrightarrow>
      s = S_ok \<and> y = x \<and> inv q' \<and> items q' = xs \<and> cap q' = cap q"
    and bound: "inv q \<Longrightarrow> length (items q) \<le> cap q"
begin

lemma push_spec:
  assumes "inv q" "push x q = (s, q')"
  shows "inv q' \<and> cap q' = cap q \<and> spec_op (cap q) (QO_push x) (items q) = ((s, QV_none), items q')"
proof (cases "length (items q) < cap q")
  case True
  then show ?thesis using push_room [OF assms(1) True assms(2)] by simp
next
  case False
  then have "length (items q) = cap q" using bound [OF assms(1)] by simp
  then show ?thesis using push_full [OF assms(1)] assms False by simp
qed

lemma pop_spec:
  assumes "inv q" "pop out q = (s, y, q')"
  shows "inv q' \<and> cap q' = cap q \<and> spec_op (cap q) (QO_pop out) (items q) = ((s, QV_item y), items q')"
proof (cases "items q")
  case Nil
  then show ?thesis using pop_empty [OF assms(1)] assms by simp
next
  case (Cons x xs)
  then show ?thesis using pop_item [OF assms(1) Cons assms(2)] by simp
qed

end

text \<open>A queue with all its calls: each answers and acts as the specification does.\<close>

locale bounded_queue =
  fixes call :: "'a queue_op \<Rightarrow> 'q \<Rightarrow> 'a queue_answer \<times> 'q"
    and inv :: "'q \<Rightarrow> bool"
    and items :: "'q \<Rightarrow> 'a list"
    and cap :: "'q \<Rightarrow> nat"
  assumes call_spec: "inv q \<Longrightarrow> call c q = (r, q') \<Longrightarrow>
      inv q' \<and> cap q' = cap q \<and> spec_op (cap q) c (items q) = (r, items q')"
begin

lemma calls_spec:
  assumes "inv q" "run_ops call cs q = (rs, q')"
  shows "inv q' \<and> cap q' = cap q \<and> run_ops (spec_op (cap q)) cs (items q) = (rs, items q')"
  using assms
proof (induction cs arbitrary: q rs)
  case (Cons c cs)
  obtain r q1 where c: "call c q = (r, q1)" by fastforce
  obtain rs1 where r: "run_ops call cs q1 = (rs1, q')" "rs = r # rs1" using Cons.prems(2) c by (auto split: prod.splits)
  note s = call_spec [OF Cons.prems(1) c]
  have i: "inv q1" using s by simp
  show ?case using Cons.IH [OF i r(1)] s r(2) by simp
qed simp

end

section \<open>The ring buffer\<close>

record 'a ring =
  rb_items :: "'a list"
  rb_head :: nat
  rb_count :: nat

definition rb_capacity :: "'a ring \<Rightarrow> nat" where
  "rb_capacity q = length (rb_items q)"

definition rb_empty :: "'a ring \<Rightarrow> bool" where
  "rb_empty q \<longleftrightarrow> rb_count q = 0"

definition rb_full :: "'a ring \<Rightarrow> bool" where
  "rb_full q \<longleftrightarrow> rb_count q = rb_capacity q"

definition rb_push :: "'a \<Rightarrow> 'a ring \<Rightarrow> status \<times> 'a ring" where
  "rb_push item q =
     (if rb_full q then (S_full, q)
      else (S_ok, q\<lparr>rb_items := (rb_items q)[(rb_head q + rb_count q) mod rb_capacity q := item],
                     rb_count := rb_count q + 1\<rparr>))"

text \<open>\<open>out\<close> is the caller's variable, untouched when the queue is empty.\<close>

definition rb_pop :: "'a \<Rightarrow> 'a ring \<Rightarrow> status \<times> 'a \<times> 'a ring" where
  "rb_pop out q =
     (if rb_empty q then (S_empty, out, q)
      else (S_ok, rb_items q ! rb_head q,
            q\<lparr>rb_head := (rb_head q + 1) mod rb_capacity q, rb_count := rb_count q - 1\<rparr>))"

definition rb_peek :: "'a \<Rightarrow> 'a ring \<Rightarrow> status \<times> 'a" where
  "rb_peek out q = (if rb_empty q then (S_empty, out) else (S_ok, rb_items q ! rb_head q))"

definition rb_clear :: "'a ring \<Rightarrow> 'a ring" where
  "rb_clear q = q\<lparr>rb_head := 0, rb_count := 0\<rparr>"

definition rb_new :: "nat \<Rightarrow> 'a \<Rightarrow> 'a ring" where
  "rb_new capacity dflt = \<lparr>rb_items = replicate capacity dflt, rb_head = 0, rb_count = 0\<rparr>"

definition rb_inv :: "'a ring \<Rightarrow> bool" where
  "rb_inv q \<longleftrightarrow> rb_head q < rb_capacity q \<and> rb_count q \<le> rb_capacity q"

definition rb_list :: "'a ring \<Rightarrow> 'a list" where
  "rb_list q = map (\<lambda>i. rb_items q ! ((rb_head q + i) mod rb_capacity q)) [0..<rb_count q]"

lemma length_rb_list [simp]: "length (rb_list q) = rb_count q"
  by (simp add: rb_list_def)

text \<open>Positions of the ring at distances below the capacity are different.\<close>

lemma ring_index_inject:
  assumes "i < n" "j < n" "(h + i) mod n = (h + j) mod (n :: nat)"
  shows "i = j"
proof -
  have *: "i = j" if "i \<le> j" "j < n" "(h + i) mod n = (h + j) mod n" for i j
  proof -
    have "n dvd (h + j) - (h + i)" using that mod_eq_dvd_iff_nat [of "h + i" "h + j" n] by simp
    then have "n dvd j - i" by simp
    moreover have "j - i < n" using that(2) by simp
    ultimately have "j - i = 0" using nat_dvd_not_less [of "j - i" n] by fastforce
    then show ?thesis using that(1) by simp
  qed
  show ?thesis using * [of i j] * [of j i] assms by (cases "i \<le> j") simp_all
qed

lemma rb_list_push:
  assumes "rb_inv q" "rb_count q < rb_capacity q" "rb_push x q = (s, q')"
  shows "s = S_ok \<and> rb_inv q' \<and> rb_list q' = rb_list q @ [x] \<and> rb_capacity q' = rb_capacity q"
proof -
  let ?n = "rb_capacity q"
  have n: "0 < ?n" using assms(1) by (auto simp: rb_inv_def)
  have q': "s = S_ok" "q' = q\<lparr>rb_items := (rb_items q)[(rb_head q + rb_count q) mod ?n := x], rb_count := rb_count q + 1\<rparr>"
    using assms(2,3) by (auto simp: rb_push_def rb_full_def)
  have old: "(rb_items q)[(rb_head q + rb_count q) mod ?n := x] ! ((rb_head q + i) mod ?n) = rb_items q ! ((rb_head q + i) mod ?n)"
    if "i < rb_count q" for i
    using that assms(2) ring_index_inject [of i ?n "rb_count q" "rb_head q"] by (intro nth_list_update_neq) auto
  have "rb_list q' = rb_list q @ [x]"
    unfolding q' rb_list_def rb_capacity_def using old n by (auto simp: rb_capacity_def)
  then show ?thesis using q' assms(1,2) by (auto simp: rb_inv_def rb_capacity_def)
qed

lemma rb_list_pop:
  assumes "rb_inv q" "rb_list q = x # xs" "rb_pop out q = (s, y, q')"
  shows "s = S_ok \<and> y = x \<and> rb_inv q' \<and> rb_list q' = xs \<and> rb_capacity q' = rb_capacity q"
proof -
  let ?n = "rb_capacity q"
  obtain c where c: "rb_count q = Suc c" using assms(2) length_rb_list [of q] by (cases "rb_count q") auto
  have h: "rb_head q < ?n" using assms(1) by (simp add: rb_inv_def)
  have q': "s = S_ok" "y = rb_items q ! rb_head q" "q' = q\<lparr>rb_head := (rb_head q + 1) mod ?n, rb_count := c\<rparr>"
    using assms(3) c by (auto simp: rb_pop_def rb_empty_def)
  have l: "rb_list q = rb_items q ! rb_head q # map (\<lambda>i. rb_items q ! ((rb_head q + Suc i) mod ?n)) [0..<c]"
    unfolding rb_list_def c upt_conv_Cons [OF zero_less_Suc] map_Suc_upt [symmetric] using h by simp
  moreover have "rb_list q' = map (\<lambda>i. rb_items q ! ((rb_head q + Suc i) mod ?n)) [0..<c]"
    unfolding q' rb_list_def rb_capacity_def by (simp add: mod_add_left_eq)
  ultimately have "rb_list q' = xs" "y = x" using q'(2) assms(2) by simp_all
  moreover have "rb_inv q'" "rb_capacity q' = rb_capacity q"
    using assms(1) c h mod_less_divisor [OF le_less_trans [OF le0 h], of "rb_head q + 1"]
    by (simp_all add: q'(3) rb_inv_def rb_capacity_def)
  ultimately show ?thesis using q'(1) by simp
qed

interpretation rb: fifo rb_push rb_pop rb_inv rb_list rb_capacity
proof (unfold_locales, goal_cases)
  case (1 q x) then show ?case by (simp add: rb_push_def rb_full_def)
next
  case (2 q x s q') then show ?case using rb_list_push [OF 2(1) _ 2(3)] by simp
next
  case (3 q out) then show ?case using length_rb_list [of q] by (simp add: rb_pop_def rb_empty_def)
next
  case (4 q x xs out s y q') then show ?case using rb_list_pop [OF 4] by simp
next
  case (5 q) then show ?case by (simp add: rb_inv_def)
qed

lemma rb_new_inv: "0 < n \<Longrightarrow> rb_inv (rb_new n x)" "rb_list (rb_new n x) = []" "rb_capacity (rb_new n x) = n"
  by (simp_all add: rb_inv_def rb_new_def rb_list_def rb_capacity_def)

lemma rb_peek_list: "rb_inv q \<Longrightarrow> rb_peek out q = (case rb_list q of [] \<Rightarrow> (S_empty, out) | x # _ \<Rightarrow> (S_ok, x))"
proof -
  assume i: "rb_inv q"
  have l: "length (rb_list q) = rb_count q" by simp
  show ?thesis
  proof (cases "rb_list q")
    case Nil then show ?thesis using l by (simp add: rb_peek_def rb_empty_def)
  next
    case (Cons x xs)
    then have c: "rb_count q = Suc (length xs)" using l by simp
    then have "rb_list q ! 0 = rb_items q ! (rb_head q mod rb_capacity q)" by (simp add: rb_list_def nth_append)
    then show ?thesis using i c Cons by (simp add: rb_peek_def rb_empty_def rb_inv_def)
  qed
qed

lemma rb_clear_list: "rb_inv q \<Longrightarrow> rb_inv (rb_clear q) \<and> rb_list (rb_clear q) = []"
  by (auto simp: rb_inv_def rb_clear_def rb_list_def rb_capacity_def)

text \<open>The calls of \<open>Queue\<close> by name.\<close>

fun rb_call :: "'a queue_op \<Rightarrow> 'a ring \<Rightarrow> 'a queue_answer \<times> 'a ring" where
  "rb_call (QO_push x) q = (case rb_push x q of (s, q) \<Rightarrow> ((s, QV_none), q))"
| "rb_call (QO_pop out) q = (case rb_pop out q of (s, y, q) \<Rightarrow> ((s, QV_item y), q))"
| "rb_call (QO_peek out) q = (case rb_peek out q of (s, y) \<Rightarrow> ((s, QV_item y), q))"
| "rb_call QO_clear q = ((S_ok, QV_none), rb_clear q)"
| "rb_call QO_size q = ((S_ok, QV_size (rb_count q)), q)"
| "rb_call QO_empty q = ((S_ok, QV_flag (rb_empty q)), q)"
| "rb_call QO_full q = ((S_ok, QV_flag (rb_full q)), q)"

interpretation rbq: bounded_queue rb_call rb_inv rb_list rb_capacity
proof
  fix q q' :: "'a ring" and c r assume i: "rb_inv q" and e: "rb_call c q = (r, q')"
  have n: "rb_list q = [] \<longleftrightarrow> rb_count q = 0" using length_rb_list [of q] by (metis length_0_conv)
  show "rb_inv q' \<and> rb_capacity q' = rb_capacity q \<and> spec_op (rb_capacity q) c (rb_list q) = (r, rb_list q')"
  proof (cases c)
    case (QO_push x)
    obtain s q1 where p: "rb_push x q = (s, q1)" by fastforce
    show ?thesis using rb.push_spec [OF i p] e p QO_push by simp
  next
    case (QO_pop out)
    obtain s y q1 where p: "rb_pop out q = (s, y, q1)" by (metis prod_cases3)
    show ?thesis using rb.pop_spec [OF i p] e p QO_pop by simp
  next
    case (QO_peek out)
    then show ?thesis using i e rb_peek_list [OF i, of out] by (auto split: list.splits)
  next
    case QO_clear
    then show ?thesis using e rb_clear_list [OF i] by (auto simp: rb_clear_def rb_capacity_def)
  qed (use i e n in \<open>auto simp: rb_empty_def rb_full_def\<close>)
qed

section \<open>The thread-safe queue\<close>

text \<open>
  The platform's optional queue mutex is \<open>None\<close> when there is none, and otherwise whether it is
  held; \<open>tq_critical\<close> is the depth of nested critical sections.
\<close>

record 'a ts_queue =
  tq_mutex :: "bool option"
  tq_critical :: nat
  tq_queue :: "'a ring"


text \<open>
  The two ends of \<open>WithLock\<close>. Before the call: one attempt to take the mutex, \<open>None\<close> when it is held, or
  the start of a critical section. After it: the mutex is released, or the critical section ends.
\<close>

definition lock_enter :: "'a ts_queue \<Rightarrow> 'a ts_queue option" where
  "lock_enter t = (case tq_mutex t of
       Some held \<Rightarrow> if held then None else Some (t\<lparr>tq_mutex := Some True\<rparr>)
     | None \<Rightarrow> Some (t\<lparr>tq_critical := tq_critical t + 1\<rparr>))"

definition lock_leave :: "'a ts_queue \<Rightarrow> 'a ts_queue" where
  "lock_leave t = (case tq_mutex t of
       Some _ \<Rightarrow> t\<lparr>tq_mutex := Some False\<rparr>
     | None \<Rightarrow> t\<lparr>tq_critical := tq_critical t - 1\<rparr>)"

text \<open>
  \<open>WithLock\<close>: \<open>run\<close> is the operation on the ring, returning its status, its output and the ring;
  \<open>out\<close> is the output left in place when the mutex is taken.
\<close>

definition with_lock :: "('a ring \<Rightarrow> status \<times> 'o \<times> 'a ring) \<Rightarrow> 'o \<Rightarrow> 'a ts_queue \<Rightarrow> status \<times> 'o \<times> 'a ts_queue" where
  "with_lock run out t =
     (case lock_enter t of
        None \<Rightarrow> (S_busy, out, t)
      | Some t \<Rightarrow> (case run (tq_queue t) of (s, out, q) \<Rightarrow> (s, out, lock_leave (t\<lparr>tq_queue := q\<rparr>))))"

definition tq_push :: "'a \<Rightarrow> 'a ts_queue \<Rightarrow> status \<times> 'a ts_queue" where
  "tq_push item t = (case with_lock (\<lambda>q. case rb_push item q of (s, q) \<Rightarrow> (s, (), q)) () t of (s, _, t) \<Rightarrow> (s, t))"

definition tq_pop :: "'a \<Rightarrow> 'a ts_queue \<Rightarrow> status \<times> 'a \<times> 'a ts_queue" where
  "tq_pop out t = with_lock (rb_pop out) out t"








lemma with_lock_free:
  assumes "tq_mutex t \<noteq> Some True"
  shows "with_lock run out t = (case run (tq_queue t) of (s, out, q) \<Rightarrow> (s, out, t\<lparr>tq_queue := q\<rparr>))"
  using assms by (cases t) (auto simp: with_lock_def lock_enter_def lock_leave_def split: option.splits prod.splits)


text \<open>While nobody else holds the mutex, the queue is a FIFO of the same capacity.\<close>

interpretation tq: fifo tq_push tq_pop "\<lambda>t. tq_mutex t \<noteq> Some True \<and> rb_inv (tq_queue t)"
  "\<lambda>t. rb_list (tq_queue t)" "\<lambda>t. rb_capacity (tq_queue t)"
proof (unfold_locales, goal_cases)
  case (1 q x) then show ?case
    by (simp add: tq_push_def with_lock_free rb.push_full)
next
  case (2 q x s q')
  obtain s1 r where r: "rb_push x (tq_queue q) = (s1, r)" by fastforce
  then have "s = s1" "q' = q\<lparr>tq_queue := r\<rparr>" using 2 by (simp_all add: tq_push_def with_lock_free)
  then show ?case using 2 rb.push_room [OF _ _ r] by simp
next
  case (3 q out) then show ?case by (simp add: tq_pop_def with_lock_free rb.pop_empty)
next
  case (4 q x xs out s y q')
  obtain s1 z r where r: "rb_pop out (tq_queue q) = (s1, z, r)" by (metis prod_cases3)
  then have "s = s1" "y = z" "q' = q\<lparr>tq_queue := r\<rparr>" using 4 by (simp_all add: tq_pop_def with_lock_free)
  then show ?case using 4 rb.pop_item [OF _ _ r] by simp
next
  case (5 q) then show ?case using rb.bound by blast
qed

section \<open>Interleaving\<close>






















section \<open>Properties\<close>

text \<open>
  C16: the ring buffer is a bounded first-in first-out queue. From any state, every sequence of calls is
  answered, status and value, as a list of at most \<open>Capacity\<close> items would answer it: a push into a
  full queue is refused and changes nothing, a pop or peek of an empty one leaves the caller's variable,
  and the items come out in the order they went in. The ring then holds exactly the list's items.
\<close>

theorem ring_fifo:
  assumes "rb_inv q" "run_ops rb_call cs q = (rs, q')"
  shows "run_ops (spec_op (rb_capacity q)) cs (rb_list q) = (rs, rb_list q') \<and> rb_inv q' \<and> rb_capacity q' = rb_capacity q"
  using rbq.calls_spec [OF assms] by blast

definition ex_ring :: "nat ring" where
  "ex_ring = \<lparr>rb_items = [1, 2], rb_head = 1, rb_count = 0\<rparr>"

definition ex_calls :: "nat queue_op list" where
  "ex_calls = [QO_pop 9, QO_push 5, QO_push 6, QO_push 7, QO_peek 9, QO_pop 9, QO_pop 9]"

theorem ring_fifo_witness:
  "rb_inv ex_ring \<and> fst (run_ops rb_call ex_calls ex_ring) = fst (run_ops (spec_op 2) ex_calls []) \<and>
   fst (run_ops (spec_op 2) ex_calls []) = [(S_empty, QV_item 9), (S_ok, QV_none), (S_ok, QV_none), (S_full, QV_none),
     (S_ok, QV_item 5), (S_ok, QV_item 5), (S_ok, QV_item 6)]"
proof -
  have i: "rb_inv ex_ring" "rb_capacity ex_ring = 2" "rb_list ex_ring = []"
    by (simp_all add: ex_ring_def rb_inv_def rb_capacity_def rb_list_def)
  obtain rs q' where r: "run_ops rb_call ex_calls ex_ring = (rs, q')" by fastforce
  have "run_ops (spec_op 2) ex_calls [] = (rs, rb_list q')" using ring_fifo [OF i(1) r] i by simp
  then show ?thesis using i(1) r by (simp add: ex_calls_def)
qed




end
