(* ===== verification/Match.thy ===== *)
theory Match
  imports Foundation "HOL-Library.Sublist"
begin

text \<open>
  Names of commands, modules and choices (lib/core/command/match.hpp): case-insensitive comparison,
  validity and uniqueness of registered names, and the match of a query by unique prefix. A
  \<open>const char*\<close> that may be null is an option, a view is a string.
\<close>

section \<open>Comparison\<close>

definition Fold :: "char \<Rightarrow> char" where
  "Fold c = (let n = of_char c :: nat in if 65 \<le> n \<and> n \<le> 90 then char_of (n + 32) else c)"

definition EqualName :: "string \<Rightarrow> string \<Rightarrow> bool" where
  "EqualName a b \<longleftrightarrow> length a = length b \<and> list_all (\<lambda>(x, y). Fold x = Fold y) (zip a b)"

definition name_missing :: "string option \<Rightarrow> bool" where
  "name_missing n \<longleftrightarrow> n = None \<or> n = Some []"

definition name_of :: "string option \<Rightarrow> string" where
  "name_of n = (case n of None \<Rightarrow> [] | Some n \<Rightarrow> n)"

section \<open>Registered names\<close>

text \<open>The loop of \<open>UniqueNames\<close>, for the names before it \<open>seen\<close>.\<close>

fun unique_names_loop :: "bool \<Rightarrow> string option list \<Rightarrow> string option list \<Rightarrow> bool" where
  "unique_names_loop allow_null seen [] \<longleftrightarrow> True"
| "unique_names_loop allow_null seen (None # names) \<longleftrightarrow>
     allow_null \<and> unique_names_loop allow_null (seen @ [None]) names"
| "unique_names_loop allow_null seen (Some n # names) \<longleftrightarrow>
     n \<noteq> [] \<and> \<not> list_ex (\<lambda>m. m \<noteq> None \<and> EqualName n (name_of m)) seen \<and>
     unique_names_loop allow_null (seen @ [Some n]) names"

definition UniqueNames :: "string option list \<Rightarrow> bool \<Rightarrow> bool" where
  "UniqueNames names allow_null \<longleftrightarrow> unique_names_loop allow_null [] names"

definition name_char :: "char \<Rightarrow> bool" where
  "name_char x \<longleftrightarrow> (let n = of_char (Fold x) :: nat
     in (97 \<le> n \<and> n \<le> 122) \<or> (48 \<le> n \<and> n \<le> 57) \<or> n = 95 \<or> n = 45)"

definition ValidCommandName :: "string option \<Rightarrow> bool" where
  "ValidCommandName name \<longleftrightarrow> \<not> name_missing name \<and> list_all name_char (name_of name)"

section \<open>Matching\<close>

record name_match =
  nm_status :: status
  nm_index :: nat

text \<open>The loop of \<open>lazy_match\<close> from candidate \<open>i\<close> on, with the result so far.\<close>

fun lazy_match_loop :: "string \<Rightarrow> nat \<Rightarrow> string list \<Rightarrow> name_match \<Rightarrow> name_match" where
  "lazy_match_loop query i [] result = result"
| "lazy_match_loop query i (candidate # names) result =
     (if EqualName query candidate then \<lparr>nm_status = S_ok, nm_index = i\<rparr>
      else lazy_match_loop query (i + 1) names
        (if length query < length candidate \<and> EqualName query (take (length query) candidate)
         then \<lparr>nm_status = (if nm_status result = S_not_found then S_ok else S_ambiguous_match), nm_index = i\<rparr>
         else result))"

definition lazy_match :: "string \<Rightarrow> string list \<Rightarrow> name_match" where
  "lazy_match query names =
     (let result = \<lparr>nm_status = S_not_found, nm_index = 0\<rparr>
      in if query = [] then result else lazy_match_loop query 0 names result)"

section \<open>Laws\<close>

abbreviation folded :: "string \<Rightarrow> string" where
  "folded \<equiv> map Fold"

lemma EqualName_iff: "EqualName a b \<longleftrightarrow> folded a = folded b"
  by (auto simp: EqualName_def list_eq_iff_nth_eq list_all_length)

lemma EqualName_refl [simp]: "EqualName a a"
  by (simp add: EqualName_iff)

lemma Fold_idem [simp]: "Fold (Fold c) = Fold c"
proof (cases "65 \<le> (of_char c :: nat) \<and> (of_char c :: nat) \<le> 90")
  case True
  then have "(of_char (char_of (of_char c + 32 :: nat)) :: nat) = of_char c + 32" by simp
  then show ?thesis using True by (simp add: Fold_def Let_def)
qed (auto simp: Fold_def Let_def)

lemma prefix_name_iff:
  "length q < length n \<and> EqualName q (take (length q) n) \<or> EqualName q n \<longleftrightarrow> prefix (folded q) (folded n)"
  (is "?l \<longleftrightarrow> ?r")
proof
  assume ?l
  then show ?r by (auto simp: EqualName_iff prefix_def take_map) (metis append_take_drop_id map_append)
next
  assume ?r
  then obtain r where "folded n = folded q @ r" by (auto simp: prefix_def)
  then have "take (length q) (folded n) = folded q" "length n = length q + length r"
    by (simp, metis length_append length_map)
  then show ?l by (auto simp: EqualName_iff take_map)
qed

definition present :: "string option list \<Rightarrow> string list" where
  "present names = map the (filter (\<lambda>n. n \<noteq> None) names)"

lemma present_simps [simp]:
  "present [] = []" "present (None # ns) = present ns" "present (Some n # ns) = n # present ns"
  "present (ms @ ns) = present ms @ present ns"
  by (simp_all add: present_def)

lemma seen_iff: "list_ex (\<lambda>m. m \<noteq> None \<and> EqualName n (name_of m)) seen \<longleftrightarrow> folded n \<in> folded ` set (present seen)"
proof (induction seen)
  case (Cons m seen)
  then show ?case by (cases m) (simp_all add: EqualName_iff name_of_def)
qed simp

lemma unique_names_loop_iff:
  "unique_names_loop allow_null seen names \<longleftrightarrow> (allow_null \<or> None \<notin> set names) \<and> [] \<notin> set (present names) \<and>
     distinct (map folded (present names)) \<and> folded ` set (present names) \<inter> folded ` set (present seen) = {}"
proof (induction allow_null seen names rule: unique_names_loop.induct)
  case (3 allow_null seen n names)
  show ?case unfolding unique_names_loop.simps seen_iff 3 by simp blast
next
  case (2 allow_null seen names)
  show ?case unfolding unique_names_loop.simps 2 by simp blast
qed simp_all

definition indices :: "(string \<Rightarrow> bool) \<Rightarrow> nat \<Rightarrow> string list \<Rightarrow> nat list" where
  "indices p i names = map fst (filter (\<lambda>(_, n). p n) (enumerate i names))"

lemma indices_simps [simp]:
  "indices p i [] = []"
  "indices p i (n # names) = (if p n then i # indices p (Suc i) names else indices p (Suc i) names)"
  by (simp_all add: indices_def)

definition prefix_result :: "nat list \<Rightarrow> name_match \<Rightarrow> name_match" where
  "prefix_result xs r = (case xs of [] \<Rightarrow> r
     | [i] \<Rightarrow> \<lparr>nm_status = (if nm_status r = S_not_found then S_ok else S_ambiguous_match), nm_index = i\<rparr>
     | _ \<Rightarrow> \<lparr>nm_status = S_ambiguous_match, nm_index = last xs\<rparr>)"

lemma lazy_match_loop_result:
  "lazy_match_loop q i names r = (case indices (EqualName q) i names of
     k # _ \<Rightarrow> \<lparr>nm_status = S_ok, nm_index = k\<rparr>
   | [] \<Rightarrow> prefix_result (indices (\<lambda>n. prefix (folded q) (folded n)) i names) r)"
proof (induction names arbitrary: i r)
  case (Cons n names)
  show ?case
  proof (cases "EqualName q n")
    case False
    then have p: "length q < length n \<and> EqualName q (take (length q) n) \<longleftrightarrow> prefix (folded q) (folded n)"
      using prefix_name_iff [of q n] by simp
    show ?thesis
    proof (cases "indices (EqualName q) (Suc i) names")
      case Nil
      then show ?thesis using False p
        by (cases "indices (\<lambda>n. prefix (folded q) (folded n)) (Suc i) names")
          (simp_all add: Cons.IH prefix_result_def split: list.split)
    qed (use False in \<open>simp add: Cons.IH\<close>)
  qed simp
qed (simp add: prefix_result_def)

lemma lazy_match_loop_index:
  assumes "nm_status (lazy_match_loop q i names r) = S_ok" "nm_status r = S_ok \<Longrightarrow> nm_index r < i"
  shows "nm_index (lazy_match_loop q i names r) < i + length names"
  using assms
proof (induction names arbitrary: i r)
  case (Cons n names)
  show ?case
  proof (cases "EqualName q n")
    case False
    let ?r = "if length q < length n \<and> EqualName q (take (length q) n)
      then \<lparr>nm_status = if nm_status r = S_not_found then S_ok else S_ambiguous_match, nm_index = i\<rparr> else r"
    have "nm_status ?r = S_ok \<Longrightarrow> nm_index ?r < i + 1" using Cons.prems(2) by (simp split: if_splits)
    from Cons.IH [OF _ this] Cons.prems(1) False show ?thesis by simp
  qed simp
qed simp

lemma lazy_match_index:
  assumes "nm_status (lazy_match q names) = S_ok"
  shows "nm_index (lazy_match q names) < length names"
proof -
  have "q \<noteq> []" using assms by (auto simp: lazy_match_def)
  then have l: "lazy_match q names = lazy_match_loop q 0 names \<lparr>nm_status = S_not_found, nm_index = 0\<rparr>"
    by (simp add: lazy_match_def)
  show ?thesis using lazy_match_loop_index [of q 0 names "\<lparr>nm_status = S_not_found, nm_index = 0\<rparr>"] assms unfolding l by simp
qed

text \<open>
  C28: a query is matched exactly or by a unique prefix, without regard to case. The first candidate
  equal to the query wins whatever the prefixes; otherwise the one candidate that extends the query is
  chosen, two or more are ambiguous and none is not found. An empty query matches nothing.
\<close>

theorem lazy_match_unique:
  "lazy_match query names =
     (if query = [] then \<lparr>nm_status = S_not_found, nm_index = 0\<rparr>
      else case indices (EqualName query) 0 names of
        k # _ \<Rightarrow> \<lparr>nm_status = S_ok, nm_index = k\<rparr>
      | [] \<Rightarrow> (case indices (\<lambda>n. prefix (folded query) (folded n)) 0 names of
          [] \<Rightarrow> \<lparr>nm_status = S_not_found, nm_index = 0\<rparr>
        | [k] \<Rightarrow> \<lparr>nm_status = S_ok, nm_index = k\<rparr>
        | ks \<Rightarrow> \<lparr>nm_status = S_ambiguous_match, nm_index = last ks\<rparr>))"
  by (simp add: lazy_match_def Let_def lazy_match_loop_result prefix_result_def split: list.splits)

text \<open>
  C29: registered names are accepted exactly if they can be told apart: none is empty, no two are equal
  up to case, and null entries occur only where they are allowed.
\<close>

theorem unique_names_distinct:
  "UniqueNames names allow_null \<longleftrightarrow> (None \<in> set names \<longrightarrow> allow_null) \<and> Some [] \<notin> set names \<and>
     distinct (map folded (present names))"
proof -
  have "[] \<in> set (present names) \<longleftrightarrow> Some [] \<in> set names" by (force simp: present_def)
  then show ?thesis unfolding UniqueNames_def unique_names_loop_iff by auto
qed

theorem unique_names_distinct_witness: "UniqueNames [Some ''led'', None, Some ''LCD''] True"
proof -
  have "distinct (map folded (present [Some ''led'', None, Some ''LCD'']))" by code_simp
  then show ?thesis using unique_names_distinct [of "[Some ''led'', None, Some ''LCD'']" True] by simp
qed

end
