(* ===== verification/Scheduler.thy ===== *)
theory Scheduler
  imports State_Machine Queue Match
begin

text \<open>
  The cooperative scheduler of lib/core/schedule/scheduler.hpp, with the platform contract of
  lib/core/platform/platform.hpp that it is written against.

  The members of \<open>Scheduler\<close> and of its platform are the record \<open>sched\<close>; \<open>sc_user\<close> is the state of the
  application's modules. Objects (modules, timer callbacks) are numbers, their identity. The code
  under a \<open>Guard\<close> runs atomically; interrupts come between such sections.

  A callback of the application is a tree \<open>prog\<close> of the calls it makes on the scheduler, each
  continued by the status the call returned, ending with the callback's result. Time passing and
  interrupts are calls of that tree too, so a theorem about every tree covers every interleaving
  of a callback with interrupts. A callback sees the application's state when it starts and
  returns how it changes it.
\<close>

section \<open>Platform\<close>

datatype init_stage = Stage1 | Stage2

datatype mode = Once | Repeat

datatype callback_kind = CK_outside | CK_initialization | CK_task | CK_event | CK_command | CK_logging | CK_idle

record call_context =
  ctx_module :: string
  ctx_task :: string
  ctx_kind :: callback_kind
  ctx_scheduler :: bool

record platform =
  pl_now :: time
  pl_sequence :: nat
  pl_timer :: "time option"
  pl_context :: call_context
  pl_in_interrupt :: bool
  pl_can_sleep :: bool
  pl_can_stop :: bool

definition pl_notify :: "platform \<Rightarrow> platform" where
  "pl_notify p = p\<lparr>pl_sequence := pl_sequence p + 1\<rparr>"

text \<open>The pending timer is held as the time at which it is due.\<close>

definition pl_arm :: "time \<Rightarrow> platform \<Rightarrow> platform" where
  "pl_arm delay p = p\<lparr>pl_timer := Some (pl_now p + delay)\<rparr>"

definition pl_disarm :: "platform \<Rightarrow> platform" where
  "pl_disarm p = p\<lparr>pl_timer := None\<rparr>"

section \<open>Lifecycle\<close>

datatype lifecycle_state =
  LS_fresh | LS_initializing | LS_ready | LS_running | LS_stopping | LS_stopped | LS_failed

datatype lifecycle_request = LR_initialize | LR_ready | LR_fail | LR_run | LR_stop | LR_stopped

fun lifecycle_index :: "lifecycle_state \<Rightarrow> nat" where
  "lifecycle_index LS_fresh = 0"
| "lifecycle_index LS_initializing = 1"
| "lifecycle_index LS_ready = 2"
| "lifecycle_index LS_running = 3"
| "lifecycle_index LS_stopping = 4"
| "lifecycle_index LS_stopped = 5"
| "lifecycle_index LS_failed = 6"

fun lifecycle_step :: "lifecycle_state \<Rightarrow> lifecycle_request \<Rightarrow> lifecycle_state \<times> lifecycle_request" where
  "lifecycle_step LS_fresh r = (if r = LR_initialize then LS_initializing else LS_fresh, r)"
| "lifecycle_step LS_initializing r =
     (if r = LR_ready then LS_ready else if r = LR_fail then LS_failed else LS_initializing, r)"
| "lifecycle_step LS_ready r = (if r = LR_run then LS_running else LS_ready, r)"
| "lifecycle_step LS_running r = (if r = LR_stop then LS_stopping else LS_running, r)"
| "lifecycle_step LS_stopping r = (if r = LR_stopped then LS_stopped else LS_stopping, r)"
| "lifecycle_step LS_stopped r = (LS_stopped, r)"
| "lifecycle_step LS_failed r = (LS_failed, r)"

definition lifecycle_derived :: "(lifecycle_state, lifecycle_request) derived" where
  "lifecycle_derived = \<lparr>dv_initial = LS_fresh, dv_index = lifecycle_index, dv_count = 7,
     dv_step = lifecycle_step, dv_on_tick = (\<lambda>_ ob. ob), dv_on_enter = (\<lambda>_ ob. ob),
     dv_on_exit = (\<lambda>_ ob. ob)\<rparr>"

section \<open>State\<close>

record registration =
  reg_object :: nat
  reg_name :: "string option"
  reg_instance_name :: "string option"
  reg_bound :: bool

record task =
  tk_module :: nat
  tk_module_name :: "string option"
  tk_index :: nat
  tk_name :: "string option"
  tk_active :: bool
  tk_executing :: bool
  tk_mode :: mode
  tk_interval :: time
  tk_due :: time
  tk_default_period :: time
  tk_explicitly_scheduled :: bool
  tk_first_due :: time
  tk_completed :: u64
  tk_generation :: u64

record 'e event_record =
  ev_value :: 'e
  ev_sender :: "nat option"
  ev_due :: time

record timer =
  tm_active :: bool
  tm_due :: time
  tm_callback :: "nat option"

record task_statistics =
  ts_module :: "string option"
  ts_task :: "string option"
  ts_executions :: u64
  ts_late_starts :: u64
  ts_max_lateness :: time
  ts_min_duration :: time
  ts_max_duration :: time
  ts_total_duration :: time
  ts_total_self_duration :: time
  ts_total_nested_duration :: time

record statistics =
  st_tasks :: "task_statistics list"
  st_event_overflows :: u64
  st_timer_overflows :: u64
  st_invalid_yields :: u64
  st_yield_depth_errors :: u64

record initialization_failure =
  if_status :: status
  if_module :: "string option"
  if_stage :: init_stage

text \<open>
  Only the first \<open>event_count_\<close> entries of the event array are used: they are the list \<open>sc_events\<close>. The
  last timer is the scheduler's own wake timer. \<open>sc_frames\<close> is the chain of \<open>Frame\<close>s from \<open>frame_\<close>
  outwards, each the nested duration it has gathered.
\<close>

record ('e, 'u) sched =
  sc_platform :: platform
  sc_lifecycle :: "lifecycle_state state_machine"
  sc_modules :: "registration list"
  sc_tasks :: "task list"
  sc_events :: "'e event_record list"
  sc_event_capacity :: nat
  sc_timers :: "timer list"
  sc_statistics :: statistics
  sc_registration_error :: bool
  sc_used :: bool
  sc_stop_requested :: bool
  sc_yield_limit :: nat
  sc_failure :: status
  sc_initialization_failure :: initialization_failure
  sc_task_depth :: nat
  sc_frames :: "time list"
  sc_user :: 'u

abbreviation sc_state :: "('e, 'u) sched \<Rightarrow> lifecycle_state" where
  "sc_state s \<equiv> sm_cs (sc_lifecycle s)"

abbreviation sc_now :: "('e, 'u) sched \<Rightarrow> time" where
  "sc_now s \<equiv> pl_now (sc_platform s)"

definition sc_notify :: "('e, 'u) sched \<Rightarrow> ('e, 'u) sched" where
  "sc_notify s = s\<lparr>sc_platform := pl_notify (sc_platform s)\<rparr>"

definition lifecycle_tick :: "lifecycle_request \<Rightarrow> ('e, 'u) sched \<Rightarrow> ('e, 'u) sched" where
  "lifecycle_tick r s = s\<lparr>sc_lifecycle := fst (snd (sm_tick lifecycle_derived (sc_lifecycle s) r))\<rparr>"

definition accepts_work :: "('e, 'u) sched \<Rightarrow> bool" where
  "accepts_work s \<longleftrightarrow> sc_state s = LS_fresh \<or> sc_state s = LS_initializing \<or> sc_state s = LS_ready \<or>
     sc_state s = LS_running"

definition contains_module :: "('e, 'u) sched \<Rightarrow> nat \<Rightarrow> bool" where
  "contains_module s m \<longleftrightarrow> list_ex (\<lambda>r. reg_object r = m) (sc_modules s)"

section \<open>Searching for the earliest\<close>

text \<open>
  The loops \<open>for (index...) if (p(x[index]) && x[index].due < earliest) { earliest = ...; selected = index; }\<close>.
\<close>

fun scan_earliest ::
  "('a \<Rightarrow> bool) \<Rightarrow> ('a \<Rightarrow> time) \<Rightarrow> 'a list \<Rightarrow> nat \<Rightarrow> time \<times> nat option \<Rightarrow> time \<times> nat option" where
  "scan_earliest p due [] i acc = acc"
| "scan_earliest p due (x # xs) i (earliest, selected) =
     scan_earliest p due xs (i + 1)
       (if p x \<and> due x < earliest then (due x, Some i) else (earliest, selected))"

section \<open>Timers\<close>

definition sc_rearm :: "('e, 'u) sched \<Rightarrow> ('e, 'u) sched" where
  "sc_rearm s =
     (let earliest = fst (scan_earliest tm_active tm_due (sc_timers s) 0 (kForever, None))
      in if earliest = kForever then s\<lparr>sc_platform := pl_disarm (sc_platform s)\<rparr>
         else
           let now = sc_now s
           in s\<lparr>sc_platform := pl_arm (if earliest > now then earliest - now else 0) (sc_platform s)\<rparr>)"

text \<open>The search of \<open>TimerSlot\<close>: the timer of this callback, or else the last free one.\<close>

fun timer_slot_search :: "timer list \<Rightarrow> nat \<Rightarrow> nat option \<Rightarrow> nat option \<Rightarrow> nat option" where
  "timer_slot_search [] i callback slot = slot"
| "timer_slot_search (t # ts) i callback slot =
     (if tm_active t \<and> tm_callback t = callback then Some i
      else timer_slot_search ts (i + 1) callback (if \<not> tm_active t then Some i else slot))"

definition timer_slot :: "time \<Rightarrow> nat option \<Rightarrow> ('e, 'u) sched \<Rightarrow> status \<times> ('e, 'u) sched" where
  "timer_slot delay callback s =
     (if sc_state s \<noteq> LS_running then (S_not_running, s)
      else if delay = 0 \<or> callback = None then (S_invalid_argument, s)
      else case timer_slot_search (butlast (sc_timers s)) 0 callback None of
        None \<Rightarrow> (S_full, s\<lparr>sc_statistics := (sc_statistics s)
                     \<lparr>st_timer_overflows := st_timer_overflows (sc_statistics s) + 1\<rparr>\<rparr>)
      | Some slot \<Rightarrow>
          (S_ok, sc_notify (sc_rearm (s\<lparr>sc_timers := (sc_timers s)
             [slot := \<lparr>tm_active = True, tm_due = After (sc_now s) delay, tm_callback = callback\<rparr>]\<rparr>))))"

fun timer_find :: "timer list \<Rightarrow> nat \<Rightarrow> nat option \<Rightarrow> nat option" where
  "timer_find [] i callback = None"
| "timer_find (t # ts) i callback =
     (if tm_active t \<and> tm_callback t = callback then Some i else timer_find ts (i + 1) callback)"

definition cancel_timer :: "nat option \<Rightarrow> ('e, 'u) sched \<Rightarrow> status \<times> ('e, 'u) sched" where
  "cancel_timer callback s =
     (if sc_state s \<noteq> LS_running then (S_not_running, s)
      else case timer_find (butlast (sc_timers s)) 0 callback of
        None \<Rightarrow> (S_not_found, s)
      | Some i \<Rightarrow>
          (S_ok, sc_notify (sc_rearm (s\<lparr>sc_timers := (sc_timers s)
             [i := (sc_timers s ! i)\<lparr>tm_active := False\<rparr>]\<rparr>))))"

section \<open>Tasks, events, stop\<close>

fun task_find :: "task list \<Rightarrow> nat \<Rightarrow> nat \<Rightarrow> nat \<Rightarrow> nat option" where
  "task_find [] i module index = None"
| "task_find (t # ts) i module index =
     (if tk_module t = module \<and> tk_index t = index then Some i else task_find ts (i + 1) module index)"

definition schedule_slot :: "nat \<Rightarrow> nat \<Rightarrow> time \<Rightarrow> mode \<Rightarrow> ('e, 'u) sched \<Rightarrow> status \<times> ('e, 'u) sched" where
  "schedule_slot module index delay md s =
     (if \<not> accepts_work s then (S_not_running, s)
      else if md = Repeat \<and> delay = 0 then (S_invalid_argument, s)
      else case task_find (sc_tasks s) 0 module index of
        None \<Rightarrow> (S_not_found, s)
      | Some i \<Rightarrow>
          let t = sc_tasks s ! i;
              due = (if sc_state s = LS_running then After (sc_now s) delay else delay)
          in (S_ok, sc_notify (s\<lparr>sc_tasks := (sc_tasks s)
               [i := t\<lparr>tk_active := True, tk_explicitly_scheduled := True, tk_interval := delay, tk_mode := md,
                        tk_due := due, tk_first_due := due, tk_completed := 0,
                        tk_generation := tk_generation t + 1\<rparr>]\<rparr>)))"

definition cancel_slot :: "nat \<Rightarrow> nat \<Rightarrow> ('e, 'u) sched \<Rightarrow> status \<times> ('e, 'u) sched" where
  "cancel_slot module index s =
     (if pl_in_interrupt (sc_platform s) then (S_invalid_argument, s)
      else if \<not> accepts_work s then (S_not_running, s)
      else case task_find (sc_tasks s) 0 module index of
        None \<Rightarrow> (S_not_found, s)
      | Some i \<Rightarrow>
          let t = sc_tasks s ! i
          in if \<not> tk_active t then (S_not_found, s)
             else (S_ok, sc_notify (s\<lparr>sc_tasks := (sc_tasks s)
                    [i := t\<lparr>tk_active := False, tk_explicitly_scheduled := True,
                             tk_generation := tk_generation t + 1\<rparr>]\<rparr>)))"

definition sc_stop :: "('e, 'u) sched \<Rightarrow> status \<times> ('e, 'u) sched" where
  "sc_stop s =
     (if sc_state s \<noteq> LS_running then (S_not_running, s)
      else if pl_can_stop (sc_platform s) then (S_ok, sc_notify (s\<lparr>sc_stop_requested := True\<rparr>))
      else (S_ok, s))"

text \<open>A value of the event variant that is valueless is \<open>None\<close>.\<close>

definition sc_post :: "'e option \<Rightarrow> nat option \<Rightarrow> ('e, 'u) sched \<Rightarrow> status \<times> ('e, 'u) sched" where
  "sc_post value sender s =
     (if \<not> accepts_work s then (S_not_running, s)
      else case value of
        None \<Rightarrow> (S_invalid_argument, s)
      | Some v \<Rightarrow>
          if (case sender of None \<Rightarrow> False | Some m \<Rightarrow> \<not> contains_module s m) then (S_not_found, s)
          else if length (sc_events s) = sc_event_capacity s then
            (S_full, s\<lparr>sc_statistics := (sc_statistics s)
               \<lparr>st_event_overflows := st_event_overflows (sc_statistics s) + 1\<rparr>\<rparr>)
          else (S_ok, sc_notify (s\<lparr>sc_events := sc_events s @
                  [\<lparr>ev_value = v, ev_sender = sender, ev_due = sc_now s\<rparr>]\<rparr>)))"

definition task_statistics_zero :: "task \<Rightarrow> task_statistics" where
  "task_statistics_zero t = \<lparr>ts_module = tk_module_name t, ts_task = tk_name t, ts_executions = 0,
     ts_late_starts = 0, ts_max_lateness = 0, ts_min_duration = 0, ts_max_duration = 0,
     ts_total_duration = 0, ts_total_self_duration = 0, ts_total_nested_duration = 0\<rparr>"

definition reset_statistics :: "('e, 'u) sched \<Rightarrow> ('e, 'u) sched" where
  "reset_statistics s = s\<lparr>sc_statistics := \<lparr>st_tasks = map task_statistics_zero (sc_tasks s),
     st_event_overflows = 0, st_timer_overflows = 0, st_invalid_yields = 0, st_yield_depth_errors = 0\<rparr>\<rparr>"

record task_progress =
  tp_module :: "string option"
  tp_task :: "string option"
  tp_repeating :: bool
  tp_first_due :: time
  tp_period :: time
  tp_completed :: u64
  tp_generation :: u64

definition progress :: "('e, 'u) sched \<Rightarrow> bool \<times> time \<times> task_progress list" where
  "progress s = (sc_state s = LS_running, sc_now s,
     map (\<lambda>t. \<lparr>tp_module = tk_module_name t, tp_task = tk_name t,
                tp_repeating = (tk_active t \<and> tk_mode t = Repeat), tp_first_due = tk_first_due t,
                tp_period = tk_interval t, tp_completed = tk_completed t,
                tp_generation = tk_generation t\<rparr>) (sc_tasks s))"

section \<open>Callbacks\<close>

datatype 'e action =
    A_post "'e option" "nat option"
  | A_schedule nat nat time mode
  | A_cancel nat nat
  | A_timer time "nat option"
  | A_cancel_timer "nat option"
  | A_stop
  | A_yield
  | A_reset_statistics
  | A_elapse time
  | A_interrupt "'e action list"

datatype ('e, 'r) prog = Return 'r | Do "'e action" "status \<Rightarrow> ('e, 'r) prog"

text \<open>The effect of a call other than \<open>yield\<close>. An interrupt runs its own calls in interrupt context.\<close>

fun act :: "'e action \<Rightarrow> ('e, 'u) sched \<Rightarrow> status \<times> ('e, 'u) sched"
and acts :: "'e action list \<Rightarrow> ('e, 'u) sched \<Rightarrow> ('e, 'u) sched" where
  "act (A_post v m) s = sc_post v m s"
| "act (A_schedule m i d md) s = schedule_slot m i d md s"
| "act (A_cancel m i) s = cancel_slot m i s"
| "act (A_timer d c) s = timer_slot d c s"
| "act (A_cancel_timer c) s = cancel_timer c s"
| "act A_stop s = sc_stop s"
| "act A_yield s = (S_invalid_context, s\<lparr>sc_statistics := (sc_statistics s)
     \<lparr>st_invalid_yields := st_invalid_yields (sc_statistics s) + 1\<rparr>\<rparr>)"
| "act A_reset_statistics s = (S_ok, reset_statistics s)"
| "act (A_elapse d) s = (S_ok, s\<lparr>sc_platform := (sc_platform s)\<lparr>pl_now := pl_now (sc_platform s) + d\<rparr>\<rparr>)"
| "act (A_interrupt as) s =
     (let outer = pl_in_interrupt (sc_platform s);
          s = acts as (s\<lparr>sc_platform := (sc_platform s)\<lparr>pl_in_interrupt := True\<rparr>\<rparr>)
      in (S_ok, s\<lparr>sc_platform := (sc_platform s)\<lparr>pl_in_interrupt := outer\<rparr>\<rparr>))"
| "acts [] s = s"
| "acts (a # as) s = acts as (snd (act a s))"

text \<open>A callback's tree run with \<open>yield\<close> as the meaning of \<open>A_yield\<close>.\<close>

primrec run_prog ::
  "(('e, 'u) sched \<Rightarrow> status \<times> ('e, 'u) sched) \<Rightarrow> ('e, 'r) prog \<Rightarrow> ('e, 'u) sched \<Rightarrow> 'r \<times> ('e, 'u) sched" where
  "run_prog yld (Return r) = (\<lambda>s. (r, s))"
| "run_prog yld (Do a k) = (\<lambda>s.
     case (if a = A_yield then yld s else act a s) of (st, s') \<Rightarrow> run_prog yld (k st) s')"

text \<open>The application: its callbacks, by module, task, event and timer callback.\<close>

record ('e, 'u) app =
  app_init :: "nat \<Rightarrow> init_stage \<Rightarrow> 'u \<Rightarrow> ('e, status \<times> ('u \<Rightarrow> 'u)) prog"
  app_task :: "nat \<Rightarrow> nat \<Rightarrow> 'u \<Rightarrow> ('e, 'u \<Rightarrow> 'u) prog"
  app_event :: "nat \<Rightarrow> 'e \<Rightarrow> 'u \<Rightarrow> ('e, 'u \<Rightarrow> 'u) prog"
  app_timer :: "nat \<Rightarrow> 'u \<Rightarrow> 'e action list \<times> ('u \<Rightarrow> 'u)"
  app_can_sleep :: "nat \<Rightarrow> 'u \<Rightarrow> ('e, bool \<times> ('u \<Rightarrow> 'u)) prog"

text \<open>\<open>ContextGuard\<close> around a callback: the context is set, and the previous one restored.\<close>

definition in_context ::
  "call_context \<Rightarrow> (('e, 'u) sched \<Rightarrow> 'r \<times> ('e, 'u) sched) \<Rightarrow> ('e, 'u) sched \<Rightarrow> 'r \<times> ('e, 'u) sched" where
  "in_context c run s =
     (let previous = pl_context (sc_platform s);
          (r, s) = run (s\<lparr>sc_platform := (sc_platform s)\<lparr>pl_context := c\<rparr>\<rparr>)
      in (r, s\<lparr>sc_platform := (sc_platform s)\<lparr>pl_context := previous\<rparr>\<rparr>))"

section \<open>Running a task\<close>

definition take_task :: "nat \<Rightarrow> ('e, 'u) sched \<Rightarrow> time \<times> u64 \<times> ('e, 'u) sched" where
  "take_task i s =
     (let t = sc_tasks s ! i;
          t' = (if tk_mode t = Repeat then t\<lparr>tk_executing := True, tk_due := After (tk_due t) (tk_interval t)\<rparr>
                else t\<lparr>tk_executing := True, tk_active := False\<rparr>)
      in (tk_due t, tk_generation t, s\<lparr>sc_tasks := (sc_tasks s)[i := t']\<rparr>))"

text \<open>The bookkeeping of \<open>RunTask\<close> after the callback.\<close>

definition record_run :: "time \<Rightarrow> time \<Rightarrow> time \<Rightarrow> time \<Rightarrow> task_statistics \<Rightarrow> task_statistics" where
  "record_run start scheduled duration nested st =
     (let st = (if ts_executions st = 0 \<or> duration < ts_min_duration st
                then st\<lparr>ts_min_duration := duration\<rparr> else st);
          st = (if duration > ts_max_duration st then st\<lparr>ts_max_duration := duration\<rparr> else st);
          st = st\<lparr>ts_executions := ts_executions st + 1,
                   ts_total_duration := ts_total_duration st + duration,
                   ts_total_self_duration := ts_total_self_duration st + (duration - nested),
                   ts_total_nested_duration := ts_total_nested_duration st + nested\<rparr>
      in if start > scheduled then
           let st = st\<lparr>ts_late_starts := ts_late_starts st + 1\<rparr>
           in if start - scheduled > ts_max_lateness st then st\<lparr>ts_max_lateness := start - scheduled\<rparr> else st
         else st)"

definition finish_task :: "nat \<Rightarrow> time \<Rightarrow> u64 \<Rightarrow> time \<Rightarrow> ('e, 'u) sched \<Rightarrow> ('e, 'u) sched" where
  "finish_task i scheduled generation start s =
     (let duration = sc_now s - start;
          nested = hd (sc_frames s);
          outer = tl (sc_frames s);
          s = s\<lparr>sc_task_depth := sc_task_depth s - 1,
                 sc_frames := (case outer of [] \<Rightarrow> [] | p # ps \<Rightarrow> (p + duration) # ps)\<rparr>;
          t = sc_tasks s ! i;
          t' = t\<lparr>tk_executing := False,
                  tk_completed := (if tk_generation t = generation then tk_completed t + 1 else tk_completed t)\<rparr>;
          st = sc_statistics s
      in s\<lparr>sc_tasks := (sc_tasks s)[i := t'],
            sc_statistics := st\<lparr>st_tasks := (st_tasks st)
              [i := record_run start scheduled duration nested (st_tasks st ! i)]\<rparr>\<rparr>)"

definition run_task ::
  "(('e, 'u) sched \<Rightarrow> status \<times> ('e, 'u) sched) \<Rightarrow> ('e, 'u) app \<Rightarrow> nat \<Rightarrow> time \<Rightarrow> u64 \<Rightarrow> ('e, 'u) sched \<Rightarrow> ('e, 'u) sched" where
  "run_task yld app i scheduled generation s =
     (let s = s\<lparr>sc_frames := 0 # sc_frames s, sc_task_depth := sc_task_depth s + 1\<rparr>;
          start = sc_now s;
          t = sc_tasks s ! i;
          (upd, s) = in_context \<lparr>ctx_module = name_of (tk_module_name t), ctx_task = name_of (tk_name t),
                                 ctx_kind = CK_task, ctx_scheduler = True\<rparr>
                       (\<lambda>s. run_prog yld (app_task app (tk_module t) (tk_index t) (sc_user s)) s) s
      in finish_task i scheduled generation start (s\<lparr>sc_user := upd (sc_user s)\<rparr>))"

text \<open>
  \<open>Scheduler::yield\<close>. The nesting of \<open>yield\<close> inside the task it runs is bounded by \<open>yield_limit_\<close>; the
  argument \<open>n\<close> is a bound on that nesting, and plays no part when it is at least
  \<open>sc_yield_limit - sc_task_depth\<close>.
\<close>

definition yield_select :: "('e, 'u) sched \<Rightarrow> nat option" where
  "yield_select s = snd (scan_earliest (\<lambda>t. tk_active t \<and> \<not> tk_executing t \<and> tk_due t \<le> sc_now s) tk_due
     (sc_tasks s) 0 (kForever, None))"

definition yield_enter :: "('e, 'u) sched \<Rightarrow> (status \<times> ('e, 'u) sched) + nat" where
  "yield_enter s =
     (let c = pl_context (sc_platform s)
      in if pl_in_interrupt (sc_platform s) \<or> ctx_kind c \<noteq> CK_task \<or> \<not> ctx_scheduler c then
           Inl (S_invalid_context, s\<lparr>sc_statistics := (sc_statistics s)
             \<lparr>st_invalid_yields := st_invalid_yields (sc_statistics s) + 1\<rparr>\<rparr>)
         else if sc_stop_requested s \<or> sc_state s \<noteq> LS_running then Inl (S_not_running, s)
         else case yield_select s of
           None \<Rightarrow> Inl (S_empty, s)
         | Some i \<Rightarrow>
             if sc_task_depth s \<ge> sc_yield_limit s then
               Inl (S_depth_limit, s\<lparr>sc_statistics := (sc_statistics s)
                 \<lparr>st_yield_depth_errors := st_yield_depth_errors (sc_statistics s) + 1\<rparr>\<rparr>)
             else Inr i)"

primrec sc_yield :: "nat \<Rightarrow> ('e, 'u) app \<Rightarrow> ('e, 'u) sched \<Rightarrow> status \<times> ('e, 'u) sched" where
  "sc_yield 0 app s =
     (case yield_enter s of Inl r \<Rightarrow> r | Inr i \<Rightarrow> (S_depth_limit, s))"
| "sc_yield (Suc n) app s =
     (case yield_enter s of
        Inl r \<Rightarrow> r
      | Inr i \<Rightarrow>
          (case take_task i s of (scheduled, generation, s) \<Rightarrow>
             (S_ok, run_task (sc_yield n app) app i scheduled generation s)))"

section \<open>The timer interrupt\<close>

text \<open>One turn of the loop of \<open>Fire\<close>: \<open>False\<close> when it leaves the loop.\<close>

definition fire_turn :: "('e, 'u) app \<Rightarrow> ('e, 'u) sched \<Rightarrow> bool \<times> ('e, 'u) sched" where
  "fire_turn app s =
     (if sc_state s \<noteq> LS_running then (False, s)
      else
        let now = sc_now s
        in case snd (scan_earliest (\<lambda>t. tm_active t \<and> tm_due t \<le> now) tm_due (sc_timers s) 0 (kForever, None)) of
             None \<Rightarrow> (False, sc_rearm s)
           | Some slot \<Rightarrow>
               let callback = tm_callback (sc_timers s ! slot);
                   s = s\<lparr>sc_timers := (sc_timers s)[slot := (sc_timers s ! slot)\<lparr>tm_active := False\<rparr>]\<rparr>;
                   s = (case callback of
                          None \<Rightarrow> s
                        | Some c \<Rightarrow>
                            (case app_timer app c (sc_user s) of (as, upd) \<Rightarrow>
                               let s = acts as s in s\<lparr>sc_user := upd (sc_user s)\<rparr>))
               in (True, sc_notify s))"

partial_function (option) fire :: "('e, 'u) app \<Rightarrow> ('e, 'u) sched \<Rightarrow> ('e, 'u) sched option" where
  "fire app s = (case fire_turn app s of (again, s') \<Rightarrow> if again then fire app s' else Some s')"

text \<open>The platform calls \<open>Fire\<close> in interrupt context.\<close>

definition timer_interrupt :: "('e, 'u) app \<Rightarrow> ('e, 'u) sched \<Rightarrow> ('e, 'u) sched option" where
  "timer_interrupt app s =
     (let outer = pl_in_interrupt (sc_platform s)
      in case fire app (s\<lparr>sc_platform := (sc_platform s)\<lparr>pl_in_interrupt := True\<rparr>\<rparr>) of
           None \<Rightarrow> None
         | Some s \<Rightarrow> Some (s\<lparr>sc_platform := (sc_platform s)\<lparr>pl_in_interrupt := outer\<rparr>\<rparr>))"

section \<open>Commands\<close>

text \<open>\<open>Invoke\<close>: a callback run in command context, while the scheduler is running.\<close>

definition sc_invoke ::
  "('e, 'u) app \<Rightarrow> call_context \<Rightarrow> ('u \<Rightarrow> ('e, status \<times> ('u \<Rightarrow> 'u)) prog) \<Rightarrow> ('e, 'u) sched \<Rightarrow> status \<times> ('e, 'u) sched" where
  "sc_invoke app c callback s =
     (if pl_in_interrupt (sc_platform s) then (S_invalid_argument, s)
      else if sc_state s \<noteq> LS_running then (S_not_running, s)
      else case in_context (c\<lparr>ctx_kind := CK_command, ctx_scheduler := True\<rparr>)
                  (\<lambda>s. run_prog (sc_yield 0 app) (callback (sc_user s)) s) s of
             ((st, upd), s) \<Rightarrow> (st, s\<lparr>sc_user := upd (sc_user s)\<rparr>))"

section \<open>Registration\<close>

text \<open>A task descriptor; callbacks are compared by identity and \<open>None\<close> is null.\<close>

record descriptor =
  td_name :: "string option"
  td_callback :: "nat option"
  td_period :: time

text \<open>One iteration of the loop over the descriptors in \<open>Register\<close>, for the descriptors before it \<open>seen\<close>.\<close>

fun register_tasks ::
  "nat \<Rightarrow> string option \<Rightarrow> descriptor list \<Rightarrow> descriptor list \<Rightarrow> ('e, 'u) sched \<Rightarrow> ('e, 'u) sched" where
  "register_tasks object name seen [] s = s"
| "register_tasks object name seen (d # ds) s =
     (let t = \<lparr>tk_module = object, tk_module_name = name, tk_index = length seen, tk_name = td_name d,
               tk_active = False, tk_executing = False, tk_mode = Once, tk_interval = 0, tk_due = 0,
               tk_default_period = td_period d, tk_explicitly_scheduled = False, tk_first_due = 0,
               tk_completed = 0, tk_generation = 0\<rparr>;
          st = sc_statistics s;
          s = s\<lparr>sc_tasks := sc_tasks s @ [t],
                sc_statistics := st\<lparr>st_tasks := st_tasks st @ [task_statistics_zero t]\<rparr>,
                sc_registration_error := (sc_registration_error s \<or> td_callback d = None \<or>
                  td_period d = kForever \<or> list_ex (\<lambda>p. td_callback p = td_callback d) seen)\<rparr>
      in register_tasks object name (seen @ [d]) ds s)"

definition register_module ::
  "nat option \<Rightarrow> string \<Rightarrow> string option \<Rightarrow> descriptor list \<Rightarrow> ('e, 'u) sched \<Rightarrow> ('e, 'u) sched" where
  "register_module object name instance_name ds s =
     (case object of
        None \<Rightarrow> s\<lparr>sc_registration_error := True\<rparr>
      | Some m \<Rightarrow>
          register_tasks m (Some name) [] ds
            (s\<lparr>sc_modules := sc_modules s @ [\<lparr>reg_object = m, reg_name = Some name,
                 reg_instance_name = instance_name, reg_bound = False\<rparr>]\<rparr>))"

text \<open>A scheduler before its modules are registered, with room for \<open>events\<close> events and \<open>timers\<close> timers.\<close>

definition sched_new :: "platform \<Rightarrow> nat \<Rightarrow> nat \<Rightarrow> nat \<Rightarrow> 'u \<Rightarrow> ('e, 'u) sched" where
  "sched_new p events timers yield_depth u = \<lparr>sc_platform = p, sc_lifecycle = sm_new lifecycle_derived,
     sc_modules = [], sc_tasks = [], sc_events = [], sc_event_capacity = events,
     sc_timers = replicate (timers + 1) \<lparr>tm_active = False, tm_due = 0, tm_callback = None\<rparr>,
     sc_statistics = \<lparr>st_tasks = [], st_event_overflows = 0, st_timer_overflows = 0, st_invalid_yields = 0,
       st_yield_depth_errors = 0\<rparr>,
     sc_registration_error = False, sc_used = False, sc_stop_requested = False, sc_yield_limit = yield_depth,
     sc_failure = S_initialization_failed,
     sc_initialization_failure = \<lparr>if_status = S_ok, if_module = None, if_stage = Stage1\<rparr>,
     sc_task_depth = 0, sc_frames = [], sc_user = u\<rparr>"

text \<open>The constructor: the modules of the list are registered in turn.\<close>

definition sched_make ::
  "platform \<Rightarrow> nat \<Rightarrow> nat \<Rightarrow> nat \<Rightarrow> 'u \<Rightarrow> (nat option \<times> string \<times> string option \<times> descriptor list) list \<Rightarrow> ('e, 'u) sched" where
  "sched_make p events timers yield_depth u modules =
     fold (\<lambda>(object, name, instance_name, ds). register_module object name instance_name ds) modules
       (sched_new p events timers yield_depth u)"

section \<open>Initialization\<close>

text \<open>
  The optional logging service: whether it uses the same platform, one dispatch, whether its buffer
  is empty, the final flush, and the message of a failed initialization.
\<close>

record 'u logging =
  lg_uses_platform :: bool
  lg_dispatch :: "'u \<Rightarrow> bool \<times> 'u"
  lg_empty :: "'u \<Rightarrow> bool"
  lg_flush :: "'u \<Rightarrow> 'u"
  lg_failure :: "initialization_failure \<Rightarrow> 'u \<Rightarrow> 'u"

text \<open>The loop over the modules of \<open>Validate\<close>; \<open>seen\<close> are the modules before, with their names.\<close>

fun validate_modules :: "registration list \<Rightarrow> registration list \<Rightarrow> status \<times> registration list" where
  "validate_modules seen [] = (S_ok, seen)"
| "validate_modules seen (r # rs) =
     (let r = r\<lparr>reg_name := reg_instance_name r\<rparr>
      in if name_missing (reg_name r) then (S_invalid_argument, seen @ r # rs)
         else if list_ex (\<lambda>p. EqualName (name_of (reg_name r)) (name_of (reg_name p))) seen then
           (S_duplicate_name, seen @ r # rs)
         else validate_modules (seen @ [r]) rs)"

fun validate_tasks :: "task list \<Rightarrow> task list \<Rightarrow> status" where
  "validate_tasks seen [] = S_ok"
| "validate_tasks seen (t # ts) =
     (if name_missing (tk_name t) then S_invalid_argument
      else if list_ex (\<lambda>p. tk_module t = tk_module p \<and> tk_name t = tk_name p) seen then S_duplicate_name
      else validate_tasks (seen @ [t]) ts)"

text \<open>The module's name is copied to its tasks and their statistics.\<close>

definition adopt_name :: "registration list \<Rightarrow> task \<Rightarrow> task" where
  "adopt_name rs t = fold (\<lambda>r t. if reg_object r = tk_module t then t\<lparr>tk_module_name := reg_name r\<rparr> else t) rs t"

definition sc_validate :: "'u logging option \<Rightarrow> ('e, 'u) sched \<Rightarrow> status \<times> ('e, 'u) sched" where
  "sc_validate lg s =
     (if (case lg of None \<Rightarrow> False | Some l \<Rightarrow> \<not> lg_uses_platform l) then (S_invalid_argument, s)
      else if sc_registration_error s then (S_invalid_argument, s)
      else case validate_modules [] (sc_modules s) of (st, rs) \<Rightarrow>
        let s = s\<lparr>sc_modules := rs\<rparr>
        in if st \<noteq> S_ok then (st, s)
           else
             let tasks = map (adopt_name rs) (sc_tasks s);
                 stats = sc_statistics s;
                 stats = stats\<lparr>st_tasks := map2 (\<lambda>t x. if list_ex (\<lambda>r. reg_object r = tk_module t) rs
                                 then x\<lparr>ts_module := tk_module_name t\<rparr> else x) tasks (st_tasks stats)\<rparr>;
                 s = s\<lparr>sc_tasks := tasks, sc_statistics := stats\<rparr>
             in (validate_tasks [] tasks, s))"

definition default_schedule :: "task \<Rightarrow> task" where
  "default_schedule t =
     (if tk_default_period t \<noteq> 0 \<and> \<not> tk_explicitly_scheduled t then
        t\<lparr>tk_active := True, tk_mode := Repeat, tk_interval := tk_default_period t, tk_due := tk_default_period t\<rparr>
      else t)"

text \<open>The two nested loops over stages and modules; the first failing module ends them.\<close>

fun init_modules ::
  "('e, 'u) app \<Rightarrow> init_stage \<Rightarrow> registration list \<Rightarrow> ('e, 'u) sched \<Rightarrow> status \<times> ('e, 'u) sched" where
  "init_modules app stage [] s = (S_ok, s)"
| "init_modules app stage (r # rs) s =
     (case in_context \<lparr>ctx_module = name_of (reg_name r), ctx_task = ''init'', ctx_kind = CK_initialization,
                       ctx_scheduler = True\<rparr>
             (\<lambda>s. run_prog (sc_yield 0 app) (app_init app (reg_object r) stage (sc_user s)) s) s of
        ((st, upd), s) \<Rightarrow>
          let s = s\<lparr>sc_user := upd (sc_user s)\<rparr>
          in if st \<noteq> S_ok then
               (st, s\<lparr>sc_initialization_failure := \<lparr>if_status = st, if_module = reg_name r, if_stage = stage\<rparr>\<rparr>)
             else init_modules app stage rs s)"

definition sc_init :: "'u logging option \<Rightarrow> ('e, 'u) app \<Rightarrow> ('e, 'u) sched \<Rightarrow> status \<times> ('e, 'u) sched" where
  "sc_init lg app s =
     (if sc_state s = LS_failed then (sc_failure s, s)
      else if sc_state s \<noteq> LS_fresh then (S_already_initialized, s)
      else
        let s = lifecycle_tick LR_initialize s;
            (status, s) = sc_validate lg s;
            (status, s) =
              (if status \<noteq> S_ok then (status, s)
               else
                 let s = s\<lparr>sc_modules := map (\<lambda>r. r\<lparr>reg_bound := True\<rparr>) (sc_modules s),
                           sc_tasks := map default_schedule (sc_tasks s)\<rparr>;
                     (status, s) = init_modules app Stage1 (sc_modules s) s
                 in if status \<noteq> S_ok then (status, s) else init_modules app Stage2 (sc_modules s) s)
        in if status = S_ok then (status, lifecycle_tick LR_ready s)
           else
             let s = lifecycle_tick LR_fail s;
                 s = s\<lparr>sc_failure := status,
                       sc_initialization_failure := (sc_initialization_failure s)\<lparr>if_status := status\<rparr>,
                       sc_tasks := map (\<lambda>t. t\<lparr>tk_active := False\<rparr>) (sc_tasks s), sc_events := []\<rparr>;
                 s = (case lg of None \<Rightarrow> s
                      | Some l \<Rightarrow> s\<lparr>sc_user := lg_flush l (lg_failure l (sc_initialization_failure s) (sc_user s))\<rparr>)
             in (status, s))"

section \<open>The dispatch loop\<close>

datatype 'e choice = Ch_event "'e event_record" | Ch_task nat time u64 | Ch_none

text \<open>The guarded part of an iteration: the earliest due event or task is taken out.\<close>

definition dispatch_select :: "('e, 'u) sched \<Rightarrow> 'e choice \<times> ('e, 'u) sched" where
  "dispatch_select s =
     (let now = sc_now s;
          (earliest, task_index) = scan_earliest (\<lambda>t. tk_active t \<and> tk_due t \<le> now) tk_due (sc_tasks s) 0 (kForever, None);
          (_, event_index) = scan_earliest (\<lambda>e. ev_due e \<le> now) ev_due (sc_events s) 0 (earliest, None)
      in case event_index of
           Some i \<Rightarrow>
             (Ch_event (sc_events s ! i), s\<lparr>sc_events := butlast ((sc_events s)[i := last (sc_events s)])\<rparr>)
         | None \<Rightarrow>
             (case task_index of
                Some i \<Rightarrow> (case take_task i s of (scheduled, generation, s) \<Rightarrow> (Ch_task i scheduled generation, s))
              | None \<Rightarrow> (Ch_none, s)))"

definition deliver_event :: "('e, 'u) app \<Rightarrow> 'e event_record \<Rightarrow> registration list \<Rightarrow> ('e, 'u) sched \<Rightarrow> ('e, 'u) sched" where
  "deliver_event app e rs s =
     fold (\<lambda>r s.
       if Some (reg_object r) = ev_sender e then s
       else
         (case in_context \<lparr>ctx_module = name_of (reg_name r), ctx_task = ''on_event'', ctx_kind = CK_event,
                           ctx_scheduler = True\<rparr>
                 (\<lambda>s. run_prog (sc_yield 0 app) (app_event app (reg_object r) (ev_value e) (sc_user s)) s) s of
            (upd, s) \<Rightarrow> s\<lparr>sc_user := upd (sc_user s)\<rparr>)) rs s"

text \<open>The modules' votes on sleeping, all of them asked.\<close>

fun ask_sleep :: "('e, 'u) app \<Rightarrow> registration list \<Rightarrow> bool \<Rightarrow> ('e, 'u) sched \<Rightarrow> bool \<times> ('e, 'u) sched" where
  "ask_sleep app [] sleep s = (sleep, s)"
| "ask_sleep app (r # rs) sleep s =
     (case in_context \<lparr>ctx_module = name_of (reg_name r), ctx_task = ''can_sleep'', ctx_kind = CK_idle,
                       ctx_scheduler = True\<rparr>
             (\<lambda>s. run_prog (sc_yield 0 app) (app_can_sleep app (reg_object r) (sc_user s)) s) s of
        ((ok, upd), s) \<Rightarrow> ask_sleep app rs (sleep \<and> ok) (s\<lparr>sc_user := upd (sc_user s)\<rparr>))"

text \<open>The deadline of an idle wait, with the wake timer set to the earliest task.\<close>

definition idle_deadline :: "('e, 'u) sched \<Rightarrow> time \<times> ('e, 'u) sched" where
  "idle_deadline s =
     (let deadline = fst (scan_earliest tk_active tk_due (sc_tasks s) 0 (kForever, None));
          timers = (sc_timers s)[length (sc_timers s) - 1 :=
                      \<lparr>tm_active = (deadline \<noteq> kForever), tm_due = deadline, tm_callback = None\<rparr>];
          deadline = fst (scan_earliest tm_active tm_due timers 0 (deadline, None))
      in (deadline, sc_rearm (s\<lparr>sc_timers := timers\<rparr>)))"

datatype turn = T_stop | T_again | T_idle time bool nat

definition run_turn :: "'u logging option \<Rightarrow> ('e, 'u) app \<Rightarrow> ('e, 'u) sched \<Rightarrow> turn \<times> ('e, 'u) sched" where
  "run_turn lg app s =
     (let observed = pl_sequence (sc_platform s)
      in if sc_stop_requested s then (T_stop, s)
         else case dispatch_select s of
           (Ch_event e, s) \<Rightarrow> (T_again, deliver_event app e (sc_modules s) s)
         | (Ch_task i scheduled generation, s) \<Rightarrow>
             (T_again, run_task (sc_yield (sc_yield_limit s) app) app i scheduled generation s)
         | (Ch_none, s) \<Rightarrow>
             (case (case lg of None \<Rightarrow> (False, sc_user s) | Some l \<Rightarrow> lg_dispatch l (sc_user s)) of
                (dispatched, u) \<Rightarrow>
                  let s = s\<lparr>sc_user := u\<rparr>
                  in if dispatched then (T_again, s)
                     else case ask_sleep app (sc_modules s) (pl_can_sleep (sc_platform s)) s of
                       (sleep, s) \<Rightarrow>
                         if sc_stop_requested s then (T_again, s)
                         else if (case lg of None \<Rightarrow> False | Some l \<Rightarrow> \<not> lg_empty l (sc_user s)) then (T_again, s)
                         else case idle_deadline s of (deadline, s) \<Rightarrow> (T_idle deadline sleep observed, s)))"

text \<open>
  The loop; \<open>idle\<close> is the platform's idle wait, during which time passes and interrupts run.
  \<open>None\<close> is a run that never stops.
\<close>

partial_function (option) run_loop ::
  "'u logging option \<Rightarrow> ('e, 'u) app \<Rightarrow> (time \<Rightarrow> bool \<Rightarrow> nat \<Rightarrow> ('e, 'u) sched \<Rightarrow> ('e, 'u) sched) \<Rightarrow>
   ('e, 'u) sched \<Rightarrow> ('e, 'u) sched option" where
  "run_loop lg app idle s =
     (case run_turn lg app s of
        (T_stop, s) \<Rightarrow> Some s
      | (T_again, s) \<Rightarrow> run_loop lg app idle s
      | (T_idle deadline sleep observed, s) \<Rightarrow> run_loop lg app idle (idle deadline sleep observed s))"

definition start_tasks :: "('e, 'u) sched \<Rightarrow> ('e, 'u) sched" where
  "start_tasks s =
     (let start = sc_now s
      in s\<lparr>sc_tasks := map (\<lambda>t. if tk_active t then
             t\<lparr>tk_due := After start (tk_interval t), tk_first_due := After start (tk_interval t)\<rparr> else t) (sc_tasks s)\<rparr>)"

text \<open>
  The end of \<open>run\<close>. \<open>quiesce\<close> has nothing left to do here: the timer is off already, and a timer interrupt
  of the model is over when \<open>fire\<close> returns.
\<close>

definition finish_run :: "'u logging option \<Rightarrow> ('e, 'u) sched \<Rightarrow> ('e, 'u) sched" where
  "finish_run lg s =
     (let s = lifecycle_tick LR_stop s;
          s = s\<lparr>sc_timers := map (\<lambda>t. t\<lparr>tm_active := False\<rparr>) (sc_timers s),
                sc_platform := pl_disarm (sc_platform s),
                sc_tasks := map (\<lambda>t. t\<lparr>tk_active := False\<rparr>) (sc_tasks s), sc_events := []\<rparr>;
          s = (case lg of None \<Rightarrow> s | Some l \<Rightarrow> s\<lparr>sc_user := lg_flush l (sc_user s)\<rparr>)
      in lifecycle_tick LR_stopped s)"

definition sc_run ::
  "'u logging option \<Rightarrow> ('e, 'u) app \<Rightarrow> (time \<Rightarrow> bool \<Rightarrow> nat \<Rightarrow> ('e, 'u) sched \<Rightarrow> ('e, 'u) sched) \<Rightarrow>
   ('e, 'u) sched \<Rightarrow> (status \<times> ('e, 'u) sched) option" where
  "sc_run lg app idle s =
     (if sc_used s then Some (S_already_run, s)
      else
        let s = s\<lparr>sc_used := True\<rparr>
        in if sc_state s = LS_failed then Some (sc_failure s, s)
           else if sc_state s \<noteq> LS_fresh \<and> sc_state s \<noteq> LS_ready then Some (S_busy, s)
           else case (if sc_state s = LS_fresh then sc_init lg app s else (S_ok, s)) of (status, s) \<Rightarrow>
             if status \<noteq> S_ok then Some (status, s)
             else case run_loop lg app idle (start_tasks (lifecycle_tick LR_run s)) of
               None \<Rightarrow> None
             | Some s \<Rightarrow> Some (S_ok, finish_run lg s))"

end
