(* ===== verification/Scheduler_Select.thy ===== *)
theory Scheduler_Select
  imports Scheduler "HOL-Library.Multiset"
begin

text \<open>
  What the scheduler picks: the scans of the dispatch loop, of \<open>yield\<close>, of the timer interrupt and of
  the idle deadline return an earliest entry, and a repeating task keeps the cadence of its first
  due time.
\<close>

section \<open>The scan\<close>

definition scan_ok :: "('a \<Rightarrow> bool) \<Rightarrow> ('a \<Rightarrow> time) \<Rightarrow> 'a list \<Rightarrow> time \<Rightarrow> time \<times> nat option \<Rightarrow> bool" where
  "scan_ok p due xs bound r \<longleftrightarrow>
     (case snd r of
        None \<Rightarrow> fst r = bound \<and> (\<forall>x \<in> set xs. p x \<longrightarrow> bound \<le> due x)
      | Some i \<Rightarrow> i < length xs \<and> p (xs ! i) \<and> due (xs ! i) = fst r \<and> fst r < bound \<and>
          (\<forall>x \<in> set xs. p x \<longrightarrow> fst r \<le> due x))"

lemma scan_take:
  "p x \<and> due x < e \<Longrightarrow> scan_earliest p due (x # xs) k (e, sel) = scan_earliest p due xs (k + 1) (due x, Some k)"
  by simp

lemma scan_skip:
  "\<not> (p x \<and> due x < e) \<Longrightarrow> scan_earliest p due (x # xs) k (e, sel) = scan_earliest p due xs (k + 1) (e, sel)"
  by auto

lemma scan_earliest_acc:
  "scan_earliest p due xs k (e, sel) =
     (case scan_earliest p due xs 0 (e, None) of
        (e', None) \<Rightarrow> (e', sel) | (e', Some i) \<Rightarrow> (e', Some (k + i)))"
proof (induction xs arbitrary: k e sel)
  case (Cons x xs)
  show ?case
  proof (cases "p x \<and> due x < e")
    case True
    obtain e' i where r: "scan_earliest p due xs 0 (due x, None) = (e', i)" by fastforce
    show ?thesis
      using Cons.IH [of 1 "due x" "Some 0"] Cons.IH [of "k + 1" "due x" "Some k"] True r
      by (cases i) (simp_all add: scan_take)
  next
    case False
    obtain e' i where r: "scan_earliest p due xs 0 (e, None) = (e', i)" by fastforce
    show ?thesis
      using Cons.IH [of 1 e None] Cons.IH [of "k + 1" e sel] False r
      by (cases i) auto
  qed
qed simp

lemma scan_earliest_Cons:
  "scan_earliest p due (x # xs) 0 (e, None) =
     (if p x \<and> due x < e then
        (case scan_earliest p due xs 0 (due x, None) of (e', None) \<Rightarrow> (e', Some 0) | (e', Some i) \<Rightarrow> (e', Some (Suc i)))
      else (case scan_earliest p due xs 0 (e, None) of (e', None) \<Rightarrow> (e', None) | (e', Some i) \<Rightarrow> (e', Some (Suc i))))"
  using scan_earliest_acc [of p due xs 1 "due x" "Some 0"] scan_earliest_acc [of p due xs 1 e None]
  by (auto split: prod.splits option.splits)

lemma scan_earliest_ok: "scan_ok p due xs e (scan_earliest p due xs 0 (e, None))"
proof (induction xs arbitrary: e)
  case Nil then show ?case by (simp add: scan_ok_def)
next
  case (Cons x xs)
  show ?case
  proof (cases "p x \<and> due x < e")
    case True
    obtain e' sel where r: "scan_earliest p due xs 0 (due x, None) = (e', sel)" by fastforce
    with Cons.IH [of "due x"] True show ?thesis
      unfolding scan_earliest_Cons by (cases sel) (auto simp: scan_ok_def)
  next
    case False
    obtain e' sel where r: "scan_earliest p due xs 0 (e, None) = (e', sel)" by fastforce
    with Cons.IH [of e] False show ?thesis
      unfolding scan_earliest_Cons by (cases sel) (auto simp: scan_ok_def)
  qed
qed

lemma scan_earliestE:
  assumes "scan_earliest p due xs 0 (bound, None) = (e, sel)"
  obtains (none) "sel = None" "e = bound" "\<And>x. x \<in> set xs \<Longrightarrow> p x \<Longrightarrow> bound \<le> due x"
    | (some) i where "sel = Some i" "i < length xs" "p (xs ! i)" "due (xs ! i) = e" "e < bound"
        "\<And>x. x \<in> set xs \<Longrightarrow> p x \<Longrightarrow> e \<le> due x"
  using scan_earliest_ok [of p due xs bound] assms by (cases sel) (auto simp: scan_ok_def)

section \<open>Dispatch\<close>

text \<open>
  What the dispatch loop takes is due, and nothing that is due is due earlier; it takes nothing only
  when nothing is due. (No task or event has the due time \<open>kForever\<close>, which stands for none.)
\<close>

definition due_tasks :: "('e, 'u) sched \<Rightarrow> task set" where
  "due_tasks s = {t \<in> set (sc_tasks s). tk_active t \<and> tk_due t \<le> sc_now s}"

definition due_events :: "('e, 'u) sched \<Rightarrow> 'e event_record set" where
  "due_events s = {e \<in> set (sc_events s). ev_due e \<le> sc_now s}"

lemma dispatch_select_cases:
  assumes "dispatch_select s = (c, s')" and fin: "sc_now s < kForever"
  obtains (event) i where "i < length (sc_events s)" "c = Ch_event (sc_events s ! i)" "sc_events s ! i \<in> due_events s"
      "\<And>e. e \<in> due_events s \<Longrightarrow> ev_due (sc_events s ! i) \<le> ev_due e"
      "\<And>t. t \<in> due_tasks s \<Longrightarrow> ev_due (sc_events s ! i) < tk_due t"
      "s' = s\<lparr>sc_events := butlast ((sc_events s)[i := last (sc_events s)])\<rparr>"
    | (task) i where "i < length (sc_tasks s)" "sc_tasks s ! i \<in> due_tasks s"
      "c = Ch_task i (tk_due (sc_tasks s ! i)) (tk_generation (sc_tasks s ! i))"
      "\<And>t. t \<in> due_tasks s \<Longrightarrow> tk_due (sc_tasks s ! i) \<le> tk_due t"
      "\<And>e. e \<in> due_events s \<Longrightarrow> tk_due (sc_tasks s ! i) \<le> ev_due e"
      "s' = snd (snd (take_task i s))"
    | (none) "c = Ch_none" "due_tasks s = {}" "due_events s = {}" "s' = s"
proof -
  obtain e1 ti where t: "scan_earliest (\<lambda>t. tk_active t \<and> tk_due t \<le> sc_now s) tk_due (sc_tasks s) 0 (kForever, None) = (e1, ti)"
    by fastforce
  obtain e2 ei where e: "scan_earliest (\<lambda>e. ev_due e \<le> sc_now s) ev_due (sc_events s) 0 (e1, None) = (e2, ei)"
    by fastforce
  have e1: "e1 \<le> tk_due x" if "x \<in> due_tasks s" for x
    using t that by (elim scan_earliestE) (auto simp: due_tasks_def)
  have e1k: "e1 \<le> kForever" using t by (elim scan_earliestE) auto
  have sel: "dispatch_select s = (case ei of
      Some i \<Rightarrow> (Ch_event (sc_events s ! i), s\<lparr>sc_events := butlast ((sc_events s)[i := last (sc_events s)])\<rparr>)
    | None \<Rightarrow> (case ti of Some i \<Rightarrow> (case take_task i s of (a, b, s) \<Rightarrow> (Ch_task i a b, s)) | None \<Rightarrow> (Ch_none, s)))"
    by (simp add: dispatch_select_def Let_def t e)
  from e show thesis
  proof (cases rule: scan_earliestE)
    case (some i)
    then show thesis using event [of i] sel assms(1) e1 by (fastforce simp: due_events_def)
  next
    case none1: none
    from t show thesis
    proof (cases rule: scan_earliestE)
      case (some i)
      then show thesis using task [of i] sel assms(1) none1
        by (auto simp: due_tasks_def due_events_def take_task_def Let_def)
    next
      case none2: none
      have "due_tasks s = {}" using none2(3) fin by (force simp: due_tasks_def)
      moreover have "due_events s = {}" using none1(3) none2(2) fin by (force simp: due_events_def)
      ultimately show thesis using none sel assms(1) none1(1) none2(1) by simp
    qed
  qed
qed

text \<open>The events are kept densely: the last takes the place of the one taken out.\<close>

lemma mset_swap_remove:
  assumes "i < length xs"
  shows "mset xs = add_mset (xs ! i) (mset (butlast (xs[i := last xs])))"
proof -
  obtain ys z where xs: "xs = ys @ [z]" using assms by (metis list.size(3) not_less_zero rev_exhaust)
  show ?thesis
  proof (cases "i = length ys")
    case False
    then have "i < length ys" using assms xs by simp
    then show ?thesis unfolding xs by (simp add: nth_append list_update_append mset_update)
  qed (simp add: xs)
qed

text \<open>
  C5: an iteration of the dispatch loop takes what is due first: an event only when no due event or
  task is due earlier and no task is due at the same time, else a task than which no due task or event
  is due earlier, and nothing only when nothing is due. The event is taken out of the buffer and the
  others stay; a task that runs once is no longer active, and one that repeats is due one interval
  after the time it was due, however late it is.
\<close>

theorem dispatch_earliest:
  assumes "dispatch_select s = (c, s')" and "sc_now s < kForever"
  shows "case c of
      Ch_event e \<Rightarrow> e \<in> due_events s \<and> (\<forall>x \<in> due_events s. ev_due e \<le> ev_due x) \<and>
        (\<forall>t \<in> due_tasks s. ev_due e < tk_due t) \<and>
        mset (sc_events s) = add_mset e (mset (sc_events s')) \<and> sc_tasks s' = sc_tasks s
    | Ch_task i due g \<Rightarrow> i < length (sc_tasks s) \<and> sc_tasks s ! i \<in> due_tasks s \<and>
        due = tk_due (sc_tasks s ! i) \<and> (\<forall>t \<in> due_tasks s. due \<le> tk_due t) \<and>
        (\<forall>e \<in> due_events s. due \<le> ev_due e) \<and> sc_events s' = sc_events s \<and>
        (case tk_mode (sc_tasks s ! i) of
           Once \<Rightarrow> \<not> tk_active (sc_tasks s' ! i)
         | Repeat \<Rightarrow> tk_active (sc_tasks s' ! i) \<and>
             unat (tk_due (sc_tasks s' ! i)) = min (unat due + unat (tk_interval (sc_tasks s ! i))) (2 ^ 64 - 2))
    | Ch_none \<Rightarrow> due_tasks s = {} \<and> due_events s = {} \<and> s' = s"
  using assms
proof (cases rule: dispatch_select_cases)
  case (event i)
  then show ?thesis using mset_swap_remove [of i "sc_events s"] by simp
next
  case (task i)
  then have "tk_active (sc_tasks s ! i)" by (simp add: due_tasks_def)
  then show ?thesis using task
    by (auto simp: take_task_def Let_def unat_After split: mode.split)
qed simp

text \<open>A scheduler at time 100 with two due tasks and a due event between them.\<close>

definition ex_platform :: platform where
  "ex_platform = \<lparr>pl_now = 100, pl_sequence = 0, pl_timer = None,
     pl_context = \<lparr>ctx_module = [], ctx_task = [], ctx_kind = CK_outside, ctx_scheduler = False\<rparr>,
     pl_in_interrupt = False, pl_can_sleep = True, pl_can_stop = True\<rparr>"

definition ex_task :: "nat \<Rightarrow> mode \<Rightarrow> time \<Rightarrow> time \<Rightarrow> task" where
  "ex_task i md interval due = \<lparr>tk_module = 0, tk_module_name = Some ''m'', tk_index = i, tk_name = Some ''t'',
     tk_active = True, tk_executing = False, tk_mode = md, tk_interval = interval, tk_due = due,
     tk_default_period = 0, tk_explicitly_scheduled = True, tk_first_due = due, tk_completed = 0, tk_generation = 1\<rparr>"

definition ex_sched :: "(nat, unit) sched" where
  "ex_sched = (sched_new ex_platform 2 1 2 ())\<lparr>
     sc_lifecycle := (sm_new lifecycle_derived)\<lparr>sm_cs := LS_running\<rparr>,
     sc_tasks := [ex_task 0 Once 0 70, ex_task 1 Repeat 20 50],
     sc_statistics := \<lparr>st_tasks = map task_statistics_zero [ex_task 0 Once 0 70, ex_task 1 Repeat 20 50],
       st_event_overflows = 0, st_timer_overflows = 0, st_invalid_yields = 0, st_yield_depth_errors = 0\<rparr>,
     sc_events := [\<lparr>ev_value = 7, ev_sender = None, ev_due = 60\<rparr>]\<rparr>"

lemma ex_sched_select: "fst (dispatch_select ex_sched) = Ch_task 1 50 1" "sc_now ex_sched < kForever"
  by code_simp+

theorem dispatch_earliest_witness:
  "fst (dispatch_select ex_sched) = Ch_task 1 50 1 \<and> sc_now ex_sched < kForever \<and>
     50 \<le> ev_due (sc_events ex_sched ! 0)"
proof -
  have "sc_events ex_sched ! 0 \<in> due_events ex_sched" by (simp add: due_events_def ex_sched_def sched_new_def ex_platform_def)
  then show ?thesis
    using dispatch_earliest [of ex_sched "Ch_task 1 50 1" "snd (dispatch_select ex_sched)"] ex_sched_select
    by (simp add: prod_eq_iff)
qed

section \<open>Cadence\<close>

lemma unat_less_kForever: "d < kForever \<Longrightarrow> unat d \<le> 2 ^ 64 - 2"
  by (simp add: word_less_nat_alt unat_kForever)

definition taken :: "nat \<Rightarrow> ('e, 'u) sched \<Rightarrow> ('e, 'u) sched" where
  "taken i s = snd (snd (take_task i s))"

lemma taken_repeat:
  assumes "i < length (sc_tasks s)" "tk_mode (sc_tasks s ! i) = Repeat"
  shows "sc_tasks (taken i s) ! i = (sc_tasks s ! i)\<lparr>tk_executing := True,
      tk_due := After (tk_due (sc_tasks s ! i)) (tk_interval (sc_tasks s ! i))\<rparr>"
    and "length (sc_tasks (taken i s)) = length (sc_tasks s)"
  using assms by (simp_all add: taken_def take_task_def Let_def)

text \<open>
  C13: a repeating task does not drift. However late it is taken each time, after it has been taken \<open>n\<close>
  times it is due \<open>n\<close> intervals after it was first due (up to the largest time, where it stays).
\<close>

theorem repeat_cadence:
  assumes "i < length (sc_tasks s)" "tk_mode (sc_tasks s ! i) = Repeat" "tk_due (sc_tasks s ! i) < kForever"
  shows "unat (tk_due (sc_tasks ((taken i ^^ n) s) ! i)) =
      min (unat (tk_due (sc_tasks s ! i)) + n * unat (tk_interval (sc_tasks s ! i))) (2 ^ 64 - 2)"
proof -
  have "length (sc_tasks ((taken i ^^ n) s)) = length (sc_tasks s) \<and>
      tk_mode (sc_tasks ((taken i ^^ n) s) ! i) = Repeat \<and>
      tk_interval (sc_tasks ((taken i ^^ n) s) ! i) = tk_interval (sc_tasks s ! i) \<and>
      unat (tk_due (sc_tasks ((taken i ^^ n) s) ! i)) =
        min (unat (tk_due (sc_tasks s ! i)) + n * unat (tk_interval (sc_tasks s ! i))) (2 ^ 64 - 2)"
  proof (induction n)
    case 0
    show ?case using assms unat_less_kForever [OF assms(3)] by simp
  next
    case (Suc n)
    let ?s = "(taken i ^^ n) s"
    have i: "i < length (sc_tasks ?s)" "tk_mode (sc_tasks ?s ! i) = Repeat" using Suc assms(1) by simp_all
    show ?case using taken_repeat [OF i] Suc by (simp add: unat_After min_def)
  qed
  then show ?thesis by simp
qed

theorem repeat_cadence_witness:
  "tk_mode (sc_tasks ex_sched ! 1) = Repeat \<and> unat (tk_due (sc_tasks ((taken 1 ^^ 3) ex_sched) ! 1)) = 110"
proof -
  have "1 < length (sc_tasks ex_sched)" "tk_mode (sc_tasks ex_sched ! 1) = Repeat"
    "tk_due (sc_tasks ex_sched ! 1) = 50" "tk_interval (sc_tasks ex_sched ! 1) = 20"
    by (simp_all add: ex_sched_def ex_task_def)
  moreover have "(50 :: time) < kForever" by code_simp
  ultimately show ?thesis using repeat_cadence [of 1 ex_sched 3] by simp
qed

end
