(* ===== verification/Scheduler_Inv.thy ===== *)
theory Scheduler_Inv
  imports Scheduler_Select
begin

text \<open>
  The invariant of the scheduler's state and what a callback may not change. Both are shown for
  every call a callback can make, hence for every callback tree, for a yield nested to any depth,
  for every turn of the dispatch loop and for a whole run.
\<close>

section \<open>The invariant\<close>

definition task_key :: "task \<Rightarrow> nat \<times> nat \<times> bool" where
  "task_key t = (tk_module t, tk_index t, tk_executing t)"

text \<open>What no callback changes: it is the same after the callback as before.\<close>

definition sc_fixed where
  "sc_fixed s = (map task_key (sc_tasks s), sc_modules s, sc_event_capacity s, length (sc_timers s),
     sc_yield_limit s, sc_task_depth s, length (sc_frames s), sc_lifecycle s,
     pl_in_interrupt (sc_platform s), pl_context (sc_platform s), sc_used s, sc_failure s)"

definition stats_ok :: "task_statistics \<Rightarrow> bool" where
  "stats_ok st \<longleftrightarrow> ts_total_duration st = ts_total_self_duration st + ts_total_nested_duration st"

definition timers_ok :: "timer list \<Rightarrow> bool" where
  "timers_ok ts \<longleftrightarrow> ts \<noteq> [] \<and> tm_callback (ts ! (length ts - 1)) = None \<and>
     (\<forall>i < length ts - 1. tm_active (ts ! i) \<longrightarrow> tm_callback (ts ! i) \<noteq> None) \<and>
     (\<forall>i < length ts. \<forall>j < length ts. i \<noteq> j \<longrightarrow> tm_active (ts ! i) \<longrightarrow> tm_active (ts ! j) \<longrightarrow>
       tm_callback (ts ! i) \<noteq> tm_callback (ts ! j))"

definition executing_count :: "task list \<Rightarrow> nat" where
  "executing_count ts = length (filter tk_executing ts)"

text \<open>
  The events fit their buffer; a timer callback is pending at most once, and the wake timer alone has
  none; the statistics go with the tasks and add up; the depth counts the executing tasks, each of
  which has its frame.
\<close>

definition sched_inv :: "('e, 'u) sched \<Rightarrow> bool" where
  "sched_inv s \<longleftrightarrow>
     length (sc_events s) \<le> sc_event_capacity s \<and>
     timers_ok (sc_timers s) \<and>
     length (st_tasks (sc_statistics s)) = length (sc_tasks s) \<and>
     (\<forall>st \<in> set (st_tasks (sc_statistics s)). stats_ok st) \<and>
     sc_task_depth s = length (sc_frames s) \<and>
     sc_task_depth s = executing_count (sc_tasks s)"

lemma executing_count_key: "executing_count ts = length (filter (\<lambda>k. snd (snd k)) (map task_key ts))"
  unfolding executing_count_def by (induction ts) (auto simp: task_key_def)

lemma executing_count_cong:
  "map task_key ts = map task_key us \<Longrightarrow> executing_count ts = executing_count us"
  by (simp add: executing_count_key)

lemma executing_count_update:
  assumes "i < length ts" "\<not> tk_executing (ts ! i)" "tk_executing t"
  shows "executing_count (ts[i := t]) = Suc (executing_count ts)"
  using assms by (induction ts arbitrary: i) (auto simp: executing_count_def nth_Cons split: nat.splits)

lemma executing_count_zero: "executing_count ts = 0 \<longleftrightarrow> (\<forall>t \<in> set ts. \<not> tk_executing t)"
  by (auto simp: executing_count_def filter_empty_conv)

lemma map_key_update:
  "i < length ts \<Longrightarrow> task_key t = task_key (ts ! i) \<Longrightarrow> map task_key (ts[i := t]) = map task_key ts"
  by (metis list_update_id map_update)

section \<open>The calls\<close>

text \<open>The calls change neither, except for what their own fields say.\<close>

lemma sc_rearm_fields [simp]:
  "sc_tasks (sc_rearm s) = sc_tasks s" "sc_timers (sc_rearm s) = sc_timers s"
  "sc_events (sc_rearm s) = sc_events s" "sc_statistics (sc_rearm s) = sc_statistics s"
  "sc_user (sc_rearm s) = sc_user s" "sc_stop_requested (sc_rearm s) = sc_stop_requested s"
  "sc_fixed (sc_rearm s) = sc_fixed s" "sc_lifecycle (sc_rearm s) = sc_lifecycle s"
  "sc_event_capacity (sc_rearm s) = sc_event_capacity s" "sc_task_depth (sc_rearm s) = sc_task_depth s"
  "sc_frames (sc_rearm s) = sc_frames s" "pl_now (sc_platform (sc_rearm s)) = pl_now (sc_platform s)"
  "sc_yield_limit (sc_rearm s) = sc_yield_limit s"
  by (simp_all add: sc_rearm_def Let_def sc_fixed_def pl_disarm_def pl_arm_def)

lemma sc_notify_fields [simp]:
  "sc_tasks (sc_notify s) = sc_tasks s" "sc_timers (sc_notify s) = sc_timers s"
  "sc_events (sc_notify s) = sc_events s" "sc_statistics (sc_notify s) = sc_statistics s"
  "sc_user (sc_notify s) = sc_user s" "sc_stop_requested (sc_notify s) = sc_stop_requested s"
  "sc_fixed (sc_notify s) = sc_fixed s" "sc_lifecycle (sc_notify s) = sc_lifecycle s"
  "sc_event_capacity (sc_notify s) = sc_event_capacity s" "sc_task_depth (sc_notify s) = sc_task_depth s"
  "sc_frames (sc_notify s) = sc_frames s" "pl_now (sc_platform (sc_notify s)) = pl_now (sc_platform s)"
  "pl_timer (sc_platform (sc_notify s)) = pl_timer (sc_platform s)"
  "sc_yield_limit (sc_notify s) = sc_yield_limit s"
  by (simp_all add: sc_notify_def pl_notify_def sc_fixed_def)

lemma sched_inv_rearm [simp]: "sched_inv (sc_rearm s) = sched_inv s"
  by (simp add: sched_inv_def)

lemma sched_inv_notify [simp]: "sched_inv (sc_notify s) = sched_inv s"
  by (simp add: sched_inv_def)

text \<open>Changes of the state that keep both, as the calls make them.\<close>

lemma fixed_tasks:
  assumes "i < length (sc_tasks s)" "task_key t = task_key (sc_tasks s ! i)"
  shows "sc_fixed (s\<lparr>sc_tasks := (sc_tasks s)[i := t]\<rparr>) = sc_fixed s"
    and "sched_inv s \<Longrightarrow> sched_inv (s\<lparr>sc_tasks := (sc_tasks s)[i := t]\<rparr>)"
  using map_key_update [OF assms] executing_count_cong [OF map_key_update [OF assms]]
  by (simp_all add: sc_fixed_def sched_inv_def)

lemma fixed_timers:
  assumes "length ts = length (sc_timers s)"
  shows "sc_fixed (s\<lparr>sc_timers := ts\<rparr>) = sc_fixed s"
  using assms by (simp add: sc_fixed_def)

lemma fixed_counters:
  assumes "st_tasks st = st_tasks (sc_statistics s)"
  shows "sc_fixed (s\<lparr>sc_statistics := st\<rparr>) = sc_fixed s"
    and "sched_inv (s\<lparr>sc_statistics := st\<rparr>) = sched_inv s"
  using assms by (simp_all add: sc_fixed_def sched_inv_def)

lemma timer_slot_search_spec:
  "timer_slot_search ts k c slot = Some j \<Longrightarrow>
     slot = Some j \<or> (\<exists>i < length ts. j = k + i \<and> (\<not> tm_active (ts ! i) \<or> tm_callback (ts ! i) = c))"
proof (induction ts arbitrary: k slot)
  case (Cons t ts)
  show ?case
  proof (cases "tm_active t \<and> tm_callback t = c")
    case True
    with Cons.prems show ?thesis by (auto intro!: exI [of _ 0])
  next
    case False
    then have "timer_slot_search ts (k + 1) c (if \<not> tm_active t then Some k else slot) = Some j"
      using Cons.prems by auto
    from Cons.IH [OF this] consider "\<not> tm_active t" "j = k" | "slot = Some j"
      | i where "i < length ts" "j = k + 1 + i" "\<not> tm_active (ts ! i) \<or> tm_callback (ts ! i) = c"
      by (auto split: if_splits)
    then show ?thesis
    proof cases
      case 1 then show ?thesis by (auto intro!: exI [of _ 0])
    next
      case (3 i) then show ?thesis by (auto intro!: exI [of _ "Suc i"])
    qed simp
  qed
qed simp

text \<open>A free slot is only taken when no active timer has the callback.\<close>

lemma timer_slot_search_unique:
  "timer_slot_search ts k c slot = Some j \<Longrightarrow> i < length ts \<Longrightarrow> tm_active (ts ! i) \<Longrightarrow>
     tm_callback (ts ! i) = c \<Longrightarrow> \<exists>l < length ts. j = k + l \<and> tm_active (ts ! l) \<and> tm_callback (ts ! l) = c"
proof (induction ts arbitrary: k slot i)
  case (Cons t ts)
  show ?case
  proof (cases "tm_active t \<and> tm_callback t = c")
    case True
    with Cons.prems show ?thesis by (auto intro!: exI [of _ 0])
  next
    case False
    with Cons.prems obtain i' where "i = Suc i'" by (cases i) auto
    moreover have "timer_slot_search ts (k + 1) c (if \<not> tm_active t then Some k else slot) = Some j"
      using Cons.prems(1) False by auto
    ultimately obtain l where "l < length ts" "j = k + 1 + l" "tm_active (ts ! l)" "tm_callback (ts ! l) = c"
      using Cons.IH [of "k + 1" _ i'] Cons.prems by auto
    then show ?thesis by (auto intro!: exI [of _ "Suc l"])
  qed
qed simp

lemma timer_find_spec:
  "timer_find ts k c = Some j \<Longrightarrow> \<exists>i < length ts. j = k + i \<and> tm_active (ts ! i) \<and> tm_callback (ts ! i) = c"
proof (induction ts arbitrary: k)
  case (Cons t ts)
  show ?case
  proof (cases "tm_active t \<and> tm_callback t = c")
    case True
    with Cons.prems show ?thesis by (auto intro!: exI [of _ 0])
  next
    case False
    with Cons.prems have "timer_find ts (k + 1) c = Some j" by auto
    from Cons.IH [OF this] show ?thesis by (metis Suc_eq_plus1 add.assoc add.commute length_Cons Suc_less_eq nth_Cons_Suc)
  qed
qed simp

lemma timers_ok_off:
  "timers_ok ts \<Longrightarrow> timers_ok (ts[i := (ts ! i)\<lparr>tm_active := False\<rparr>])"
  by (cases "i < length ts") (auto simp: timers_ok_def nth_list_update list_update_beyond)

lemma timers_ok_all_off:
  "timers_ok ts \<Longrightarrow> timers_ok (map (\<lambda>t. t\<lparr>tm_active := False\<rparr>) ts)"
  by (auto simp: timers_ok_def)

lemma timers_ok_set:
  assumes "timers_ok ts" "slot < length ts - 1" "c \<noteq> None"
    and "\<And>i. i < length ts - 1 \<Longrightarrow> i \<noteq> slot \<Longrightarrow> tm_active (ts ! i) \<Longrightarrow> tm_callback (ts ! i) \<noteq> c"
  shows "timers_ok (ts[slot := \<lparr>tm_active = True, tm_due = d, tm_callback = c\<rparr>])"
proof -
  have *: "tm_callback (ts ! i) \<noteq> c" if "i < length ts" "i \<noteq> slot" "tm_active (ts ! i)" for i
    using assms that by (cases "i = length ts - 1") (auto simp: timers_ok_def)
  show ?thesis
    using assms(1-3) by (auto simp: timers_ok_def nth_list_update dest: *)
qed

lemma timers_ok_wake:
  assumes "timers_ok ts"
  shows "timers_ok (ts[length ts - 1 := \<lparr>tm_active = a, tm_due = d, tm_callback = None\<rparr>])"
proof -
  have *: "tm_callback (ts ! i) \<noteq> None" if "i < length ts" "i \<noteq> length ts - 1" "tm_active (ts ! i)" for i
    using assms that by (auto simp: timers_ok_def)
  show ?thesis
    using assms by (auto simp: timers_ok_def nth_list_update dest: *)
qed

text \<open>Both at once: the call keeps the invariant and what is fixed.\<close>

definition keeps :: "('e, 'u) sched \<Rightarrow> ('e, 'u) sched \<Rightarrow> bool" where
  "keeps s s' \<longleftrightarrow> sc_fixed s' = sc_fixed s \<and> (sched_inv s \<longrightarrow> sched_inv s') \<and>
     (sc_stop_requested s \<longrightarrow> sc_stop_requested s')"

lemma keeps_refl [simp, intro]: "keeps s s"
  by (simp add: keeps_def)

lemma keeps_trans [trans]: "keeps s s' \<Longrightarrow> keeps s' s'' \<Longrightarrow> keeps s s''"
  by (simp add: keeps_def)

lemma keeps_rearm [simp]: "keeps s (sc_rearm s') = keeps s s'"
  by (simp add: keeps_def)

lemma keeps_notify [simp]: "keeps s (sc_notify s') = keeps s s'"
  by (simp add: keeps_def)

lemma keeps_user [simp]: "keeps s (s'\<lparr>sc_user := u\<rparr>) = keeps s s'"
  by (simp add: keeps_def sc_fixed_def sched_inv_def)

lemma keeps_counters:
  "st_tasks st = st_tasks (sc_statistics s) \<Longrightarrow> keeps s (s\<lparr>sc_statistics := st\<rparr>)"
  by (simp add: keeps_def fixed_counters)

lemma keeps_task:
  "i < length (sc_tasks s) \<Longrightarrow> task_key t = task_key (sc_tasks s ! i) \<Longrightarrow>
     keeps s (s\<lparr>sc_tasks := (sc_tasks s)[i := t]\<rparr>)"
  by (simp add: keeps_def fixed_tasks)

lemma keeps_timers:
  "length ts = length (sc_timers s) \<Longrightarrow> (timers_ok (sc_timers s) \<Longrightarrow> timers_ok ts) \<Longrightarrow>
     keeps s (s\<lparr>sc_timers := ts\<rparr>)"
  by (auto simp: keeps_def sc_fixed_def sched_inv_def)

lemma timer_slot_keeps: "keeps s (snd (timer_slot d c s))"
proof (cases "timer_slot_search (butlast (sc_timers s)) 0 c None")
  case None
  then show ?thesis by (simp add: timer_slot_def keeps_counters)
next
  case (Some slot)
  have sl: "slot < length (sc_timers s) - 1" using timer_slot_search_spec [OF Some] by auto
  have "timers_ok ((sc_timers s)[slot := \<lparr>tm_active = True, tm_due = e, tm_callback = c\<rparr>])"
    if ok: "timers_ok (sc_timers s)" and "c \<noteq> None" for e
  proof (rule timers_ok_set [OF ok sl that(2)])
    fix i assume i: "i < length (sc_timers s) - 1" "i \<noteq> slot" "tm_active (sc_timers s ! i)"
    show "tm_callback (sc_timers s ! i) \<noteq> c"
    proof
      assume "tm_callback (sc_timers s ! i) = c"
      then have "\<exists>l < length (butlast (sc_timers s)). slot = 0 + l \<and> tm_active (butlast (sc_timers s) ! l) \<and>
          tm_callback (butlast (sc_timers s) ! l) = c"
        using timer_slot_search_unique [OF Some, of i] i nth_butlast [of i "sc_timers s"] by simp
      with sl i ok \<open>tm_callback (sc_timers s ! i) = c\<close> show False
        using nth_butlast [of slot "sc_timers s"] by (auto simp: timers_ok_def)
    qed
  qed
  then show ?thesis using Some by (simp add: timer_slot_def keeps_timers)
qed

lemma cancel_timer_keeps: "keeps s (snd (cancel_timer c s))"
  by (simp add: cancel_timer_def keeps_timers timers_ok_off split: option.split)

lemma task_find_spec:
  "task_find ts k m j = Some i \<Longrightarrow> \<exists>l < length ts. i = k + l \<and> tk_module (ts ! l) = m \<and> tk_index (ts ! l) = j"
proof (induction ts arbitrary: k)
  case (Cons t ts)
  show ?case
  proof (cases "tk_module t = m \<and> tk_index t = j")
    case True
    with Cons.prems show ?thesis by (auto intro!: exI [of _ 0])
  next
    case False
    with Cons.prems have "task_find ts (k + 1) m j = Some i" by auto
    from Cons.IH [OF this] obtain l where "l < length ts" "i = k + 1 + l" "tk_module (ts ! l) = m" "tk_index (ts ! l) = j"
      by auto
    then show ?thesis by (auto intro!: exI [of _ "Suc l"])
  qed
qed simp

lemma task_find_length: "task_find ts 0 m j = Some i \<Longrightarrow> i < length ts"
  using task_find_spec by fastforce

lemma schedule_slot_keeps: "keeps s (snd (schedule_slot m i d md s))"
  by (auto simp: schedule_slot_def Let_def task_key_def intro!: keeps_task dest: task_find_length split: option.split)

lemma cancel_slot_keeps: "keeps s (snd (cancel_slot m i s))"
  by (auto simp: cancel_slot_def Let_def task_key_def intro!: keeps_task dest: task_find_length split: option.split)

lemma sc_stop_keeps: "keeps s (snd (sc_stop s))"
  by (simp add: sc_stop_def) (simp add: keeps_def sc_fixed_def sched_inv_def)

lemma sc_post_keeps: "keeps s (snd (sc_post v m s))"
  by (auto simp: sc_post_def keeps_counters split: option.split) (auto simp: keeps_def sc_fixed_def sched_inv_def)

lemma reset_statistics_keeps: "keeps s (reset_statistics s)"
  by (auto simp: keeps_def reset_statistics_def sc_fixed_def sched_inv_def stats_ok_def task_statistics_zero_def)

lemma interrupt_keeps:
  assumes "keeps (s\<lparr>sc_platform := (sc_platform s)\<lparr>pl_in_interrupt := True\<rparr>\<rparr>) s'"
  shows "keeps s (s'\<lparr>sc_platform := (sc_platform s')\<lparr>pl_in_interrupt := pl_in_interrupt (sc_platform s)\<rparr>\<rparr>)"
  using assms by (auto simp: keeps_def sc_fixed_def sched_inv_def)

lemma act_keeps: "keeps s (snd (act a s))"
  and acts_keeps: "keeps s (acts as s)"
proof (induction a s and as s rule: act_acts.induct)
  case (10 as s)
  then show ?case by (simp add: Let_def interrupt_keeps)
next
  case (12 a as s)
  then show ?case by (auto intro: keeps_trans)
qed (simp_all add: sc_post_keeps schedule_slot_keeps cancel_slot_keeps timer_slot_keeps cancel_timer_keeps
    sc_stop_keeps keeps_counters reset_statistics_keeps, simp_all add: keeps_def sc_fixed_def sched_inv_def)

lemma run_prog_keeps:
  assumes "\<And>s. keeps s (snd (yld s))"
  shows "keeps s (snd (run_prog yld p s))"
proof (induction p arbitrary: s)
  case (Do a k)
  obtain st s' where r: "(if a = A_yield then yld s else act a s) = (st, s')" by fastforce
  then have "keeps s s'" using assms [of s] act_keeps [of s a] by (metis snd_conv)
  also have "keeps s' (snd (run_prog yld (k st) s'))" by (rule Do) simp
  finally show ?case using r by simp
qed simp

lemma context_keeps:
  assumes "keeps (s\<lparr>sc_platform := (sc_platform s)\<lparr>pl_context := c\<rparr>\<rparr>) s'"
  shows "keeps s (s'\<lparr>sc_platform := (sc_platform s')\<lparr>pl_context := pl_context (sc_platform s)\<rparr>\<rparr>)"
  using assms by (auto simp: keeps_def sc_fixed_def sched_inv_def)

lemma in_context_keeps:
  assumes "\<And>s. keeps s (snd (run s))"
  shows "keeps s (snd (in_context c run s))"
proof -
  obtain r s' where r: "run (s\<lparr>sc_platform := (sc_platform s)\<lparr>pl_context := c\<rparr>\<rparr>) = (r, s')" by fastforce
  then have "keeps (s\<lparr>sc_platform := (sc_platform s)\<lparr>pl_context := c\<rparr>\<rparr>) s'" by (metis assms snd_conv)
  from context_keeps [OF this] show ?thesis by (simp add: in_context_def Let_def r)
qed

section \<open>Running a task\<close>

text \<open>
  Taking a task that is not executing and entering its frame, then leaving it, keeps both; in between,
  what the callback keeps is that of the deeper state.
\<close>

lemma record_run_ok: "stats_ok st \<Longrightarrow> stats_ok (record_run start scheduled duration nested st)"
  by (auto simp: stats_ok_def record_run_def Let_def)

definition enter_task :: "nat \<Rightarrow> ('e, 'u) sched \<Rightarrow> ('e, 'u) sched" where
  "enter_task i s = (snd (snd (take_task i s)))\<lparr>sc_frames := 0 # sc_frames s, sc_task_depth := sc_task_depth s + 1\<rparr>"

lemma enter_task_inv:
  assumes "sched_inv s" "i < length (sc_tasks s)" "\<not> tk_executing (sc_tasks s ! i)"
  shows "sched_inv (enter_task i s)"
proof -
  have "executing_count ((sc_tasks s)[i := t]) = Suc (executing_count (sc_tasks s))" if "tk_executing t" for t
    using executing_count_update [OF assms(2,3) that] .
  then show ?thesis
    using assms(1) by (simp add: enter_task_def take_task_def Let_def sched_inv_def)
qed

lemma fixedD:
  assumes "sc_fixed s = sc_fixed s'"
  shows "map task_key (sc_tasks s) = map task_key (sc_tasks s')" "sc_modules s = sc_modules s'"
    "sc_event_capacity s = sc_event_capacity s'" "length (sc_timers s) = length (sc_timers s')"
    "sc_yield_limit s = sc_yield_limit s'" "sc_task_depth s = sc_task_depth s'"
    "length (sc_frames s) = length (sc_frames s')" "sc_lifecycle s = sc_lifecycle s'"
    "pl_in_interrupt (sc_platform s) = pl_in_interrupt (sc_platform s')"
    "pl_context (sc_platform s) = pl_context (sc_platform s')" "sc_used s = sc_used s'" "sc_failure s = sc_failure s'"
    "length (sc_tasks s) = length (sc_tasks s')"
  using assms map_eq_imp_length_eq [of task_key "sc_tasks s" task_key "sc_tasks s'"] unfolding sc_fixed_def by simp_all

lemma finish_task_fields [simp]:
  "sc_tasks (finish_task i a g start s) = (sc_tasks s)[i := (sc_tasks s ! i)\<lparr>tk_executing := False,
     tk_completed := (if tk_generation (sc_tasks s ! i) = g then tk_completed (sc_tasks s ! i) + 1
                      else tk_completed (sc_tasks s ! i))\<rparr>]"
  "sc_modules (finish_task i a g start s) = sc_modules s" "sc_events (finish_task i a g start s) = sc_events s"
  "sc_event_capacity (finish_task i a g start s) = sc_event_capacity s"
  "sc_timers (finish_task i a g start s) = sc_timers s" "sc_platform (finish_task i a g start s) = sc_platform s"
  "sc_lifecycle (finish_task i a g start s) = sc_lifecycle s" "sc_used (finish_task i a g start s) = sc_used s"
  "sc_failure (finish_task i a g start s) = sc_failure s"
  "sc_yield_limit (finish_task i a g start s) = sc_yield_limit s"
  "sc_stop_requested (finish_task i a g start s) = sc_stop_requested s"
  "sc_user (finish_task i a g start s) = sc_user s"
  "sc_task_depth (finish_task i a g start s) = sc_task_depth s - 1"
  "length (sc_frames (finish_task i a g start s)) = length (sc_frames s) - 1"
  "st_tasks (sc_statistics (finish_task i a g start s)) = (st_tasks (sc_statistics s))
     [i := record_run start a (sc_now s - start) (hd (sc_frames s)) (st_tasks (sc_statistics s) ! i)]"
  by (cases "sc_frames s"; simp add: finish_task_def Let_def split: list.split)+

lemma map_key_leave:
  assumes "map task_key us = map task_key (ts[i := t])" "i < length ts" "\<not> tk_executing (ts ! i)"
    and "tk_module t = tk_module (ts ! i)" "tk_index t = tk_index (ts ! i)"
  shows "map task_key (us[i := (us ! i)\<lparr>tk_executing := False, tk_completed := c\<rparr>]) = map task_key ts"
proof -
  have len: "length us = length ts" using assms(1) map_eq_imp_length_eq by fastforce
  have "task_key (us ! i) = task_key t"
    using arg_cong [OF assms(1), of "\<lambda>l. l ! i"] assms(2) len by simp
  then have *: "task_key ((us ! i)\<lparr>tk_executing := False, tk_completed := c\<rparr>) = task_key (ts ! i)"
    using assms(3-5) by (simp add: task_key_def)
  have "map task_key (us[i := (us ! i)\<lparr>tk_executing := False, tk_completed := c\<rparr>]) =
      (map task_key (ts[i := t]))[i := task_key (ts ! i)]"
    using * assms(1) by (simp add: map_update)
  also have "\<dots> = map task_key ts" using assms(2) by (simp add: map_update [symmetric])
  finally show ?thesis .
qed

lemma leave_task_keeps:
  assumes i: "i < length (sc_tasks s)" "\<not> tk_executing (sc_tasks s ! i)"
    and k: "keeps (enter_task i s) s2"
  shows "keeps s (finish_task i a g start s2)"
proof -
  have f: "sc_fixed s2 = sc_fixed (enter_task i s)" using k by (simp add: keeps_def)
  define t where "t = sc_tasks (enter_task i s) ! i"
  have tasks: "sc_tasks (enter_task i s) = (sc_tasks s)[i := t]"
    and same: "tk_module t = tk_module (sc_tasks s ! i)" "tk_index t = tk_index (sc_tasks s ! i)"
    using i(1) unfolding t_def by (auto simp: enter_task_def take_task_def Let_def)
  have key: "map task_key (sc_tasks (finish_task i a g start s2)) = map task_key (sc_tasks s)"
    unfolding finish_task_fields using fixedD(1) [OF f] i same unfolding tasks by (rule map_key_leave)
  have rest: "sc_modules (enter_task i s) = sc_modules s" "sc_event_capacity (enter_task i s) = sc_event_capacity s"
    "sc_timers (enter_task i s) = sc_timers s" "sc_yield_limit (enter_task i s) = sc_yield_limit s"
    "sc_task_depth (enter_task i s) = sc_task_depth s + 1" "length (sc_frames (enter_task i s)) = length (sc_frames s) + 1"
    "sc_lifecycle (enter_task i s) = sc_lifecycle s" "sc_platform (enter_task i s) = sc_platform s"
    "sc_used (enter_task i s) = sc_used s" "sc_failure (enter_task i s) = sc_failure s"
    "sc_stop_requested (enter_task i s) = sc_stop_requested s"
    by (simp_all add: enter_task_def take_task_def Let_def)
  have fixed: "sc_fixed (finish_task i a g start s2) = sc_fixed s"
    using fixedD [OF f] key rest by (simp add: sc_fixed_def del: finish_task_fields(1))
  have "sched_inv (finish_task i a g start s2)" if inv: "sched_inv s"
  proof -
    have inv2: "sched_inv s2" using k enter_task_inv [OF inv i] by (simp add: keeps_def)
    have "stats_ok st" if "st \<in> set (st_tasks (sc_statistics (finish_task i a g start s2)))" for st
    proof (cases "i < length (st_tasks (sc_statistics s2))")
      case True
      with inv2 have "stats_ok (st_tasks (sc_statistics s2) ! i)" by (simp add: sched_inv_def)
      with inv2 that record_run_ok show ?thesis
        by (auto simp: sched_inv_def dest!: set_update_subset_insert [THEN subsetD])
    next
      case False
      with that inv2 show ?thesis by (simp add: sched_inv_def list_update_beyond)
    qed
    moreover have "executing_count (sc_tasks (finish_task i a g start s2)) = executing_count (sc_tasks s)"
      using key by (rule executing_count_cong)
    moreover have "sc_task_depth s2 - 1 = sc_task_depth s" "length (sc_frames s2) - 1 = length (sc_frames s)"
      using fixedD(6,7) [OF f] rest by simp_all
    ultimately show ?thesis
      using inv2 inv unfolding sched_inv_def by (simp del: finish_task_fields(1)) simp
  qed
  with fixed k rest show ?thesis by (simp add: keeps_def)
qed

lemma run_task_keeps:
  assumes i: "i < length (sc_tasks s)" "\<not> tk_executing (sc_tasks s ! i)"
    and yld: "\<And>s. keeps s (snd (yld s))"
    and taken: "take_task i s = (scheduled, generation, s1)"
  shows "keeps s (run_task yld app i a g s1)"
proof -
  have e: "s1\<lparr>sc_frames := 0 # sc_frames s1, sc_task_depth := sc_task_depth s1 + 1\<rparr> = enter_task i s"
    using taken by (auto simp: enter_task_def take_task_def Let_def)
  let ?t = "sc_tasks (enter_task i s) ! i"
  define c where "c = \<lparr>ctx_module = name_of (tk_module_name ?t), ctx_task = name_of (tk_name ?t),
    ctx_kind = CK_task, ctx_scheduler = True\<rparr>"
  define run where "run = (\<lambda>s'. run_prog yld (app_task app (tk_module ?t) (tk_index ?t) (sc_user s')) s')"
  have r: "run_task yld app i a g s1 =
      (case in_context c run (enter_task i s) of (upd, s2) \<Rightarrow>
         finish_task i a g (sc_now (enter_task i s)) (s2\<lparr>sc_user := upd (sc_user s2)\<rparr>))"
    unfolding run_task_def Let_def e c_def run_def by (rule refl)
  obtain upd s2 where s2: "in_context c run (enter_task i s) = (upd, s2)" by fastforce
  have "keeps s' (snd (run s'))" for s' unfolding run_def by (rule run_prog_keeps [OF yld])
  from in_context_keeps [OF this, of "enter_task i s" c] have "keeps (enter_task i s) s2" using s2 by simp
  then have "keeps (enter_task i s) (s2\<lparr>sc_user := upd (sc_user s2)\<rparr>)" by simp
  from leave_task_keeps [OF i this] show ?thesis unfolding r s2 by simp
qed

section \<open>Yield\<close>

lemma yield_select_ok:
  assumes "yield_select s = Some i"
  shows "i < length (sc_tasks s)" "\<not> tk_executing (sc_tasks s ! i)"
  using scan_earliest_ok [of "\<lambda>t. tk_active t \<and> \<not> tk_executing t \<and> tk_due t \<le> sc_now s" tk_due "sc_tasks s" kForever] assms
  by (auto simp: yield_select_def scan_ok_def)

lemma yield_enter_keeps: "yield_enter s = Inl r \<Longrightarrow> keeps s (snd r)"
  by (auto simp: yield_enter_def Let_def keeps_counters split: if_splits option.splits)

lemma yield_enter_task:
  "yield_enter s = Inr i \<Longrightarrow> yield_select s = Some i \<and> sc_task_depth s < sc_yield_limit s"
  by (auto simp: yield_enter_def Let_def split: if_splits option.splits)

lemma sc_yield_keeps: "keeps s (snd (sc_yield n app s))"
proof (induction n arbitrary: s)
  case 0
  show ?case by (cases "yield_enter s") (auto simp: yield_enter_keeps)
next
  case (Suc n)
  show ?case
  proof (cases "yield_enter s")
    case (Inr i)
    obtain a g s1 where t: "take_task i s = (a, g, s1)" by (metis prod_cases3)
    have "keeps s (run_task (sc_yield n app) app i a g s1)"
      using yield_select_ok yield_enter_task [OF Inr] Suc t by (intro run_task_keeps) auto
    with Inr t show ?thesis by simp
  qed (auto simp: yield_enter_keeps)
qed

text \<open>
  The bound \<open>n\<close> on the nesting plays no part: a callback that is run \<open>d\<close> levels deep only meets states
  of that depth, and at the limit \<open>yield\<close> runs nothing.
\<close>

lemma run_prog_cong:
  assumes yld: "\<And>s. keeps s (snd (yld s))"
    and eq: "\<And>s. sc_yield_limit s = l \<Longrightarrow> sc_task_depth s = d \<Longrightarrow> yld s = yld' s"
    and "sc_yield_limit s = l" "sc_task_depth s = d"
  shows "run_prog yld p s = run_prog yld' p s"
  using assms(3,4)
proof (induction p arbitrary: s)
  case (Do a k)
  obtain st s' where r: "(if a = A_yield then yld s else act a s) = (st, s')" by fastforce
  have "keeps s s'" using r yld [of s] act_keeps [of s a] by (metis snd_conv)
  then have "sc_yield_limit s' = l" "sc_task_depth s' = d"
    using Do.prems fixedD(5,6) [of s' s] by (simp_all add: keeps_def)
  moreover have "(if a = A_yield then yld' s else act a s) = (st, s')"
    using r eq [OF Do.prems] by (simp split: if_splits)
  ultimately show ?case using Do.IH [of "k st" s'] r by simp
qed simp

lemma run_task_cong:
  assumes "\<And>s. keeps s (snd (yld s))"
    and "\<And>s. sc_yield_limit s = l \<Longrightarrow> sc_task_depth s = Suc d \<Longrightarrow> yld s = yld' s"
    and "sc_yield_limit s = l" "sc_task_depth s = d"
  shows "run_task yld app i a g s = run_task yld' app i a g s"
proof -
  have "run_prog yld p s' = run_prog yld' p s'" if "sc_yield_limit s' = l" "sc_task_depth s' = Suc d"
    for p :: "('a, 'b \<Rightarrow> 'b) prog" and s'
    using that by (intro run_prog_cong [OF assms(1,2)])
  then show ?thesis using assms(3,4) by (simp add: run_task_def Let_def in_context_def)
qed

lemma sc_yield_fuel:
  "sc_yield_limit s - sc_task_depth s \<le> n \<Longrightarrow> sc_yield_limit s - sc_task_depth s \<le> m \<Longrightarrow>
     sc_yield n app s = sc_yield m app s"
proof (induction n arbitrary: m s)
  case 0
  then have "yield_enter s \<noteq> Inr i" for i using yield_enter_task [of s i] by auto
  then show ?case by (cases "yield_enter s"; cases m) auto
next
  case (Suc n)
  show ?case
  proof (cases "yield_enter s")
    case (Inr i)
    then have d: "sc_task_depth s < sc_yield_limit s" using yield_enter_task by blast
    with Suc.prems obtain m' where m: "m = Suc m'" by (cases m) auto
    obtain a g s1 where t: "take_task i s = (a, g, s1)" by (metis prod_cases3)
    have "sc_yield n app s' = sc_yield m' app s'"
      if "sc_yield_limit s' = sc_yield_limit s" "sc_task_depth s' = Suc (sc_task_depth s)" for s'
      using Suc.IH [of s' m'] Suc.prems that d m by simp
    then have "run_task (sc_yield n app) app i a g s1 = run_task (sc_yield m' app) app i a g s1"
      using t sc_yield_keeps by (intro run_task_cong) (auto simp: take_task_def Let_def)
    with Inr m t show ?thesis by simp
  qed (cases m; simp)
qed

section \<open>The dispatch loop\<close>

lemma callback_keeps:
  "in_context c (\<lambda>s. run_prog (sc_yield n app) (p (sc_user s)) s) s = (r, s') \<Longrightarrow> keeps s s'"
  using in_context_keeps [of "\<lambda>s. run_prog (sc_yield n app) (p (sc_user s)) s" s c]
    run_prog_keeps [of "sc_yield n app"] sc_yield_keeps by (metis snd_conv)

lemma deliver_event_keeps: "keeps s (deliver_event app e rs s)"
proof (induction rs arbitrary: s)
  case (Cons r rs)
  define step where "step = (\<lambda>(r :: registration) s. if Some (reg_object r) = ev_sender e then s
       else
         (case in_context \<lparr>ctx_module = name_of (reg_name r), ctx_task = ''on_event'', ctx_kind = CK_event,
                           ctx_scheduler = True\<rparr>
                 (\<lambda>s. run_prog (sc_yield 0 app) (app_event app (reg_object r) (ev_value e) (sc_user s)) s) s of
            (upd, s) \<Rightarrow> s\<lparr>sc_user := upd (sc_user s)\<rparr>))"
  have d: "deliver_event app e rs s = fold step rs s" for rs s
    unfolding deliver_event_def step_def by (rule refl)
  have "keeps s (step r s)"
    unfolding step_def by (auto dest: callback_keeps split: prod.split)
  with Cons [of "step r s"] show ?case unfolding d by (auto intro: keeps_trans)
qed (simp add: deliver_event_def)

lemma ask_sleep_keeps: "keeps s (snd (ask_sleep app rs sleep s))"
proof (induction rs arbitrary: sleep s)
  case (Cons r rs)
  define c where "c = \<lparr>ctx_module = name_of (reg_name r), ctx_task = ''can_sleep'', ctx_kind = CK_idle, ctx_scheduler = True\<rparr>"
  define run where "run = (\<lambda>s. run_prog (sc_yield 0 app) (app_can_sleep app (reg_object r) (sc_user s)) s)"
  obtain ok upd s1 where r: "in_context c run s = ((ok, upd), s1)" by (metis prod.collapse)
  then have "keeps s (s1\<lparr>sc_user := upd (sc_user s1)\<rparr>)" unfolding run_def by (simp add: callback_keeps)
  also have "keeps \<dots> (snd (ask_sleep app rs (sleep \<and> ok) \<dots>))" by (rule Cons)
  finally show ?case using r by (simp add: c_def run_def)
qed simp

lemma idle_deadline_keeps: "keeps s (snd (idle_deadline s))"
  using timers_ok_wake [of "sc_timers s"] by (simp add: idle_deadline_def Let_def keeps_timers)

end
