(* ===== verification/Scheduler_Run.thy ===== *)
theory Scheduler_Run
  imports Scheduler_Inv
begin

text \<open>
  A whole run of the scheduler: its lifecycle, its initialization, the dispatch loop and its end, and
  the timer interrupt.
\<close>

section \<open>Lifecycle\<close>

interpretation lifecycle_sm: plain_machine lifecycle_derived
proof
  fix s and r :: lifecycle_request
  have "lifecycle_index x < 7" for x by (cases x) simp_all
  then show "sm_valid lifecycle_derived (dv_initial lifecycle_derived)"
    and "sm_valid lifecycle_derived (fst (dv_step lifecycle_derived s r))"
    by (simp_all add: sm_valid_def lifecycle_derived_def)
qed (simp_all add: lifecycle_derived_def)

definition lifecycle_wf :: "('e, 'u) sched \<Rightarrow> bool" where
  "lifecycle_wf s \<longleftrightarrow> sm_wf lifecycle_derived (sc_lifecycle s)"

lemma lifecycle_tick_fields [simp]:
  "sc_tasks (lifecycle_tick r s) = sc_tasks s" "sc_timers (lifecycle_tick r s) = sc_timers s"
  "sc_events (lifecycle_tick r s) = sc_events s" "sc_statistics (lifecycle_tick r s) = sc_statistics s"
  "sc_user (lifecycle_tick r s) = sc_user s" "sc_stop_requested (lifecycle_tick r s) = sc_stop_requested s"
  "sc_event_capacity (lifecycle_tick r s) = sc_event_capacity s" "sc_task_depth (lifecycle_tick r s) = sc_task_depth s"
  "sc_frames (lifecycle_tick r s) = sc_frames s" "sc_platform (lifecycle_tick r s) = sc_platform s"
  "sc_used (lifecycle_tick r s) = sc_used s" "sc_modules (lifecycle_tick r s) = sc_modules s"
  "sc_failure (lifecycle_tick r s) = sc_failure s" "sc_yield_limit (lifecycle_tick r s) = sc_yield_limit s"
  by (simp_all add: lifecycle_tick_def)

lemma lifecycle_tick_state [simp]:
  assumes "lifecycle_wf s"
  shows "sc_state (lifecycle_tick r s) = fst (lifecycle_step (sc_state s) r)" "lifecycle_wf (lifecycle_tick r s)"
proof -
  have "dv_step lifecycle_derived (sc_state s) r = (fst (lifecycle_step (sc_state s) r), r)"
    unfolding lifecycle_derived_def by (cases "sc_state s") simp_all
  from lifecycle_sm.tick_step [OF _ this] obtain m where
    "sm_tick lifecycle_derived (sc_lifecycle s) r = (S_ok, m, r)" "sm_cs m = fst (lifecycle_step (sc_state s) r)"
    "sm_wf lifecycle_derived m"
    using assms unfolding lifecycle_wf_def by metis
  then show "sc_state (lifecycle_tick r s) = fst (lifecycle_step (sc_state s) r)" "lifecycle_wf (lifecycle_tick r s)"
    by (simp_all add: lifecycle_tick_def lifecycle_wf_def)
qed

lemma sched_inv_lifecycle [simp]: "sched_inv (lifecycle_tick r s) = sched_inv s"
  by (simp add: sched_inv_def)

lemma keeps_lifecycle: "keeps s s' \<Longrightarrow> sc_lifecycle s' = sc_lifecycle s"
  by (auto simp: keeps_def sc_fixed_def)

section \<open>A turn\<close>

lemma no_executing:
  "sched_inv s \<Longrightarrow> sc_task_depth s = 0 \<Longrightarrow> i < length (sc_tasks s) \<Longrightarrow> \<not> tk_executing (sc_tasks s ! i)"
  using executing_count_zero [of "sc_tasks s"] by (simp add: sched_inv_def)

lemma dispatch_select_cases':
  assumes "dispatch_select s = (c, s')"
  obtains (event) i where "i < length (sc_events s)" "c = Ch_event (sc_events s ! i)"
      "s' = s\<lparr>sc_events := butlast ((sc_events s)[i := last (sc_events s)])\<rparr>"
    | (task) i a g where "i < length (sc_tasks s)" "c = Ch_task i a g" "take_task i s = (a, g, s')"
    | (none) "c = Ch_none" "s' = s"
proof -
  obtain e1 ti where t: "scan_earliest (\<lambda>t. tk_active t \<and> tk_due t \<le> sc_now s) tk_due (sc_tasks s) 0 (kForever, None) = (e1, ti)"
    by fastforce
  obtain e2 ei where e: "scan_earliest (\<lambda>e. ev_due e \<le> sc_now s) ev_due (sc_events s) 0 (e1, None) = (e2, ei)"
    by fastforce
  have ei: "i < length (sc_events s)" if "ei = Some i" for i using e that by (auto elim: scan_earliestE)
  have ti: "i < length (sc_tasks s)" if "ti = Some i" for i using t that by (auto elim: scan_earliestE)
  have sel: "dispatch_select s = (case ei of
      Some i \<Rightarrow> (Ch_event (sc_events s ! i), s\<lparr>sc_events := butlast ((sc_events s)[i := last (sc_events s)])\<rparr>)
    | None \<Rightarrow> (case ti of Some i \<Rightarrow> (case take_task i s of (a, b, s) \<Rightarrow> (Ch_task i a b, s)) | None \<Rightarrow> (Ch_none, s)))"
    by (simp add: dispatch_select_def Let_def t e)
  show thesis
  proof (cases ei)
    case (Some i)
    then show thesis using event [OF ei] sel assms by simp
  next
    case no: None
    show thesis
    proof (cases ti)
      case None
      then show thesis using no sel assms none by simp
    next
      case (Some i)
      obtain a g s1 where "take_task i s = (a, g, s1)" by (metis prod_cases3)
      then show thesis using task [OF ti [OF Some]] Some no sel assms by simp
    qed
  qed
qed

text \<open>A turn of the loop, from outside every callback, keeps the invariant and what is fixed.\<close>

lemma run_turn_keeps:
  assumes inv: "sched_inv s" "sc_task_depth s = 0"
  shows "keeps s (snd (run_turn lg app s))"
proof (cases "sc_stop_requested s")
  case True
  then show ?thesis by (simp add: run_turn_def)
next
  case False
  obtain c s1 where d: "dispatch_select s = (c, s1)" by fastforce
  then show ?thesis
  proof (cases rule: dispatch_select_cases')
    case (event i)
    then have "keeps s s1" by (auto simp: keeps_def sc_fixed_def sched_inv_def)
    from keeps_trans [OF this deliver_event_keeps] show ?thesis
      using d event(2) False by (simp add: run_turn_def)
  next
    case (task i a g)
    have "keeps s (run_task (sc_yield (sc_yield_limit s1) app) app i a g s1)"
      using task no_executing [OF inv] sc_yield_keeps by (intro run_task_keeps) auto
    with d task(2) False show ?thesis by (simp add: run_turn_def)
  next
    case none
    obtain b u where l: "(case lg of None \<Rightarrow> (False, sc_user s) | Some l \<Rightarrow> lg_dispatch l (sc_user s)) = (b, u)"
      by fastforce
    obtain sl s2 where a: "ask_sleep app (sc_modules s) (pl_can_sleep (sc_platform s)) (s\<lparr>sc_user := u\<rparr>) = (sl, s2)"
      by fastforce
    have "keeps s (s\<lparr>sc_user := u\<rparr>)" by simp
    also have "keeps \<dots> s2" using ask_sleep_keeps a by (metis snd_conv)
    finally have s2: "keeps s s2" .
    then have "keeps s (snd (idle_deadline s2))" using idle_deadline_keeps by (rule keeps_trans)
    moreover obtain dl s3 where "idle_deadline s2 = (dl, s3)" by fastforce
    ultimately show ?thesis using s2 d none l a False by (simp add: run_turn_def Let_def)
  qed
qed

section \<open>A run\<close>

text \<open>The idle wait of a platform lets time pass and runs interrupts: calls that keep both.\<close>

definition calm_idle :: "(time \<Rightarrow> bool \<Rightarrow> nat \<Rightarrow> ('e, 'u) sched \<Rightarrow> ('e, 'u) sched) \<Rightarrow> bool" where
  "calm_idle idle \<longleftrightarrow> (\<forall>d b n s. keeps s (idle d b n s))"

lemma calm_idle_acts: "calm_idle (\<lambda>d b n s. acts (f d b n) s)"
  by (simp add: calm_idle_def acts_keeps)

lemma run_turn_stop: "run_turn lg app s = (T_stop, s') \<Longrightarrow> s' = s \<and> sc_stop_requested s"
  by (auto simp: run_turn_def Let_def split: if_splits prod.splits choice.splits)

lemma keeps_step:
  "keeps s s' \<Longrightarrow> sched_inv s \<and> sc_task_depth s = 0 \<Longrightarrow> sched_inv s' \<and> sc_task_depth s' = 0"
  by (auto simp: keeps_def sc_fixed_def)

text \<open>One turn and what follows it, for a loop \<open>rec\<close> that has the property.\<close>

lemma run_loop_step:
  assumes rec: "\<And>s s'. rec s = Some s' \<Longrightarrow> sched_inv s \<and> sc_task_depth s = 0 \<Longrightarrow> keeps s s' \<and> sc_stop_requested s'"
    and eq: "(case run_turn lg app s of
        (T_stop, s) \<Rightarrow> Some s | (T_again, s) \<Rightarrow> rec s
      | (T_idle d b n, s) \<Rightarrow> rec (idle d b n s)) = Some s'"
    and calm: "calm_idle idle" and inv: "sched_inv s \<and> sc_task_depth s = 0"
  shows "keeps s s' \<and> sc_stop_requested s'"
proof -
  obtain t s1 where t: "run_turn lg app s = (t, s1)" by fastforce
  then have k: "keeps s s1" using run_turn_keeps [of s lg app] inv by simp
  note inv1 = keeps_step [OF k inv]
  show ?thesis
  proof (cases t)
    case T_stop
    then show ?thesis using run_turn_stop [of lg app s s1] t eq by simp
  next
    case T_again
    then have "keeps s1 s' \<and> sc_stop_requested s'" using rec eq inv1 t by simp
    then show ?thesis using k by (blast intro: keeps_trans)
  next
    case (T_idle d b n)
    have k2: "keeps s1 (idle d b n s1)" using calm by (simp add: calm_idle_def)
    have "keeps (idle d b n s1) s' \<and> sc_stop_requested s'"
      using rec eq keeps_step [OF k2 inv1] t T_idle by simp
    then show ?thesis using k k2 by (blast intro: keeps_trans)
  qed
qed

lemma run_loop_keeps:
  assumes "run_loop lg app idle s = Some s'" "calm_idle idle" "sched_inv s \<and> sc_task_depth s = 0"
  shows "keeps s s' \<and> sc_stop_requested s'"
proof -
  have "calm_idle idle \<longrightarrow> sched_inv s \<and> sc_task_depth s = 0 \<longrightarrow> keeps s s' \<and> sc_stop_requested s'"
    using assms(1)
  proof (rule run_loop.raw_induct [rotated])
    fix rec and lg :: "'b logging option" and app :: "('a, 'b) app" and idle s s'
    assume IH: "\<And>lg app idle s s'. rec lg app idle s = Some s' \<Longrightarrow> calm_idle idle \<longrightarrow>
        sched_inv s \<and> sc_task_depth s = 0 \<longrightarrow> keeps s s' \<and> sc_stop_requested s'"
      and eq: "(case run_turn lg app s of
        (T_stop, s) \<Rightarrow> Some s | (T_again, s) \<Rightarrow> rec lg app idle s
      | (T_idle d b n, s) \<Rightarrow> rec lg app idle (idle d b n s)) = Some s'"
    show "calm_idle idle \<longrightarrow> sched_inv s \<and> sc_task_depth s = 0 \<longrightarrow> keeps s s' \<and> sc_stop_requested s'"
      using run_loop_step [of "rec lg app idle", OF _ eq] IH by blast
  qed
  then show ?thesis using assms(2,3) by blast
qed

lemma start_tasks_fields [simp]:
  "sc_lifecycle (start_tasks s) = sc_lifecycle s" "sc_task_depth (start_tasks s) = sc_task_depth s"
  "sc_used (start_tasks s) = sc_used s" "lifecycle_wf (start_tasks s) = lifecycle_wf s"
  by (simp_all add: start_tasks_def Let_def lifecycle_wf_def)

lemma start_tasks_inv: "sched_inv (start_tasks s) = sched_inv s"
proof -
  have "executing_count (sc_tasks (start_tasks s)) = executing_count (sc_tasks s)"
    by (rule executing_count_cong) (simp add: start_tasks_def Let_def task_key_def)
  then show ?thesis by (simp add: sched_inv_def) (simp add: start_tasks_def Let_def)
qed

definition quiet :: "('e, 'u) sched \<Rightarrow> bool" where
  "quiet s \<longleftrightarrow> (\<forall>t \<in> set (sc_tasks s). \<not> tk_active t) \<and> (\<forall>t \<in> set (sc_timers s). \<not> tm_active t) \<and>
     sc_events s = [] \<and> pl_timer (sc_platform s) = None"

lemma finish_run_ok:
  assumes "lifecycle_wf s" "sc_state s = LS_running" "sched_inv s"
  shows "sched_inv (finish_run lg s)" "sc_state (finish_run lg s) = LS_stopped" "quiet (finish_run lg s)"
    "sc_task_depth (finish_run lg s) = sc_task_depth s" "sc_stop_requested (finish_run lg s) = sc_stop_requested s"
    "sc_used (finish_run lg s) = sc_used s"
proof -
  define s1 where "s1 = (lifecycle_tick LR_stop s)\<lparr>sc_timers := map (\<lambda>t. t\<lparr>tm_active := False\<rparr>) (sc_timers s),
                sc_platform := pl_disarm (sc_platform s),
                sc_tasks := map (\<lambda>t. t\<lparr>tk_active := False\<rparr>) (sc_tasks s), sc_events := []\<rparr>"
  define s2 where "s2 = (case lg of None \<Rightarrow> s1 | Some l \<Rightarrow> s1\<lparr>sc_user := lg_flush l (sc_user s1)\<rparr>)"
  have f: "finish_run lg s = lifecycle_tick LR_stopped s2"
    by (cases lg) (simp_all add: finish_run_def Let_def s1_def s2_def)
  have "sc_lifecycle s2 = sc_lifecycle (lifecycle_tick LR_stop s)" by (simp add: s1_def s2_def split: option.split)
  then have "lifecycle_wf s2" "sc_state s2 = LS_stopping"
    using assms lifecycle_tick_state [OF assms(1), of LR_stop] by (simp_all add: lifecycle_wf_def)
  then show "sc_state (finish_run lg s) = LS_stopped" unfolding f by simp
  have "executing_count (map (\<lambda>t. t\<lparr>tk_active := False\<rparr>) (sc_tasks s)) = executing_count (sc_tasks s)"
    by (rule executing_count_cong) (simp add: task_key_def)
  then have "sched_inv s2"
    using assms(3) by (auto simp: s2_def s1_def sched_inv_def timers_ok_all_off split: option.split)
  then show "sched_inv (finish_run lg s)" unfolding f by simp
  show "quiet (finish_run lg s)" "sc_task_depth (finish_run lg s) = sc_task_depth s"
    "sc_stop_requested (finish_run lg s) = sc_stop_requested s" "sc_used (finish_run lg s) = sc_used s"
    unfolding f by (auto simp: s2_def s1_def quiet_def pl_disarm_def split: option.split)
qed

section \<open>Initialization\<close>

lemma adopt_name_key: "task_key (adopt_name rs t) = task_key t"
proof -
  have "task_key (fold (\<lambda>r t. if reg_object r = tk_module t then t\<lparr>tk_module_name := reg_name r\<rparr> else t) rs t) = task_key t"
    by (induction rs arbitrary: t) (auto simp: task_key_def)
  then show ?thesis by (simp add: adopt_name_def)
qed

text \<open>What initialization keeps: the invariant, and all that a run depends on but the tasks.\<close>

definition init_keeps :: "('e, 'u) sched \<Rightarrow> ('e, 'u) sched \<Rightarrow> bool" where
  "init_keeps s s' \<longleftrightarrow> (sched_inv s \<longrightarrow> sched_inv s') \<and> sc_lifecycle s' = sc_lifecycle s \<and>
     sc_task_depth s' = sc_task_depth s \<and> sc_used s' = sc_used s"

lemma keeps_init: "keeps s s' \<Longrightarrow> init_keeps s s'"
  by (auto simp: keeps_def init_keeps_def sc_fixed_def)

lemma init_keeps_trans [trans]: "init_keeps s s' \<Longrightarrow> init_keeps s' s'' \<Longrightarrow> init_keeps s s''"
  by (simp add: init_keeps_def)

lemma init_keeps_refl [simp]: "init_keeps s s"
  by (simp add: init_keeps_def)

lemma init_keeps_tasks:
  assumes "map task_key ts = map task_key (sc_tasks s)"
  shows "init_keeps s (s\<lparr>sc_modules := rs, sc_tasks := ts\<rparr>)"
  using executing_count_cong [OF assms] map_eq_imp_length_eq [OF assms] by (simp add: init_keeps_def sched_inv_def)

lemma sc_validate_keeps: "init_keeps s (snd (sc_validate lg s))"
proof (cases "(case lg of None \<Rightarrow> False | Some l \<Rightarrow> \<not> lg_uses_platform l) \<or> sc_registration_error s")
  case True
  then show ?thesis by (auto simp: sc_validate_def)
next
  case False
  obtain st rs where v: "validate_modules [] (sc_modules s) = (st, rs)" by fastforce
  have key: "map task_key (map (adopt_name rs) (sc_tasks s)) = map task_key (sc_tasks s)"
    by (simp add: adopt_name_key)
  have "stats_ok x" if "x \<in> set (map2 (\<lambda>t x. if list_ex (\<lambda>r. reg_object r = tk_module t) rs
      then x\<lparr>ts_module := tk_module_name t\<rparr> else x) ts ys)" and "\<forall>y \<in> set ys. stats_ok y"
    for x ts ys
    using that by (auto simp: stats_ok_def dest: set_zip_rightD)
  with False v executing_count_cong [OF key] show ?thesis
    by (auto simp: sc_validate_def Let_def init_keeps_def sched_inv_def)
qed

lemma init_modules_keeps: "init_keeps s (snd (init_modules app stage rs s))"
proof (induction rs arbitrary: s)
  case (Cons r rs)
  define c where "c = \<lparr>ctx_module = name_of (reg_name r), ctx_task = ''init'', ctx_kind = CK_initialization, ctx_scheduler = True\<rparr>"
  define run where "run = (\<lambda>s. run_prog (sc_yield 0 app) (app_init app (reg_object r) stage (sc_user s)) s)"
  obtain st upd s1 where r: "in_context c run s = ((st, upd), s1)" by (metis prod.collapse)
  then have "keeps s (s1\<lparr>sc_user := upd (sc_user s1)\<rparr>)" unfolding run_def by (simp add: callback_keeps)
  then have k: "init_keeps s (s1\<lparr>sc_user := upd (sc_user s1)\<rparr>)" by (rule keeps_init)
  also have "init_keeps \<dots> (snd (init_modules app stage rs \<dots>))" by (rule Cons)
  finally have "init_keeps s (snd (init_modules app stage rs (s1\<lparr>sc_user := upd (sc_user s1)\<rparr>)))" .
  moreover have "init_keeps s (s1\<lparr>sc_user := upd (sc_user s1), sc_initialization_failure := f\<rparr>)" for f
    using k by (auto simp: init_keeps_def sched_inv_def)
  ultimately show ?case using r by (simp add: c_def run_def Let_def)
qed simp

lemma sc_init_ok:
  assumes fresh: "lifecycle_wf s" "sc_state s = LS_fresh" "sched_inv s" "sc_task_depth s = 0"
    and init: "sc_init lg app s = (st, s')"
  shows "sched_inv s' \<and> lifecycle_wf s' \<and> sc_task_depth s' = 0 \<and> sc_used s' = sc_used s \<and>
    (if st = S_ok then sc_state s' = LS_ready
     else sc_state s' = LS_failed \<and> sc_failure s' = st \<and> (\<forall>t \<in> set (sc_tasks s'). \<not> tk_active t) \<and> sc_events s' = [])"
proof -
  define s0 where "s0 = lifecycle_tick LR_initialize s"
  obtain st1 s1 where v: "sc_validate lg s0 = (st1, s1)" by fastforce
  define s2 where "s2 = s1\<lparr>sc_modules := map (\<lambda>r. r\<lparr>reg_bound := True\<rparr>) (sc_modules s1),
                           sc_tasks := map default_schedule (sc_tasks s1)\<rparr>"
  obtain st3 s3 where m1: "init_modules app Stage1 (sc_modules s2) s2 = (st3, s3)" by fastforce
  obtain st4 s4 where m2: "init_modules app Stage2 (sc_modules s3) s3 = (st4, s4)" by fastforce
  define e where "e = (if st1 \<noteq> S_ok then (st1, s1) else if st3 \<noteq> S_ok then (st3, s3) else (st4, s4))"
  have "init_keeps s0 s1" using sc_validate_keeps [of s0 lg] v by simp
  moreover have "init_keeps s1 s2"
    unfolding s2_def by (rule init_keeps_tasks) (simp add: default_schedule_def task_key_def)
  moreover have "init_keeps s2 s3" using init_modules_keeps [of s2 app Stage1 "sc_modules s2"] m1 by simp
  moreover have "init_keeps s3 s4" using init_modules_keeps [of s3 app Stage2 "sc_modules s3"] m2 by simp
  ultimately have "init_keeps s0 (snd e)" by (auto simp: e_def intro: init_keeps_trans)
  then have e: "sched_inv (snd e)" "sc_task_depth (snd e) = 0" "sc_used (snd e) = sc_used s"
      "lifecycle_wf (snd e)" "sc_state (snd e) = LS_initializing"
    using fresh lifecycle_tick_state [OF fresh(1), of LR_initialize]
    by (simp_all add: init_keeps_def s0_def lifecycle_wf_def)
  have i: "sc_init lg app s = (case e of (status, s) \<Rightarrow>
        if status = S_ok then (status, lifecycle_tick LR_ready s)
        else
             let s = lifecycle_tick LR_fail s;
                 s = s\<lparr>sc_failure := status,
                       sc_initialization_failure := (sc_initialization_failure s)\<lparr>if_status := status\<rparr>,
                       sc_tasks := map (\<lambda>t. t\<lparr>tk_active := False\<rparr>) (sc_tasks s), sc_events := []\<rparr>;
                 s = (case lg of None \<Rightarrow> s
                      | Some l \<Rightarrow> s\<lparr>sc_user := lg_flush l (lg_failure l (sc_initialization_failure s) (sc_user s))\<rparr>)
             in (status, s))"
    using fresh(2) v m1 m2 by (simp add: sc_init_def s0_def [symmetric] s2_def [symmetric] e_def Let_def)
  have "executing_count (map (\<lambda>t. t\<lparr>tk_active := False\<rparr>) ts) = executing_count ts" for ts
    by (rule executing_count_cong) (simp add: task_key_def)
  moreover have "sm_wf lifecycle_derived (sc_lifecycle (lifecycle_tick r (snd e)))"
      "sc_state (lifecycle_tick r (snd e)) = fst (lifecycle_step LS_initializing r)" for r
    using lifecycle_tick_state [OF e(4), of r] e(5) by (simp_all add: lifecycle_wf_def)
  ultimately show ?thesis
    using init e(1-3) unfolding i by (cases e; cases "fst e = S_ok"; cases lg)
      (auto simp: Let_def sched_inv_def lifecycle_wf_def)
qed

section \<open>Construction\<close>

definition new_ok :: "('e, 'u) sched \<Rightarrow> bool" where
  "new_ok s \<longleftrightarrow> sched_inv s \<and> lifecycle_wf s \<and> sc_state s = LS_fresh \<and> sc_task_depth s = 0 \<and> \<not> sc_used s"

lemma sched_new_ok: "new_ok (sched_new p events timers depth u)"
proof -
  have "lifecycle_wf (sched_new p events timers depth u)"
    using lifecycle_sm.new_wf by (simp add: lifecycle_wf_def sched_new_def)
  then show ?thesis
    by (simp add: new_ok_def sched_inv_def sched_new_def timers_ok_def executing_count_def sm_new_def
        lifecycle_derived_def nth_append del: replicate_Suc)
qed

lemma register_tasks_ok: "new_ok s \<Longrightarrow> new_ok (register_tasks m name seen ds s)"
proof (induction ds arbitrary: seen s)
  case (Cons d ds)
  show ?case unfolding register_tasks.simps Let_def
    using Cons.prems
    by (intro Cons.IH) (auto simp: new_ok_def sched_inv_def lifecycle_wf_def executing_count_def stats_ok_def
        task_statistics_zero_def)
qed simp

lemma sched_make_ok: "new_ok (sched_make p events timers depth u modules)"
proof -
  have reg: "new_ok (register_module m name inst ds s)" if "new_ok s" for m name inst ds and s :: "('a, 'b) sched"
    using that unfolding register_module_def
    by (auto intro!: register_tasks_ok split: option.split)
      (auto simp: new_ok_def sched_inv_def lifecycle_wf_def)
  have "new_ok (fold (\<lambda>(m, name, inst, ds). register_module m name inst ds) modules s)"
    if "new_ok s" for s :: "('a, 'b) sched"
    using that by (induction modules arbitrary: s) (auto simp: reg)
  then show ?thesis by (simp add: sched_make_def sched_new_ok)
qed

text \<open>
  C4: a scheduler that is made from any modules keeps its invariant over a whole run: the events never
  overflow their buffer, no timer callback is pending twice, the statistics of every task add up, and
  every execution that began has ended. A run that succeeds was asked to stop, and leaves the lifecycle
  stopped with no task, event or timer pending and the platform's timer disarmed. A run that does not
  succeed leaves the failure on record and nothing to do. Either way a second run is refused.
\<close>

theorem run_clean:
  fixes app :: "('e, 'u) app"
  assumes run: "sc_run lg app idle (sched_make p events timers depth u modules) = Some (st, s')"
    and calm: "calm_idle idle"
  shows "sched_inv s' \<and> sc_task_depth s' = 0 \<and>
    (if st = S_ok then sc_state s' = LS_stopped \<and> sc_stop_requested s' \<and> quiet s'
     else sc_state s' = LS_failed \<and> sc_failure s' = st \<and> (\<forall>t \<in> set (sc_tasks s'). \<not> tk_active t) \<and> sc_events s' = []) \<and>
    sc_run lg app idle s' = Some (S_already_run, s')"
proof -
  define s :: "('e, 'u) sched" where "s = (sched_make p events timers depth u modules)\<lparr>sc_used := True\<rparr>"
  have n: "lifecycle_wf s" "sc_state s = LS_fresh" "sched_inv s" "sc_task_depth s = 0" "sc_used s"
    "\<not> sc_used (sched_make p events timers depth u modules :: ('e, 'u) sched)"
    using sched_make_ok [where 'a = 'e, of p events timers depth u modules]
    by (auto simp: s_def new_ok_def lifecycle_wf_def sched_inv_def)
  obtain st1 s1 where i: "sc_init lg app s = (st1, s1)" by fastforce
  note ok = sc_init_ok [OF n(1-4) i]
  have r: "sc_run lg app idle (sched_make p events timers depth u modules) =
      (if st1 \<noteq> S_ok then Some (st1, s1)
       else case run_loop lg app idle (start_tasks (lifecycle_tick LR_run s1)) of
               None \<Rightarrow> None | Some s \<Rightarrow> Some (S_ok, finish_run lg s))"
    using n(2,6) i by (simp add: sc_run_def Let_def s_def)
  show ?thesis
  proof (cases "st1 = S_ok")
    case False
    then show ?thesis using run ok n(5) unfolding r by (auto simp: sc_run_def)
  next
    case True
    define s2 where "s2 = start_tasks (lifecycle_tick LR_run s1)"
    have s2: "sched_inv s2 \<and> sc_task_depth s2 = 0" "lifecycle_wf s2" "sc_state s2 = LS_running" "sc_used s2"
      using ok True n(5) by (simp_all add: s2_def start_tasks_inv)
    obtain s3 where s3: "run_loop lg app idle s2 = Some s3" "st = S_ok" "s' = finish_run lg s3"
      using run True unfolding r by (auto simp: s2_def split: option.splits)
    note k = run_loop_keeps [OF s3(1) calm s2(1)]
    then have f: "sc_lifecycle s3 = sc_lifecycle s2" "sc_task_depth s3 = 0" "sc_used s3" "sched_inv s3" "sc_stop_requested s3"
      using s2 by (auto simp: keeps_def sc_fixed_def)
    then have "lifecycle_wf s3" "sc_state s3 = LS_running" using s2 by (simp_all add: lifecycle_wf_def)
    from finish_run_ok [OF this f(4), of lg] f s3 show ?thesis by (simp add: sc_run_def)
  qed
qed

text \<open>
  An application of one module with one repeating task, whose callback asks for the stop; idle waits
  let the time pass until the deadline.
\<close>

definition ex_app :: "(nat, nat) app" where
  "ex_app = \<lparr>app_init = (\<lambda>_ _ _. Return (S_ok, id)),
     app_task = (\<lambda>_ _ n. if n < 2 then Return Suc else Do A_stop (\<lambda>_. Return Suc)),
     app_event = (\<lambda>_ _ _. Return id), app_timer = (\<lambda>_ _. ([], id)), app_can_sleep = (\<lambda>_ _. Return (True, id))\<rparr>"

definition ex_idle :: "time \<Rightarrow> bool \<Rightarrow> nat \<Rightarrow> (nat, nat) sched \<Rightarrow> (nat, nat) sched" where
  "ex_idle d b n s = acts [A_elapse 10] s"

definition ex_modules :: "(nat option \<times> string \<times> string option \<times> descriptor list) list" where
  "ex_modules = [(Some 0, ''m'', Some ''m'', [\<lparr>td_name = Some ''t'', td_callback = Some 0, td_period = 10\<rparr>])]"

declare run_loop.simps [code] fire.simps [code]

lemma ex_run: "map_option fst (sc_run None ex_app ex_idle (sched_make ex_platform 2 1 2 0 ex_modules)) = Some S_ok"
  by code_simp

lemma ex_idle_calm: "calm_idle ex_idle"
  by (simp add: calm_idle_def ex_idle_def acts_keeps del: act.simps acts.simps)

theorem run_clean_witness:
  "\<exists>s'. sc_run None ex_app ex_idle (sched_make ex_platform 2 1 2 0 ex_modules) = Some (S_ok, s') \<and>
     sc_state s' = LS_stopped \<and> quiet s'"
proof -
  obtain s' where r: "sc_run None ex_app ex_idle (sched_make ex_platform 2 1 2 0 ex_modules) = Some (S_ok, s')"
    using ex_run by auto
  from run_clean [OF r ex_idle_calm] r show ?thesis by auto
qed

section \<open>The timer interrupt\<close>

text \<open>Calls that take no time, as an interrupt handler's are at the clock's resolution.\<close>

fun elapse_free :: "'e action \<Rightarrow> bool" where
  "elapse_free (A_elapse d) = False"
| "elapse_free (A_interrupt as) = list_all elapse_free as"
| "elapse_free a = True"

definition due_count :: "('e, 'u) sched \<Rightarrow> nat" where
  "due_count s = length (filter (\<lambda>t. tm_active t \<and> tm_due t \<le> sc_now s) (sc_timers s))"

lemma filter_update_le:
  "\<not> P x \<Longrightarrow> length (filter P (xs[i := x])) \<le> length (filter P xs)"
  by (induction xs arbitrary: i) (auto split: nat.split intro: le_SucI)

lemma filter_update_less:
  "\<not> P x \<Longrightarrow> i < length xs \<Longrightarrow> P (xs ! i) \<Longrightarrow> length (filter P (xs[i := x])) < length (filter P xs)"
proof (induction xs arbitrary: i)
  case (Cons y xs)
  then show ?case by (cases i) auto
qed simp

text \<open>No call makes a timer due, as long as the clock is not at its end.\<close>

definition clock_ok :: "('e, 'u) sched \<Rightarrow> bool" where
  "clock_ok s \<longleftrightarrow> sc_now s < kForever - 1"

lemma After_gt:
  assumes "now < kForever - 1" "delay \<noteq> 0"
  shows "now < After now delay"
proof -
  have "unat now < 2 ^ 64 - 2"
    using assms(1) by (simp add: word_less_nat_alt kForever_def)
  moreover have "0 < unat delay" using assms(2) by (simp add: unat_gt_0)
  ultimately show ?thesis by (simp add: word_less_nat_alt unat_After)
qed

lemma act_due: "elapse_free a \<Longrightarrow> clock_ok s \<Longrightarrow> due_count (snd (act a s)) \<le> due_count s \<and> sc_now (snd (act a s)) = sc_now s"
  and acts_due: "list_all elapse_free as \<Longrightarrow> clock_ok s \<Longrightarrow> due_count (acts as s) \<le> due_count s \<and> sc_now (acts as s) = sc_now s"
proof (induction a s and as s rule: act_acts.induct)
  case (4 d c s)
  have "due_count (s\<lparr>sc_timers := (sc_timers s)[i := \<lparr>tm_active = True, tm_due = After (sc_now s) d, tm_callback = c\<rparr>]\<rparr>) \<le> due_count s"
    if "d \<noteq> 0" for i
    unfolding due_count_def using After_gt [of "sc_now s" d] that 4(2)
    by (simp add: clock_ok_def filter_update_le linorder_not_le)
  then show ?case by (auto simp: timer_slot_def due_count_def split: option.split)
next
  case (5 c s)
  have "due_count (s\<lparr>sc_timers := (sc_timers s)[i := (sc_timers s ! i)\<lparr>tm_active := False\<rparr>]\<rparr>) \<le> due_count s" for i
    unfolding due_count_def by (simp add: filter_update_le)
  then show ?case by (auto simp: cancel_timer_def due_count_def split: option.split)
next
  case (10 as s)
  then show ?case by (auto simp: Let_def due_count_def clock_ok_def)
next
  case (12 a as s)
  then show ?case by (auto simp: clock_ok_def)
qed (auto simp: sc_post_def schedule_slot_def cancel_slot_def sc_stop_def reset_statistics_def due_count_def Let_def
    split: option.split)

definition none_due :: "('e, 'u) sched \<Rightarrow> bool" where
  "none_due s \<longleftrightarrow> (\<forall>t \<in> set (sc_timers s). tm_active t \<longrightarrow> sc_now s < tm_due t)"

text \<open>The platform's timer is set for the earliest pending timer.\<close>

definition armed_earliest :: "('e, 'u) sched \<Rightarrow> bool" where
  "armed_earliest s \<longleftrightarrow>
     (case pl_timer (sc_platform s) of
        None \<Rightarrow> \<forall>t \<in> set (sc_timers s). tm_active t \<longrightarrow> tm_due t = kForever
      | Some d \<Rightarrow> (\<exists>t \<in> set (sc_timers s). tm_active t \<and> tm_due t = d) \<and>
          (\<forall>t \<in> set (sc_timers s). tm_active t \<longrightarrow> d \<le> tm_due t))"

lemma rearm_earliest:
  assumes "none_due s"
  shows "armed_earliest (sc_rearm s)"
proof -
  obtain e sel where r: "scan_earliest tm_active tm_due (sc_timers s) 0 (kForever, None) = (e, sel)" by fastforce
  then show ?thesis
  proof (cases rule: scan_earliestE)
    case none
    have "tm_due t = kForever" if "t \<in> set (sc_timers s)" "tm_active t" for t
      using none(3) [OF that] by (simp add: kForever_def word_order.extremum_unique)
    with none r show ?thesis by (simp add: sc_rearm_def armed_earliest_def pl_disarm_def)
  next
    case (some i)
    then have "sc_now s < e" using assms by (auto simp: none_due_def)
    then show ?thesis using some r by (auto simp: sc_rearm_def armed_earliest_def pl_arm_def)
  qed
qed

lemma fire_turn_false:
  assumes "fire_turn app s = (False, s')" "sc_state s = LS_running" "clock_ok s"
  shows "none_due s' \<and> armed_earliest s' \<and> sc_now s' = sc_now s \<and> keeps s s'"
proof -
  obtain e sel where r: "scan_earliest (\<lambda>t. tm_active t \<and> tm_due t \<le> sc_now s) tm_due (sc_timers s) 0 (kForever, None) = (e, sel)"
    by fastforce
  then have none: "sel = None" and s': "s' = sc_rearm s"
    using assms by (auto simp: fire_turn_def Let_def split: option.splits)
  from r have "none_due s"
  proof (cases rule: scan_earliestE)
    case none
    have "sc_now s < tm_due t" if "t \<in> set (sc_timers s)" "tm_active t" for t
    proof (rule ccontr)
      assume "\<not> sc_now s < tm_due t"
      then have "kForever \<le> sc_now s" using none(3) [of t] that by (simp add: linorder_not_less)
      moreover have "unat (kForever - 1) = 2 ^ 64 - 2" by (simp add: kForever_def)
      ultimately show False using assms(3) unat_kForever by (simp add: clock_ok_def word_le_nat_alt word_less_nat_alt)
    qed
    then show ?thesis by (simp add: none_due_def)
  qed (simp add: none)
  with rearm_earliest [of s] s' show ?thesis by (simp add: none_due_def)
qed

lemma fire_turn_true:
  assumes "fire_turn app s = (True, s')" "clock_ok s"
    and free: "\<And>c u. list_all elapse_free (fst (app_timer app c u))"
  shows "due_count s' < due_count s \<and> sc_now s' = sc_now s \<and> keeps s s'"
proof -
  obtain e sel where r: "scan_earliest (\<lambda>t. tm_active t \<and> tm_due t \<le> sc_now s) tm_due (sc_timers s) 0 (kForever, None) = (e, sel)"
    by fastforce
  then obtain i where sel: "sel = Some i"
    using assms(1) by (auto simp: fire_turn_def Let_def split: option.splits if_splits)
  with r have i: "i < length (sc_timers s)" "tm_active (sc_timers s ! i)" "tm_due (sc_timers s ! i) \<le> sc_now s"
    by (auto elim: scan_earliestE)
  define s1 where "s1 = s\<lparr>sc_timers := (sc_timers s)[i := (sc_timers s ! i)\<lparr>tm_active := False\<rparr>]\<rparr>"
  have less: "due_count s1 < due_count s"
    unfolding due_count_def s1_def using i by (simp add: filter_update_less)
  have k: "keeps s s1" unfolding s1_def by (simp add: keeps_timers timers_ok_off)
  have now: "sc_now s1 = sc_now s" by (simp add: s1_def)
  then have ok: "clock_ok s1" using assms(2) by (simp add: clock_ok_def)
  show ?thesis
  proof (cases "tm_callback (sc_timers s ! i)")
    case None
    then have "s' = sc_notify s1"
      using assms(1) r sel by (auto simp: fire_turn_def Let_def s1_def split: if_splits)
    then show ?thesis using less now k by (simp add: due_count_def)
  next
    case (Some c)
    obtain as upd where a: "app_timer app c (sc_user s1) = (as, upd)" by fastforce
    then have "s' = sc_notify ((acts as s1)\<lparr>sc_user := upd (sc_user (acts as s1))\<rparr>)"
      using assms(1) r sel Some by (auto simp: fire_turn_def Let_def s1_def split: if_splits)
    moreover have "list_all elapse_free as" using free [of c "sc_user s1"] a by simp
    ultimately show ?thesis
      using acts_due [OF _ ok, of as] less now keeps_trans [OF k acts_keeps [of s1 as]]
      by (auto simp: due_count_def)
  qed
qed

text \<open>
  C14: while the scheduler runs and the clock is not within a microsecond of its end, a timer interrupt whose
  callbacks take no time at the clock's resolution returns, however they set, move or cancel timers; then no pending timer is due and the platform's timer is set for the earliest one (or
  off when none is pending).
\<close>

theorem fire_returns:
  assumes "sc_state s = LS_running" "clock_ok s" "\<And>c u. list_all elapse_free (fst (app_timer app c u))"
  shows "\<exists>s'. fire app s = Some s' \<and> none_due s' \<and> armed_earliest s' \<and> sc_now s' = sc_now s \<and> keeps s s'"
  using assms
proof (induction "due_count s" arbitrary: s rule: less_induct)
  case less
  obtain again s1 where t: "fire_turn app s = (again, s1)" by fastforce
  show ?case
  proof (cases again)
    case False
    then show ?thesis using fire_turn_false [of app s s1] t less.prems by (subst fire.simps) simp
  next
    case True
    then have 1: "due_count s1 < due_count s" "sc_now s1 = sc_now s" "keeps s s1"
      using fire_turn_true [of app s s1] t less.prems by auto
    then have "sc_state s1 = LS_running" "clock_ok s1"
      using less.prems keeps_lifecycle [OF 1(3)] 1(2) by (simp_all add: clock_ok_def)
    from less.hyps [OF 1(1) this less.prems(3)] obtain s' where
      "fire app s1 = Some s'" "none_due s'" "armed_earliest s'" "sc_now s' = sc_now s1" "keeps s1 s'" by blast
    then show ?thesis using 1 t True by (subst fire.simps) (auto intro: keeps_trans)
  qed
qed

definition ex_timer_app :: "(nat, unit) app" where
  "ex_timer_app = \<lparr>app_init = (\<lambda>_ _ _. Return (S_ok, id)), app_task = (\<lambda>_ _ n. Do A_yield (\<lambda>_. Return id)),
     app_event = (\<lambda>_ _ _. Return id), app_timer = (\<lambda>_ _. ([A_timer 30 (Some 3)], id)),
     app_can_sleep = (\<lambda>_ _. Return (True, id))\<rparr>"

definition ex_armed :: "(nat, unit) sched" where
  "ex_armed = ex_sched\<lparr>sc_timers := [\<lparr>tm_active = True, tm_due = 90, tm_callback = Some 3\<rparr>,
     \<lparr>tm_active = True, tm_due = 50, tm_callback = None\<rparr>]\<rparr>"

theorem fire_returns_witness:
  "sc_state ex_armed = LS_running \<and> (\<exists>s'. fire ex_timer_app ex_armed = Some s' \<and> none_due s' \<and> armed_earliest s')"
proof -
  have "sc_state ex_armed = LS_running" "clock_ok ex_armed" by code_simp+
  moreover have "list_all elapse_free (fst (app_timer ex_timer_app c u))" for c u by (simp add: ex_timer_app_def)
  ultimately show ?thesis using fire_returns [of ex_armed ex_timer_app] by blast
qed

section \<open>Yield\<close>

text \<open>
  C8: a call of \<open>yield\<close> runs another task only if that task is due, is not executing already and the
  nesting is below the limit. The nesting it causes is bounded by what is left of the limit, so the bound
  of the model does not matter. When it returns, the invariant holds, the same tasks are executing as
  before and the depth is the same.
\<close>

theorem yield_nesting:
  assumes "sched_inv s" and "sc_yield_limit s - sc_task_depth s \<le> n" and "sc_yield n app s = (st, s')"
  shows "sc_yield (sc_yield_limit s - sc_task_depth s) app s = (st, s') \<and> sched_inv s' \<and>
    sc_task_depth s' = sc_task_depth s \<and> map task_key (sc_tasks s') = map task_key (sc_tasks s) \<and>
    (st = S_depth_limit \<longrightarrow> sc_yield_limit s \<le> sc_task_depth s) \<and>
    (st = S_ok \<longrightarrow> sc_task_depth s < sc_yield_limit s \<and>
       (\<exists>t \<in> set (sc_tasks s). tk_active t \<and> \<not> tk_executing t \<and> tk_due t \<le> sc_now s))"
proof -
  have eq: "sc_yield (sc_yield_limit s - sc_task_depth s) app s = (st, s')"
    using sc_yield_fuel [OF assms(2) order_refl] assms(3) by simp
  have k: "keeps s s'" using sc_yield_keeps [of s n app] assms(3) by simp
  have st: "(st = S_depth_limit \<longrightarrow> sc_yield_limit s \<le> sc_task_depth s) \<and>
    (st = S_ok \<longrightarrow> sc_task_depth s < sc_yield_limit s \<and> (\<exists>i. yield_select s = Some i))"
  proof (cases "yield_enter s")
    case (Inl r)
    then have "fst r = st" using assms(3) by (cases n) auto
    then show ?thesis using Inl by (auto simp: yield_enter_def Let_def split: if_splits option.splits)
  next
    case (Inr i)
    then have "sc_task_depth s < sc_yield_limit s" "yield_select s = Some i" using yield_enter_task by auto
    moreover from this assms(2) obtain m where "n = Suc m" by (cases n) auto
    ultimately show ?thesis using Inr assms(3) by (auto split: prod.splits)
  qed
  have "\<exists>t \<in> set (sc_tasks s). tk_active t \<and> \<not> tk_executing t \<and> tk_due t \<le> sc_now s"
    if "yield_select s = Some i" for i
    using scan_earliest_ok [of "\<lambda>t. tk_active t \<and> \<not> tk_executing t \<and> tk_due t \<le> sc_now s" tk_due "sc_tasks s" kForever] that
    by (auto simp: yield_select_def scan_ok_def)
  with eq k st assms(1) fixedD(1,6) [of s' s] show ?thesis by (auto simp: keeps_def)
qed

text \<open>A task is executing that yields, with another due.\<close>

definition ex_nested :: "(nat, unit) sched" where
  "ex_nested = enter_task 1 (ex_sched\<lparr>sc_platform := ex_platform\<lparr>pl_context :=
     \<lparr>ctx_module = ''m'', ctx_task = ''t'', ctx_kind = CK_task, ctx_scheduler = True\<rparr>\<rparr>\<rparr>)"

lemma ex_nested_inv: "sched_inv ex_nested"
proof -
  let ?s = "ex_sched\<lparr>sc_platform := ex_platform\<lparr>pl_context :=
     \<lparr>ctx_module = ''m'', ctx_task = ''t'', ctx_kind = CK_task, ctx_scheduler = True\<rparr>\<rparr>\<rparr>"
  have "sched_inv ?s" "1 < length (sc_tasks ?s)" "\<not> tk_executing (sc_tasks ?s ! 1)"
    by (simp_all add: ex_sched_def sched_inv_def ex_task_def sched_new_def timers_ok_def executing_count_def stats_ok_def
        task_statistics_zero_def nth_Cons numeral_2_eq_2 split: nat.split)
  from enter_task_inv [OF this] show ?thesis by (simp add: ex_nested_def)
qed

theorem yield_nesting_witness:
  "sched_inv ex_nested \<and> sc_task_depth ex_nested = 1 \<and> fst (sc_yield 2 ex_timer_app ex_nested) = S_ok \<and>
     sc_task_depth (snd (sc_yield 2 ex_timer_app ex_nested)) = 1"
proof -
  have "sc_task_depth ex_nested = 1" "sc_yield_limit ex_nested = 2" "fst (sc_yield 2 ex_timer_app ex_nested) = S_ok"
    by code_simp+
  moreover from this obtain s' where y: "sc_yield 2 ex_timer_app ex_nested = (S_ok, s')" by (metis prod.collapse)
  ultimately show ?thesis using yield_nesting [OF ex_nested_inv _ y] ex_nested_inv by simp
qed

section \<open>Stop\<close>

text \<open>The state at the next turn of the loop, after the idle wait if one follows.\<close>

definition loop_next ::
  "'u logging option \<Rightarrow> ('e, 'u) app \<Rightarrow> (time \<Rightarrow> bool \<Rightarrow> nat \<Rightarrow> ('e, 'u) sched \<Rightarrow> ('e, 'u) sched) \<Rightarrow> ('e, 'u) sched \<Rightarrow> ('e, 'u) sched" where
  "loop_next lg app idle s = (case run_turn lg app s of (T_idle d b n, s1) \<Rightarrow> idle d b n s1 | (_, s1) \<Rightarrow> s1)"

lemma run_loop_next: "run_loop lg app idle s = run_loop lg app idle (loop_next lg app idle s)"
proof -
  obtain t s1 where t: "run_turn lg app s = (t, s1)" by fastforce
  show ?thesis
  proof (cases t)
    case T_stop
    then show ?thesis using run_turn_stop [of lg app s s1] t by (simp add: loop_next_def)
  qed (use t in \<open>subst run_loop.simps, simp add: loop_next_def\<close>)+
qed

lemma run_loop_reaches: "run_loop lg app idle s = run_loop lg app idle ((loop_next lg app idle ^^ n) s)"
proof (induction n)
  case (Suc n)
  then show ?case using run_loop_next [of lg app idle "(loop_next lg app idle ^^ n) s"] by simp
qed simp

lemma run_loop_stopped: "sc_stop_requested s \<Longrightarrow> run_loop lg app idle s = Some s"
  by (subst run_loop.simps) (simp add: run_turn_def)

text \<open>A turn goes on to an idle wait only if no stop is requested.\<close>

lemma idle_deadline_stop [simp]: "sc_stop_requested (snd (idle_deadline s)) = sc_stop_requested s"
  by (simp add: idle_deadline_def Let_def sc_rearm_def)

lemma run_turn_idle:
  assumes "run_turn lg app s = (T_idle d b n, s1)"
  shows "\<not> sc_stop_requested s1"
proof -
  obtain c s2 where c: "dispatch_select s = (c, s2)" by fastforce
  obtain x u where l: "(case lg of None \<Rightarrow> (False, sc_user s2) | Some l \<Rightarrow> lg_dispatch l (sc_user s2)) = (x, u)" by fastforce
  obtain sl s3 where a: "ask_sleep app (sc_modules s2) (pl_can_sleep (sc_platform s2)) (s2\<lparr>sc_user := u\<rparr>) = (sl, s3)" by fastforce
  obtain dl s4 where i: "idle_deadline s3 = (dl, s4)" by fastforce
  have "\<not> sc_stop_requested s3 \<and> s1 = s4"
    using assms c l a i by (cases c) (auto simp: run_turn_def Let_def split: if_splits)
  then show ?thesis using idle_deadline_stop [of s3] i by simp
qed

lemma loop_next_keeps:
  assumes "calm_idle idle" "sched_inv s \<and> sc_task_depth s = 0"
  shows "keeps s (loop_next lg app idle s)"
proof -
  obtain t s1 where t: "run_turn lg app s = (t, s1)" by fastforce
  then have "keeps s s1" using run_turn_keeps [of s lg app] assms(2) by simp
  then show ?thesis using assms(1) t by (cases t) (auto simp: loop_next_def calm_idle_def intro: keeps_trans)
qed

lemma loop_states_keep:
  assumes "calm_idle idle" "sched_inv s \<and> sc_task_depth s = 0"
  shows "keeps s ((loop_next lg app idle ^^ n) s)"
proof (induction n)
  case (Suc n)
  then show ?case using loop_next_keeps [OF assms(1) keeps_step [OF Suc assms(2)], of lg app] by (auto intro: keeps_trans)
qed (simp add: assms)

text \<open>
  C15: a run ends once a stop was requested. Take a scheduler made from any modules whose initialization
  succeeds, and any number of turns of its dispatch loop. If a callback or an interrupt requests the stop
  in the next turn, or in the idle wait after it, then \<open>run\<close> returns \<open>ok\<close> with the state the loop has then
  reached, its work discarded and its lifecycle stopped: no further callback is run. If the request
  came in the turn itself, the loop does not go on to an idle wait.
\<close>

theorem stop_returns:
  fixes app :: "('e, 'u) app"
  assumes calm: "calm_idle idle"
    and init: "sc_init lg app ((sched_make p events timers depth u modules)\<lparr>sc_used := True\<rparr>) = (S_ok, s0)"
    and s: "s = (loop_next lg app idle ^^ n) (start_tasks (lifecycle_tick LR_run s0))"
    and stop: "sc_stop_requested (loop_next lg app idle s)"
  shows "(\<exists>s'. sc_run lg app idle (sched_make p events timers depth u modules) = Some (S_ok, s') \<and>
      s' = finish_run lg (loop_next lg app idle s) \<and> sc_state s' = LS_stopped \<and> quiet s') \<and>
    (sc_stop_requested (snd (run_turn lg app s)) \<longrightarrow> fst (run_turn lg app s) \<noteq> T_idle d b k)"
proof -
  let ?m = "sched_make p events timers depth u modules :: ('e, 'u) sched"
  have n: "lifecycle_wf (?m\<lparr>sc_used := True\<rparr>)" "sc_state (?m\<lparr>sc_used := True\<rparr>) = LS_fresh" "sched_inv (?m\<lparr>sc_used := True\<rparr>)"
    "sc_task_depth (?m\<lparr>sc_used := True\<rparr>) = 0" "\<not> sc_used ?m"
    using sched_make_ok [where 'a = 'e, of p events timers depth u modules]
    by (auto simp: new_ok_def lifecycle_wf_def sched_inv_def)
  note ok = sc_init_ok [OF n(1-4) init]
  define s2 where "s2 = start_tasks (lifecycle_tick LR_run s0)"
  define s3 where "s3 = loop_next lg app idle s"
  have s2: "sched_inv s2 \<and> sc_task_depth s2 = 0" "lifecycle_wf s2" "sc_state s2 = LS_running"
    using ok by (simp_all add: s2_def start_tasks_inv)
  have k: "keeps s2 s3"
    using loop_states_keep [OF calm s2(1), of "Suc n" lg app] by (simp add: s3_def s s2_def)
  then have f: "sc_lifecycle s3 = sc_lifecycle s2" "sched_inv s3" using s2 by (auto simp: keeps_def sc_fixed_def)
  then have "lifecycle_wf s3" "sc_state s3 = LS_running" using s2 by (simp_all add: lifecycle_wf_def)
  note fin = finish_run_ok [OF this f(2), of lg]
  have "run_loop lg app idle s2 = run_loop lg app idle s3"
    using run_loop_reaches [of lg app idle s2 "Suc n"] by (simp add: s3_def s s2_def)
  then have "run_loop lg app idle s2 = Some s3" using run_loop_stopped [of s3 lg app idle] stop by (simp add: s3_def)
  then have "sc_run lg app idle ?m = Some (S_ok, finish_run lg s3)"
    using n(2,5) init by (simp add: sc_run_def Let_def s2_def)
  then show ?thesis
    using fin run_turn_idle [of lg app s d b k "snd (run_turn lg app s)"] by (auto simp: s3_def prod_eq_iff)
qed

text \<open>With two executions of the example's task counted already, it asks for the stop in the second turn.\<close>

definition ex_stop_turn :: "(nat, nat) sched" where
  "ex_stop_turn = (loop_next None ex_app ex_idle ^^ 1)
     (start_tasks (lifecycle_tick LR_run (snd (sc_init None ex_app ((sched_make ex_platform 2 1 2 2 ex_modules)\<lparr>sc_used := True\<rparr>)))))"

theorem stop_returns_witness:
  "\<not> sc_stop_requested ex_stop_turn \<and> sc_stop_requested (snd (run_turn None ex_app ex_stop_turn)) \<and>
   fst (run_turn None ex_app ex_stop_turn) \<noteq> T_idle 0 False 0 \<and>
   (\<exists>s'. sc_run None ex_app ex_idle (sched_make ex_platform 2 1 2 2 ex_modules) = Some (S_ok, s') \<and>
     s' = finish_run None (loop_next None ex_app ex_idle ex_stop_turn) \<and> sc_state s' = LS_stopped \<and> quiet s')"
proof -
  have "fst (sc_init None ex_app ((sched_make ex_platform 2 1 2 2 ex_modules)\<lparr>sc_used := True\<rparr>)) = S_ok" by code_simp
  then obtain s0 where s0: "sc_init None ex_app ((sched_make ex_platform 2 1 2 2 ex_modules)\<lparr>sc_used := True\<rparr>) = (S_ok, s0)"
    by (metis prod.collapse)
  then have s: "ex_stop_turn = (loop_next None ex_app ex_idle ^^ 1) (start_tasks (lifecycle_tick LR_run s0))"
    by (simp add: ex_stop_turn_def)
  have e: "sc_stop_requested (loop_next None ex_app ex_idle ex_stop_turn)" "\<not> sc_stop_requested ex_stop_turn"
    "sc_stop_requested (snd (run_turn None ex_app ex_stop_turn))"
    by code_simp+
  from stop_returns [OF ex_idle_calm s0 s e(1), of 0 False 0] e(2,3) show ?thesis by blast
qed

end
