(* ===== verification/Duration.thy ===== *)
theory Duration
  imports Foundation
begin

text \<open>
  The conversion of a duration to microseconds and the saturating deadline, against exact arithmetic.
\<close>

lemma coprime_part:
  assumes "den > (0 :: nat)"
  defines "g \<equiv> gcd den 1000000"
  shows "den = den div g * g" "1000000 = 1000000 div g * g" "coprime (den div g) (1000000 div g)" "0 < den div g" "0 < 1000000 div g"
proof -
  have g: "g dvd den" "g dvd 1000000" "0 < g" using assms by (auto simp: g_def)
  then show "den = den div g * g" "1000000 = 1000000 div g * g" by simp_all
  show "coprime (den div g) (1000000 div g)" unfolding g_def by (rule div_gcd_coprime) (use assms in simp)
  show "0 < den div g" "0 < 1000000 div g" using g assms dvd_div_eq_0_iff by (metis neq0_conv nat_neq_iff zero_neq_numeral)+
qed

lemma exact_div:
  assumes "den > 0" "coprime num (den :: nat)"
  defines "g \<equiv> gcd den 1000000"
  shows "den dvd c * num * 1000000 \<longleftrightarrow> den div g dvd c"
    and "den div g dvd c \<Longrightarrow> c * num * 1000000 div den = c div (den div g) * num * (1000000 div g)"
proof -
  define a b where "a = den div g" and "b = 1000000 div g"
  have p: "den = a * g" "1000000 = b * g" "coprime a b" "0 < a" "0 < g"
    using coprime_part [OF assms(1)] assms(1) by (auto simp: a_def b_def g_def)
  have "coprime a num" using assms(2) p(1) by (simp add: coprime_commute)
  have "den dvd c * num * 1000000 \<longleftrightarrow> a dvd c * num * b"
    unfolding p(1) p(2) using p(5) by (simp add: mult.assoc [symmetric])
  also have "\<dots> \<longleftrightarrow> a dvd c"
    using p(3) \<open>coprime a num\<close> by (simp add: coprime_dvd_mult_left_iff)
  finally show "den dvd c * num * 1000000 \<longleftrightarrow> den div g dvd c" by (simp add: a_def)
  assume "den div g dvd c"
  then obtain q where c: "c = a * q" by (auto simp: a_def)
  have "c * num * 1000000 = den * (q * num * b)" unfolding c p(1,2) by (simp only: mult_ac)
  then have "c * num * 1000000 div den = q * num * b" using assms(1) by (metis nonzero_mult_div_cancel_left not_gr_zero)
  then show "c * num * 1000000 div den = c div (den div g) * num * (1000000 div g)"
    using p(4) by (simp add: c a_def [symmetric] b_def [symmetric])
qed

lemma scale_exact:
  fixes q num b N :: nat
  assumes "0 < num" "0 < b" "2 < N"
  shows "(if q > (N - 2) div num then None
      else if (q * num) mod N > (N - 2) div b then None else Some ((q * num) mod N * b mod N)) =
    (if q * num * b \<le> N - 2 then Some (q * num * b) else None)"
proof (cases "q * num \<le> N - 2")
  case True
  have m: "(q * num) mod N = q * num" by (rule mod_less) (use True assms(3) in linarith)
  have q: "q \<le> (N - 2) div num" using True assms(1) by (simp add: less_eq_div_iff_mult_less_eq)
  have b: "q * num \<le> (N - 2) div b \<longleftrightarrow> q * num * b \<le> N - 2" using assms(2) by (simp add: less_eq_div_iff_mult_less_eq)
  have "(q * num * b) mod N = q * num * b" if "q * num * b \<le> N - 2" by (rule mod_less) (use that assms(3) in linarith)
  then show ?thesis using q b unfolding m by auto
next
  case False
  have "q * num \<le> q * num * b" using assms(2) by simp
  then have "\<not> q * num * b \<le> N - 2" using False by linarith
  moreover have "\<not> q \<le> (N - 2) div num" using False assms(1) by (simp add: less_eq_div_iff_mult_less_eq)
  ultimately show ?thesis by simp
qed

text \<open>
  C31: a duration is converted exactly or refused. For a count of periods of \<open>num / den\<close> seconds (in
  lowest terms, the count within 64 bits), the result is the exact number of microseconds if that is a
  whole number from 0 up to the largest time below \<open>kForever\<close>; otherwise \<open>invalid_argument\<close>. No
  intermediate value of the 64-bit arithmetic wraps around.
\<close>

theorem duration_exact:
  assumes "0 < num" "0 < den" "coprime num den" "count < 2 ^ 64"
  shows "to_microseconds count num den =
    (if 0 \<le> count \<and> den dvd nat count * num * 1000000 \<and> nat count * num * 1000000 div den \<le> 2 ^ 64 - 2
     then Some (of_nat (nat count * num * 1000000 div den)) else None)"
proof (cases "0 \<le> count")
  case True
  define N :: nat where "N = 2 ^ 64"
  define a b where "a = den div gcd den 1000000" and "b = 1000000 div gcd den 1000000"
  have ab: "0 < b" using coprime_part [OF assms(2)] by (simp add: b_def)
  have N: "2 < N" by (simp add: N_def)
  have "nat count < N" using assms(4) True by (simp add: N_def nat_less_iff)
  then have c: "nat count mod N = nat count" by simp
  have d: "den dvd nat count * num * 1000000 \<longleftrightarrow> nat count mod a = 0"
    unfolding a_def mod_eq_0_iff_dvd by (rule exact_div(1) [OF assms(2,3)])
  have e: "nat count * num * 1000000 div den = nat count div a * num * b" if "nat count mod a = 0"
    using that unfolding a_def b_def mod_eq_0_iff_dvd by (rule exact_div(2) [OF assms(2,3)])
  have "to_microseconds count num den = (if nat count mod a \<noteq> 0 then None else map_option of_nat
     (if nat count div a > (N - 2) div num then None
      else if (nat count div a * num) mod N > (N - 2) div b then None else Some ((nat count div a * num) mod N * b mod N)))"
    using True unfolding to_microseconds_def Let_def N_def [symmetric] c a_def [symmetric] b_def [symmetric]
    by simp
  also have "\<dots> = (if nat count mod a \<noteq> 0 then None else map_option of_nat
     (if nat count div a * num * b \<le> N - 2 then Some (nat count div a * num * b) else None))"
    unfolding scale_exact [OF assms(1) ab N] ..
  finally show ?thesis using True e unfolding d N_def [symmetric] by simp
qed (simp add: to_microseconds_def)

theorem duration_exact_witness:
  "to_microseconds 3 1 1000 = Some 3000 \<and> to_microseconds 3 1 1000000000 = None"
  using duration_exact [of 1 1000 3] duration_exact [of 1 1000000000 3] by simp

text \<open>
  C32: a deadline is the exact sum up to the largest time that is not \<open>kForever\<close>, where it saturates; it
  is never the sentinel, never before the present, and monotone in the delay.
\<close>

theorem deadline_saturates:
  assumes "now < kForever"
  shows "unat (After now delay) = min (unat now + unat delay) (2 ^ 64 - 2) \<and> After now delay < kForever \<and>
    now \<le> After now delay \<and> (delay \<le> delay' \<longrightarrow> After now delay \<le> After now delay')"
  using unat_After [of now delay] After_less_kForever [of now delay] After_ge [OF assms, of delay]
    After_mono [of delay delay' now] by simp

theorem deadline_saturates_witness: "After 5 (kForever - 3) < kForever \<and> 5 \<le> After 5 (kForever - 3)"
proof -
  have "(5 :: time) < kForever" by (simp add: kForever_def)
  from deadline_saturates [OF this, of "kForever - 3"] show ?thesis by blast
qed

end
