(* ===== verification/Arguments.thy ===== *)
theory Arguments
  imports Match
begin

text \<open>
  Typed command arguments (lib/core/command/arguments.hpp): the declarations of a handler's
  parameters, the metadata the compiler builds from them, and the parsing of the words of a command
  line into the parameters' values. A declaration that the compiler refuses (\<open>static_assert\<close>, or
  \<open>abort\<close> in a constant expression) has no metadata: \<open>None\<close>. Floating-point parameters are left out.
\<close>

section \<open>Declarations\<close>

text \<open>
  The type of a handler's parameter: an integer of \<open>n\<close> bits, a boolean, a view of the text, or an
  enumeration with its own table of choices, if \<open>DAVEOS_ENUM\<close> declared it.
\<close>

type_synonym choice_table = "(string option \<times> int) list"

datatype param_type = P_int nat bool | P_bool | P_text | P_enum "choice_table option"

record param =
  pa_type :: param_type
  pa_optional :: bool

record argument =
  ar_name :: "string option"
  ar_minimum :: "int option"
  ar_maximum :: "int option"
  ar_friendly :: bool
  ar_choices :: "choice_table option"

definition arg :: "string option \<Rightarrow> argument" where
  "arg name = \<lparr>ar_name = name, ar_minimum = None, ar_maximum = None, ar_friendly = False, ar_choices = None\<rparr>"

definition arg_min :: "int \<Rightarrow> argument \<Rightarrow> argument" where
  "arg_min value a = a\<lparr>ar_minimum := Some value\<rparr>"

definition arg_max :: "int \<Rightarrow> argument \<Rightarrow> argument" where
  "arg_max value a = a\<lparr>ar_maximum := Some value\<rparr>"

definition arg_range :: "int \<Rightarrow> int \<Rightarrow> argument \<Rightarrow> argument" where
  "arg_range low high a = arg_max high (arg_min low a)"

definition arg_choices :: "choice_table \<Rightarrow> argument \<Rightarrow> argument" where
  "arg_choices table a = a\<lparr>ar_choices := Some table\<rparr>"

definition arg_friendly :: "argument \<Rightarrow> argument" where
  "arg_friendly a = a\<lparr>ar_friendly := True\<rparr>"

section \<open>Metadata\<close>

record numeric_bounds =
  nb_minimum :: int
  nb_maximum :: int
  nb_has_minimum :: bool
  nb_has_maximum :: bool

datatype policy = No_policy | Bounds numeric_bounds | Choices choice_table

record argument_metadata =
  am_name :: string
  am_type :: string
  am_optional :: bool
  am_friendly :: bool
  am_policy :: policy

definition int_min :: "nat \<Rightarrow> bool \<Rightarrow> int" where
  "int_min bits is_signed = (if is_signed then - (2 ^ (bits - 1)) else 0)"

definition int_max :: "nat \<Rightarrow> bool \<Rightarrow> int" where
  "int_max bits is_signed = (if is_signed then 2 ^ (bits - 1) - 1 else 2 ^ bits - 1)"

text \<open>\<open>CheckBound\<close>: a bound that the parameter's type does not represent is refused.\<close>

definition check_bound :: "nat \<Rightarrow> bool \<Rightarrow> int \<Rightarrow> int option" where
  "check_bound bits is_signed value =
     (if int_min bits is_signed \<le> value \<and> value \<le> int_max bits is_signed then Some value else None)"

fun choice_names_loop :: "string list \<Rightarrow> choice_table \<Rightarrow> bool" where
  "choice_names_loop seen [] \<longleftrightarrow> True"
| "choice_names_loop seen ((name, _) # table) \<longleftrightarrow>
     \<not> name_missing name \<and> \<not> list_ex (EqualName (name_of name)) seen \<and>
     choice_names_loop (seen @ [name_of name]) table"

definition choice_metadata :: "choice_table \<Rightarrow> argument_metadata \<Rightarrow> argument_metadata option" where
  "choice_metadata table result =
     (if table = [] \<or> \<not> choice_names_loop [] table then None
      else Some (result\<lparr>am_type := ''enum choice'', am_policy := Choices table\<rparr>))"

definition numeric_policy :: "nat \<Rightarrow> bool \<Rightarrow> argument \<Rightarrow> policy option" where
  "numeric_policy bits is_signed d =
     (case (ar_minimum d, ar_maximum d) of
        (None, None) \<Rightarrow> Some No_policy
      | (low, high) \<Rightarrow>
          if bits > 32 then None
          else case (case low of None \<Rightarrow> Some 0 | Some v \<Rightarrow> check_bound bits is_signed v,
                     case high of None \<Rightarrow> Some 0 | Some v \<Rightarrow> check_bound bits is_signed v) of
            (Some l, Some h) \<Rightarrow>
              if low \<noteq> None \<and> high \<noteq> None \<and> l > h then None
              else Some (Bounds \<lparr>nb_minimum = l, nb_maximum = h, nb_has_minimum = (low \<noteq> None),
                                 nb_has_maximum = (high \<noteq> None)\<rparr>)
          | _ \<Rightarrow> None)"

definition metadata_of :: "param \<Rightarrow> argument \<Rightarrow> argument_metadata option" where
  "metadata_of p d =
     (let result = \<lparr>am_name = name_of (ar_name d), am_type = [], am_optional = pa_optional p,
                     am_friendly = ar_friendly d, am_policy = No_policy\<rparr>
      in if (ar_friendly d \<and> pa_type p \<noteq> P_bool) \<or>
            (ar_choices d \<noteq> None \<and> (case pa_type p of P_enum _ \<Rightarrow> False | _ \<Rightarrow> True)) \<or>
            ((ar_minimum d \<noteq> None \<or> ar_maximum d \<noteq> None) \<and> (case pa_type p of P_int _ _ \<Rightarrow> False | _ \<Rightarrow> True)) \<or>
            name_missing (ar_name d)
         then None
         else case pa_type p of
           P_enum own \<Rightarrow>
             (case (case ar_choices d of Some table \<Rightarrow> Some table | None \<Rightarrow> own) of
                None \<Rightarrow> None
              | Some table \<Rightarrow> choice_metadata table result)
         | P_bool \<Rightarrow> Some (result\<lparr>am_type := if ar_friendly d then ''boolean alias'' else ''true or false''\<rparr>)
         | P_text \<Rightarrow> Some (result\<lparr>am_type := ''text''\<rparr>)
         | P_int bits is_signed \<Rightarrow>
             (case numeric_policy bits is_signed d of
                None \<Rightarrow> None
              | Some policy \<Rightarrow> Some (result\<lparr>am_type := if is_signed then ''signed integer'' else ''unsigned integer'',
                                             am_policy := policy\<rparr>)))"

section \<open>Numbers\<close>

text \<open>
  \<open>std::from_chars\<close> for an unsigned integer of \<open>width\<close> bits: the longest run of digits of the base is
  converted. The result is the value, or \<open>None\<close> for an error, and the characters from \<open>ptr\<close> on.
\<close>

definition digit_value :: "char \<Rightarrow> nat option" where
  "digit_value c = (let n = of_char c :: nat
     in if 48 \<le> n \<and> n \<le> 57 then Some (n - 48)
        else if 97 \<le> n \<and> n \<le> 122 then Some (n - 87)
        else if 65 \<le> n \<and> n \<le> 90 then Some (n - 55)
        else None)"

definition is_digit :: "nat \<Rightarrow> char \<Rightarrow> bool" where
  "is_digit base c = (case digit_value c of None \<Rightarrow> False | Some d \<Rightarrow> d < base)"

definition digits_value :: "nat \<Rightarrow> string \<Rightarrow> nat" where
  "digits_value base text = foldl (\<lambda>v c. v * base + the (digit_value c)) 0 text"

definition from_chars :: "nat \<Rightarrow> nat \<Rightarrow> string \<Rightarrow> nat option \<times> string" where
  "from_chars width base text =
     (let digits = takeWhile (is_digit base) text; rest = dropWhile (is_digit base) text; v = digits_value base digits
      in if digits = [] then (None, text) else (if v < 2 ^ width then Some v else None, rest))"

definition starts_with :: "char \<Rightarrow> string \<Rightarrow> bool" where
  "starts_with c text \<longleftrightarrow> text \<noteq> [] \<and> hd text = c"

definition strip_base :: "string \<Rightarrow> nat \<times> string" where
  "strip_base text =
     (if length text \<ge> 2 \<and> text ! 0 = CHR ''0'' then
        (if text ! 1 = CHR ''x'' \<or> text ! 1 = CHR ''X'' then (16, drop 2 text)
         else if text ! 1 = CHR ''b'' \<or> text ! 1 = CHR ''B'' then (2, drop 2 text)
         else (10, text))
      else (10, text))"

definition magnitude_bits :: "nat \<Rightarrow> nat" where
  "magnitude_bits bits = (if bits \<le> 32 then 32 else 64)"

definition Number :: "nat \<Rightarrow> bool \<Rightarrow> string \<Rightarrow> int option" where
  "Number bits is_signed text =
     (if text = [] then None
      else
        let negative = starts_with (CHR ''-'') text;
            text = (if negative \<or> starts_with (CHR ''+'') text then tl text else text)
        in if negative \<and> \<not> is_signed then None
           else case strip_base text of (base, text) \<Rightarrow>
             if text = [] \<or> starts_with (CHR ''-'') text \<or> starts_with (CHR ''+'') text then None
             else case from_chars (magnitude_bits bits) base text of
               (None, _) \<Rightarrow> None
             | (Some magnitude, rest) \<Rightarrow>
                 if rest \<noteq> [] then None
                 else if is_signed \<and> negative then
                   (if int magnitude > int_max bits is_signed + 1 then None
                    else Some (if int magnitude = int_max bits is_signed + 1 then int_min bits is_signed else - int magnitude))
                 else if int magnitude > int_max bits is_signed then None
                 else Some (int magnitude))"

section \<open>Parsing\<close>

text \<open>The value of a parameter; an optional that was not given is \<open>V_none\<close>.\<close>

datatype val = V_int int | V_bool bool | V_text string | V_enum int | V_none

definition yes_names :: "string list" where
  "yes_names = [''true'', ''1'', ''on'', ''yes'', ''enable'', ''high'', ''set'']"

definition no_names :: "string list" where
  "no_names = [''false'', ''0'', ''off'', ''no'', ''disable'', ''low'', ''clear'']"

fun friendly_loop :: "string \<Rightarrow> string list \<Rightarrow> string list \<Rightarrow> bool option" where
  "friendly_loop text (y # ys) (n # ns) =
     (if EqualName text y \<or> EqualName text n then Some (EqualName text y) else friendly_loop text ys ns)"
| "friendly_loop text _ _ = None"

definition parse_choice :: "choice_table \<Rightarrow> string \<Rightarrow> status + val" where
  "parse_choice table text =
     (let match = lazy_match text (map (name_of \<circ> fst) table)
      in if nm_status match = S_ok then Inr (V_enum (snd (table ! nm_index match))) else Inl (nm_status match))"

definition out_of_bounds :: "numeric_bounds \<Rightarrow> int \<Rightarrow> bool" where
  "out_of_bounds b v \<longleftrightarrow> (nb_has_minimum b \<and> v < nb_minimum b) \<or> (nb_has_maximum b \<and> v > nb_maximum b)"

fun Parse :: "param_type \<Rightarrow> argument_metadata \<Rightarrow> string \<Rightarrow> status + val" where
  "Parse (P_enum _) m text =
     (case am_policy m of Choices table \<Rightarrow> parse_choice table text | _ \<Rightarrow> Inl S_invalid_argument)"
| "Parse P_bool m text =
     (if \<not> am_friendly m then
        (if text \<noteq> ''true'' \<and> text \<noteq> ''false'' then Inl S_invalid_argument else Inr (V_bool (text = ''true'')))
      else case friendly_loop text yes_names no_names of
             None \<Rightarrow> Inl S_invalid_argument
           | Some v \<Rightarrow> Inr (V_bool v))"
| "Parse P_text m text = Inr (V_text text)"
| "Parse (P_int bits is_signed) m text =
     (case Number bits is_signed text of
        None \<Rightarrow> Inl S_invalid_argument
      | Some v \<Rightarrow>
          (case am_policy m of
             Bounds b \<Rightarrow> if bits \<le> 32 \<and> out_of_bounds b v then Inl S_invalid_argument else Inr (V_int v)
           | _ \<Rightarrow> Inr (V_int v)))"

fun default_value :: "param \<Rightarrow> val" where
  "default_value p = (if pa_optional p then V_none else case pa_type p of
     P_int _ _ \<Rightarrow> V_int 0 | P_bool \<Rightarrow> V_bool False | P_text \<Rightarrow> V_text [] | P_enum _ \<Rightarrow> V_enum 0)"

record argument_error =
  ae_argument :: "argument_metadata option"
  ae_reason :: "string option"
  ae_status :: status

definition no_error :: argument_error where
  "no_error = \<lparr>ae_argument = None, ae_reason = None, ae_status = S_invalid_argument\<rparr>"

definition choice_reason :: "status \<Rightarrow> string" where
  "choice_reason s = (if s = S_ambiguous_match then ''ambiguous choice''
     else if s = S_not_found then ''unknown choice'' else ''invalid value or outside allowed range'')"

text \<open>The values of the parameters, for the words given; the fold over \<open>parse\<close> stops at the first error.\<close>

fun parse_values :: "param list \<Rightarrow> argument_metadata list \<Rightarrow> string list \<Rightarrow> argument_error + val list" where
  "parse_values [] ms args = Inr []"
| "parse_values (p # ps) ms [] = Inr (map default_value (p # ps))"
| "parse_values (p # ps) ms (a # args) =
     (case Parse (pa_type p) (hd ms) a of
        Inl s \<Rightarrow> Inl \<lparr>ae_argument = Some (hd ms), ae_reason = Some (choice_reason s), ae_status = s\<rparr>
      | Inr v \<Rightarrow> (case parse_values ps (tl ms) args of Inl e \<Rightarrow> Inl e | Inr vs \<Rightarrow> Inr (v # vs)))"

section \<open>Commands\<close>

text \<open>
  The handler is given the words themselves (\<open>H_raw\<close>) or the values of its parameters.
\<close>

datatype 'h handler = H_raw "string list \<Rightarrow> 'h" | H_typed "param list" "val list \<Rightarrow> 'h"

record 'h command_descriptor =
  cd_name :: "string option"
  cd_help :: "string option"
  cd_handler :: "string option"
  cd_callback :: "'h handler"
  cd_arguments :: "argument_metadata list"
  cd_count :: nat
  cd_required :: nat

text \<open>The required parameters come first; \<open>None\<close> if one follows an optional one.\<close>

fun count_required :: "bool \<Rightarrow> nat \<Rightarrow> argument_metadata list \<Rightarrow> nat option" where
  "count_required opt required [] = Some required"
| "count_required opt required (m # ms) =
     (if am_optional m then count_required True required ms
      else if opt then None else count_required opt (required + 1) ms)"

fun all_metadata :: "param list \<Rightarrow> argument list \<Rightarrow> argument_metadata list option" where
  "all_metadata (p # ps) (a # as) =
     (case (metadata_of p a, all_metadata ps as) of (Some m, Some ms) \<Rightarrow> Some (m # ms) | _ \<Rightarrow> None)"
| "all_metadata _ _ = Some []"

definition CommandParameterCapacity :: nat where
  "CommandParameterCapacity = 6"

definition command ::
  "'h handler \<Rightarrow> string option \<Rightarrow> string option \<Rightarrow> argument list \<Rightarrow> 'h command_descriptor option" where
  "command function name help arguments =
     (let result = \<lparr>cd_name = name, cd_help = help, cd_handler = name, cd_callback = function,
                     cd_arguments = [], cd_count = 0, cd_required = 0\<rparr>
      in case function of
           H_raw _ \<Rightarrow> if arguments \<noteq> [] then None else Some result
         | H_typed ps _ \<Rightarrow>
             if length arguments \<noteq> length ps \<or> length ps > CommandParameterCapacity then None
             else case all_metadata ps arguments of
               None \<Rightarrow> None
             | Some ms \<Rightarrow>
                 (case count_required False 0 ms of
                    None \<Rightarrow> None
                  | Some required \<Rightarrow> Some (result\<lparr>cd_arguments := ms, cd_count := length ps, cd_required := required\<rparr>)))"

text \<open>
  A descriptor's callback on the words after the command: the call of the handler that it makes, or
  the adapter's error.
\<close>

definition call_command :: "'h command_descriptor \<Rightarrow> string list \<Rightarrow> argument_error + 'h" where
  "call_command d args = (case cd_callback d of
       H_raw f \<Rightarrow> Inr (f args)
     | H_typed ps f \<Rightarrow>
         if length args < cd_required d \<or> length args > cd_count d
         then Inl (no_error\<lparr>ae_reason := Some ''wrong argument count''\<rparr>)
         else case parse_values ps (cd_arguments d) args of Inl e \<Rightarrow> Inl e | Inr vs \<Rightarrow> Inr (f vs))"

section \<open>Decimal numerals\<close>

definition digit_char :: "nat \<Rightarrow> char" where
  "digit_char d = char_of (48 + d)"

fun decimal :: "nat \<Rightarrow> string" where
  "decimal n = (if n < 10 then [digit_char n] else decimal (n div 10) @ [digit_char (n mod 10)])"

declare decimal.simps [simp del]

lemma digit_value_char: "d < 10 \<Longrightarrow> digit_value (digit_char d) = Some d"
  by (simp add: digit_value_def digit_char_def)

lemma decimal_digits: "set (decimal n) \<subseteq> digit_char ` {..<10}"
proof (induction n rule: decimal.induct)
  case (1 n)
  then show ?case by (subst decimal.simps) auto
qed

lemma decimal_is_digit: "c \<in> set (decimal n) \<Longrightarrow> is_digit 10 c"
  using decimal_digits [of n] by (auto simp: is_digit_def digit_value_char)

lemma digits_value_append: "digits_value base (xs @ [c]) = digits_value base xs * base + the (digit_value c)"
  by (simp add: digits_value_def)

lemma decimal_value: "digits_value 10 (decimal n) = n"
proof (induction n rule: decimal.induct)
  case (1 n)
  then show ?case
    by (subst decimal.simps) (simp add: digits_value_append digit_value_char, simp add: digits_value_def digit_value_char)
qed

lemma decimal_hd: "decimal n \<noteq> [] \<and> hd (decimal n) = digit_char (hd_digit n) \<and> hd_digit n < 10 \<and> (0 < n \<longrightarrow> 0 < hd_digit n)"
  if "hd_digit = (\<lambda>n. the (digit_value (hd (decimal n))))" for hd_digit
proof (induction n rule: decimal.induct)
  case (1 n)
  show ?case
  proof (cases "n < 10")
    case True
    then have "decimal n = [digit_char n]" by (simp add: decimal.simps)
    then show ?thesis using True by (simp add: that digit_value_char)
  next
    case False
    then have "decimal n = decimal (n div 10) @ [digit_char (n mod 10)]" by (simp add: decimal.simps)
    then show ?thesis using 1 False by (simp add: that)
  qed
qed

lemma decimal_nonempty [simp]: "decimal n \<noteq> []"
  using decimal_hd [OF refl] by simp

lemma decimal_no_sign: "\<not> starts_with (CHR ''-'') (decimal n)" "\<not> starts_with (CHR ''+'') (decimal n)"
proof -
  have "hd (decimal n) \<in> digit_char ` {..<10}" using decimal_digits [of n] hd_in_set [OF decimal_nonempty] by blast
  then obtain d :: nat where d: "d < 10" "hd (decimal n) = char_of (48 + d)" by (auto simp: digit_char_def)
  then have "(of_char (hd (decimal n)) :: nat) = 48 + d" by simp
  then show "\<not> starts_with (CHR ''-'') (decimal n)" "\<not> starts_with (CHR ''+'') (decimal n)" by (auto simp: starts_with_def)
qed

lemma strip_base_decimal: "strip_base (decimal n) = (10, decimal n)"
proof (cases "n < 10")
  case True
  then have "decimal n = [digit_char n]" by (simp add: decimal.simps)
  then show ?thesis by (simp add: strip_base_def)
next
  case False
  have "hd (decimal n) \<noteq> CHR ''0''"
  proof
    assume "hd (decimal n) = CHR ''0''"
    then show False using decimal_hd [OF refl, of n] False by (simp add: digit_value_def)
  qed
  then show ?thesis by (simp add: strip_base_def hd_conv_nth)
qed

lemma from_chars_decimal: "from_chars w 10 (decimal n) = (if n < 2 ^ w then Some n else None, [])"
proof -
  have "takeWhile (is_digit 10) (decimal n) = decimal n" "dropWhile (is_digit 10) (decimal n) = []"
    using decimal_is_digit by (simp_all add: takeWhile_eq_all_conv dropWhile_eq_Nil_conv)
  then show ?thesis unfolding from_chars_def Let_def by (simp only: decimal_nonempty decimal_value if_False)
qed

definition int_text :: "int \<Rightarrow> string" where
  "int_text v = (if v < 0 then CHR ''-'' # decimal (nat (- v)) else decimal (nat v))"

lemma int_range:
  assumes "0 < bits" "bits \<le> 64"
  shows "int n \<le> int_max bits sg \<Longrightarrow> n < 2 ^ magnitude_bits bits"
    and "sg \<Longrightarrow> int n \<le> int_max bits sg + 1 \<Longrightarrow> n < 2 ^ magnitude_bits bits"
proof -
  have b: "bits \<le> magnitude_bits bits" using assms by (simp add: magnitude_bits_def)
  have le: "(2 :: int) ^ bits \<le> 2 ^ magnitude_bits bits" using b by (rule power_increasing) simp
  have lt: "(2 :: int) ^ (bits - 1) < 2 ^ magnitude_bits bits" by (rule power_strict_increasing) (use b assms in simp_all)
  have n: "n < 2 ^ magnitude_bits bits" if "int n < 2 ^ magnitude_bits bits" using that by (simp flip: of_nat_less_iff)
  show "int n \<le> int_max bits sg \<Longrightarrow> n < 2 ^ magnitude_bits bits"
    using n le lt unfolding int_max_def by (cases sg; simp only: if_True if_False; linarith)
  show "sg \<Longrightarrow> int n \<le> int_max bits sg + 1 \<Longrightarrow> n < 2 ^ magnitude_bits bits"
    using n lt unfolding int_max_def by (simp only: if_True; linarith)
qed

lemma Number_int_text:
  assumes "0 < bits" "bits \<le> 64"
  shows "Number bits sg (int_text v) = (if int_min bits sg \<le> v \<and> v \<le> int_max bits sg then Some v else None)"
proof -
  have pos: "Number bits sg (decimal n) = (if int n \<le> int_max bits sg then Some (int n) else None)" for n
    using decimal_no_sign [of n] int_range(1) [OF assms, of n sg] unfolding Number_def Let_def
    by (simp add: strip_base_decimal from_chars_decimal)
  have neg: "Number bits sg (CHR ''-'' # decimal n) =
    (if sg \<and> int n \<le> int_max bits sg + 1 then Some (- int n) else None)" for n
    using decimal_no_sign [of n] int_range(2) [OF assms, of sg n] unfolding Number_def Let_def
    by (auto simp: strip_base_decimal from_chars_decimal starts_with_def int_min_def int_max_def)
  show ?thesis using pos [of "nat v"] neg [of "nat (- v)"] by (auto simp: int_text_def int_min_def int_max_def)
qed

text \<open>
  C30: the decimal text of an integer is read back as that integer if the parameter's type has it, and
  refused otherwise; this holds for every width up to 64 bits, signed or not, both ends of the range
  included.
\<close>

theorem number_roundtrip:
  assumes "0 < bits" "bits \<le> 64"
  shows "Number bits sg (int_text v) = (if int_min bits sg \<le> v \<and> v \<le> int_max bits sg then Some v else None)"
  using assms by (rule Number_int_text)

theorem number_roundtrip_witness: "Number 8 True (int_text (- 128)) = Some (- 128) \<and> Number 8 True (int_text 128) = None"
  using number_roundtrip [of 8 True "- 128"] number_roundtrip [of 8 True 128] by (simp add: int_min_def int_max_def)

section \<open>Typed values\<close>

text \<open>A value is one that the declaration allows for the parameter.\<close>

fun value_ok :: "param \<Rightarrow> argument \<Rightarrow> val \<Rightarrow> bool" where
  "value_ok p d (V_int n) = (case pa_type p of
     P_int bits sg \<Rightarrow> int_min bits sg \<le> n \<and> n \<le> int_max bits sg \<and>
       (case ar_minimum d of None \<Rightarrow> True | Some l \<Rightarrow> l \<le> n) \<and> (case ar_maximum d of None \<Rightarrow> True | Some h \<Rightarrow> n \<le> h)
   | _ \<Rightarrow> False)"
| "value_ok p d (V_bool b) \<longleftrightarrow> pa_type p = P_bool"
| "value_ok p d (V_text t) \<longleftrightarrow> pa_type p = P_text"
| "value_ok p d (V_enum n) = (case pa_type p of
     P_enum own \<Rightarrow> (case (case ar_choices d of Some table \<Rightarrow> Some table | None \<Rightarrow> own) of
       None \<Rightarrow> False | Some table \<Rightarrow> n \<in> snd ` set table)
   | _ \<Rightarrow> False)"
| "value_ok p d V_none \<longleftrightarrow> pa_optional p"

lemma Number_range:
  assumes "Number bits sg text = Some v"
  shows "int_min bits sg \<le> v \<and> v \<le> int_max bits sg"
proof -
  have "0 \<le> int_max bits sg" by (simp add: int_max_def)
  moreover have "- int_min bits sg = (if sg then int_max bits sg + 1 else 0)" by (simp add: int_min_def int_max_def)
  ultimately show ?thesis using assms by (auto simp: Number_def Let_def split: if_splits prod.splits option.splits)
qed

lemma parse_choice_ok:
  assumes "parse_choice table t = Inr v"
  shows "\<exists>n. v = V_enum n \<and> n \<in> snd ` set table"
  using assms lazy_match_index [of t "map (name_of \<circ> fst) table"]
  by (auto simp: parse_choice_def Let_def split: if_splits)

lemma numeric_policy_ok:
  assumes "numeric_policy bits sg d = Some pol" "case pol of Bounds b \<Rightarrow> bits \<le> 32 \<longrightarrow> \<not> out_of_bounds b n | _ \<Rightarrow> True"
  shows "(case ar_minimum d of None \<Rightarrow> True | Some l \<Rightarrow> l \<le> n) \<and> (case ar_maximum d of None \<Rightarrow> True | Some h \<Rightarrow> n \<le> h)"
  using assms
  by (cases "ar_minimum d"; cases "ar_maximum d")
    (auto simp: numeric_policy_def out_of_bounds_def check_bound_def split: if_splits)

lemma Parse_ok:
  assumes "metadata_of p d = Some m" "Parse (pa_type p) m w = Inr v"
  shows "value_ok p d v \<and> v \<noteq> V_none"
proof (cases "pa_type p")
  case (P_int bits sg)
  obtain pol where pol: "numeric_policy bits sg d = Some pol" "am_policy m = pol"
    using assms(1) P_int by (auto simp: metadata_of_def Let_def split: if_splits option.splits)
  obtain n where n: "Number bits sg w = Some n" "v = V_int n"
    "case pol of Bounds b \<Rightarrow> bits \<le> 32 \<longrightarrow> \<not> out_of_bounds b n | _ \<Rightarrow> True"
    using assms(2) P_int pol(2) by (auto split: option.splits policy.splits if_splits)
  show ?thesis using Number_range [OF n(1)] numeric_policy_ok [OF pol(1) n(3)] n(2) P_int by simp
next
  case (P_enum own)
  obtain table where t: "(case ar_choices d of Some table \<Rightarrow> Some table | None \<Rightarrow> own) = Some table" "am_policy m = Choices table"
    using assms(1) P_enum by (auto simp: metadata_of_def choice_metadata_def Let_def split: if_splits option.splits)
  obtain n where "v = V_enum n" "n \<in> snd ` set table"
    using assms(2) parse_choice_ok [of table w v] t(2) P_enum by auto
  then show ?thesis using t(1) P_enum by simp
qed (use assms(2) in \<open>auto split: if_splits option.splits\<close>)

lemma metadata_optional: "metadata_of p d = Some m \<Longrightarrow> am_optional m = pa_optional p"
  by (auto simp: metadata_of_def choice_metadata_def Let_def split: if_splits option.splits param_type.splits)

lemma all_nat_less_Suc_split: "(\<forall>i < Suc n. P i) \<longleftrightarrow> P 0 \<and> (\<forall>i < n. P (Suc i))"
  by (auto simp: less_Suc_eq_0_disj)

lemma count_required_split:
  assumes "count_required opt k ms = Some r"
  shows "k \<le> r \<and> (\<forall>i < length ms. (\<not> am_optional (ms ! i)) = (i < r - k)) \<and> (opt \<longrightarrow> r = k)"
  using assms
proof (induction opt k ms rule: count_required.induct)
  case (2 opt required m ms)
  show ?case
  proof (cases "am_optional m")
    case True
    then have "required \<le> r" "\<forall>i < length ms. am_optional (ms ! i)" "r = required" using 2 by auto
    then show ?thesis using True by (simp add: all_nat_less_Suc_split)
  next
    case False
    then have "\<not> opt" "count_required opt (required + 1) ms = Some r" using 2(3) by (auto split: if_splits)
    from 2(2) [OF False this] have "required + 1 \<le> r" "\<forall>i < length ms. (\<not> am_optional (ms ! i)) = (i < r - (required + 1))"
      by simp_all
    moreover have "(Suc i < r - required) = (i < r - (required + 1))" for i by arith
    ultimately show ?thesis using False \<open>\<not> opt\<close> by (simp add: all_nat_less_Suc_split)
  qed
qed simp

lemma all_metadata_nth:
  assumes "all_metadata ps ds = Some ms" "length ps = length ds"
  shows "length ms = length ps \<and> (\<forall>i < length ps. metadata_of (ps ! i) (ds ! i) = Some (ms ! i))"
  using assms
proof (induction ps ds arbitrary: ms rule: all_metadata.induct)
  case (1 p ps d ds)
  obtain m ms' where m: "metadata_of p d = Some m" "all_metadata ps ds = Some ms'" "ms = m # ms'"
    using 1(2) by (auto split: option.splits)
  show ?case using 1(1) [OF m(2)] 1(3) m(1,3) by (simp add: all_nat_less_Suc_split)
qed simp_all

lemma parse_values_nth:
  assumes "parse_values ps ms args = Inr vs" "length ms = length ps"
  shows "length vs = length ps \<and> (\<forall>i < length ps. if i < length args then Parse (pa_type (ps ! i)) (ms ! i) (args ! i) = Inr (vs ! i)
    else vs ! i = default_value (ps ! i))"
  using assms
proof (induction ps ms args arbitrary: vs rule: parse_values.induct)
  case (3 p ps ms a args)
  obtain v vs' where v: "Parse (pa_type p) (hd ms) a = Inr v" "parse_values ps (tl ms) args = Inr vs'" "vs = v # vs'"
    using 3(2) by (auto split: sum.splits)
  have ms: "ms = hd ms # tl ms" "length (tl ms) = length ps" using 3(3) by (cases ms; simp)+
  note ih = 3(1) [OF v(1,2) ms(2)]
  show ?case
  proof (intro conjI allI impI)
    show "length vs = length (p # ps)" using ih v(3) by simp
    fix i assume i: "i < length (p # ps)"
    show "if i < length (a # args) then Parse (pa_type ((p # ps) ! i)) (ms ! i) ((a # args) ! i) = Inr (vs ! i)
      else vs ! i = default_value ((p # ps) ! i)"
    proof (cases i)
      case 0
      then show ?thesis using v(1,3) ms(1) by (metis length_Cons nth_Cons_0 zero_less_Suc)
    next
      case (Suc k)
      then have "ms ! i = tl ms ! k" using ms(1) by (metis nth_Cons_Suc)
      then show ?thesis using ih i Suc v(3) by simp
    qed
  qed
qed (auto simp: nth_Cons split: nat.split)

text \<open>
  C9: a handler is called only with values that its declarations allow. Each word given is a value of the
  parameter's type within the declared bounds, or one of the declared choices; the parameters that were
  not given are optional, and the handler sees them as absent.
\<close>

theorem handler_typed:
  assumes "command (H_typed ps f) name help ds = Some c" "call_command c words = Inr h"
  shows "\<exists>vs. h = f vs \<and> length vs = length ps \<and> length words \<le> length ps \<and>
    (\<forall>i < length ps. value_ok (ps ! i) (ds ! i) (vs ! i) \<and> (vs ! i = V_none) = (length words \<le> i))"
proof -
  obtain ms r where c: "length ps = length ds" "all_metadata ps ds = Some ms" "count_required False 0 ms = Some r"
    "cd_callback c = H_typed ps f" "cd_arguments c = ms" "cd_count c = length ps" "cd_required c = r"
    using assms(1) by (auto simp: command_def Let_def split: if_splits option.splits)
  obtain vs where w: "r \<le> length words" "length words \<le> length ps" "parse_values ps ms words = Inr vs" "h = f vs"
    using assms(2) c(4-7) by (auto simp: call_command_def not_less split: if_splits sum.splits)
  have m: "length ms = length ps" "\<And>i. i < length ps \<Longrightarrow> metadata_of (ps ! i) (ds ! i) = Some (ms ! i)"
    using all_metadata_nth [OF c(2,1)] by simp_all
  note v = parse_values_nth [OF w(3) m(1)]
  have "value_ok (ps ! i) (ds ! i) (vs ! i) \<and> (vs ! i = V_none) = (length words \<le> i)" if i: "i < length ps" for i
  proof (cases "i < length words")
    case True
    then show ?thesis using Parse_ok [OF m(2) [OF i], of "words ! i" "vs ! i"] v i by simp
  next
    case False
    have "(\<not> am_optional (ms ! i)) = (i < r)" using count_required_split [OF c(3)] m(1) i by simp
    then have "am_optional (ms ! i)" using False w(1) by simp
    then have "pa_optional (ps ! i)" using metadata_optional [OF m(2) [OF i]] by simp
    then show ?thesis using False v i by simp
  qed
  then show ?thesis using w v by blast
qed

definition ex_params :: "param list" where
  "ex_params = [\<lparr>pa_type = P_int 8 False, pa_optional = False\<rparr>, \<lparr>pa_type = P_bool, pa_optional = True\<rparr>]"

definition ex_declarations :: "argument list" where
  "ex_declarations = [arg_range 1 250 (arg (Some ''level'')), arg_friendly (arg (Some ''on''))]"

lemma ex_number: "Number 8 False ''0xc8'' = Some 200"
  by (simp add: Number_def starts_with_def strip_base_def from_chars_def is_digit_def digit_value_def digits_value_def
      magnitude_bits_def int_max_def Let_def)

lemma ex_call:
  "\<exists>c. command (H_typed ex_params id) (Some ''set'') (Some ''h'') ex_declarations = Some c \<and>
     call_command c [''0xc8''] = Inr [V_int 200, V_none]"
  by (simp add: ex_params_def ex_declarations_def command_def arg_range_def arg_min_def arg_max_def arg_friendly_def
      arg_def metadata_of_def numeric_policy_def check_bound_def int_min_def int_max_def name_missing_def
      name_of_def CommandParameterCapacity_def call_command_def ex_number out_of_bounds_def Let_def)

theorem handler_typed_witness:
  "\<exists>c. command (H_typed ex_params id) (Some ''set'') (Some ''h'') ex_declarations = Some c \<and>
     call_command c [''0xc8''] = Inr [V_int 200, V_none] \<and>
     value_ok (ex_params ! 0) (ex_declarations ! 0) (V_int 200) \<and> value_ok (ex_params ! 1) (ex_declarations ! 1) V_none"
proof -
  obtain c where c: "command (H_typed ex_params id) (Some ''set'') (Some ''h'') ex_declarations = Some c"
    "call_command c [''0xc8''] = Inr [V_int 200, V_none]"
    using ex_call by blast
  have l: "0 < length ex_params" "1 < length ex_params" by (simp_all add: ex_params_def)
  obtain vs where vs: "[V_int 200, V_none] = id vs"
    "\<forall>i < length ex_params. value_ok (ex_params ! i) (ex_declarations ! i) (vs ! i) \<and> (vs ! i = V_none) = (length [''0xc8''] \<le> i)"
    using handler_typed [OF c] by blast
  have "value_ok (ex_params ! 0) (ex_declarations ! 0) (vs ! 0)" "value_ok (ex_params ! 1) (ex_declarations ! 1) (vs ! 1)"
    using vs(2) l by blast+
  moreover have "vs ! 0 = V_int 200" "vs ! 1 = V_none" using vs(1) [symmetric] by simp_all
  ultimately show ?thesis using c by metis
qed

end
