(* ===== verification/Log_Format.thy ===== *)
theory Log_Format
  imports Arguments
begin

text \<open>
  The presentation of numbers and of log records (lib/core/logging/log.hpp and log_format.hpp).
  \<open>%u\<close> of \<open>snprintf\<close> is the decimal numeral, padded with zeros to the width; the output is cut
  to the size of the buffer less one.
\<close>

datatype level = L_debug | L_info | L_warning | L_error | L_fatal

fun level_index :: "level \<Rightarrow> nat" where
  "level_index L_debug = 0"
| "level_index L_info = 1"
| "level_index L_warning = 2"
| "level_index L_error = 3"
| "level_index L_fatal = 4"

record log_record =
  lr_timestamp :: time
  lr_severity :: level
  lr_module :: string
  lr_task :: string
  lr_message :: string

definition snprintf :: "nat \<Rightarrow> string \<Rightarrow> string" where
  "snprintf capacity text = take (capacity - 1) text"

definition pad_zero :: "nat \<Rightarrow> string \<Rightarrow> string" where
  "pad_zero width text = replicate (width - length text) CHR ''0'' @ text"

definition pad_right :: "nat \<Rightarrow> string \<Rightarrow> string" where
  "pad_right width text = text @ replicate (width - length text) CHR '' ''"

definition u32_max :: u64 where
  "u32_max = 0xffffffff"

definition LogUnsigned :: "u64 \<Rightarrow> string" where
  "LogUnsigned v = snprintf 12
     (decimal (unat (if v > u32_max then u32_max else v)) @ (if v > u32_max then ''+'' else []))"

text \<open>The loop of \<open>LogAverage\<close>: ten additions of the remainder, modulo the count.\<close>

fun average_loop :: "nat \<Rightarrow> u64 \<Rightarrow> u64 \<Rightarrow> u32 \<Rightarrow> u64 \<Rightarrow> u32 \<times> u64" where
  "average_loop 0 count remainder digit fraction = (digit, fraction)"
| "average_loop (Suc i) count remainder digit fraction =
     (if fraction \<ge> count - remainder
      then average_loop i count remainder (digit + 1) (fraction - (count - remainder))
      else average_loop i count remainder digit (fraction + remainder))"

definition average_parts :: "u64 \<Rightarrow> u64 \<Rightarrow> (u64 \<times> u32) option" where
  "average_parts whole_sum count =
     (let whole = (if count \<noteq> 0 then whole_sum div count else 0);
          remainder = (if count \<noteq> 0 then whole_sum mod count else 0)
      in if whole > u32_max \<or> (whole = u32_max \<and> remainder \<noteq> 0) then None
         else if count \<noteq> 0 then
           (case average_loop 10 count remainder 0 0 of (digit, fraction) \<Rightarrow>
              let digit = (if fraction \<ge> count div 2 + count mod 2 then digit + 1 else digit)
              in Some (if digit = 10 then (whole + 1, 0) else (whole, digit)))
         else Some (whole, 0))"

definition LogAverage :: "u64 \<Rightarrow> u64 \<Rightarrow> string" where
  "LogAverage whole_sum count = snprintf 13 (case average_parts whole_sum count of
       None \<Rightarrow> decimal (unat u32_max) @ ''+''
     | Some (whole, digit) \<Rightarrow> decimal (unat whole mod 2 ^ 32) @ ''.'' @ decimal (unat digit))"

definition log_context :: "nat \<Rightarrow> log_record \<Rightarrow> string" where
  "log_context width r =
     (let text = lr_module r @ ''.'' @ lr_task r;
          context = snprintf (width + 1) text
      in if length text > width then take (width - 3) context @ ''...'' else context)"

definition LogPrefix :: "nat \<Rightarrow> log_record \<Rightarrow> string" where
  "LogPrefix width r =
     (let milliseconds = lr_timestamp r div 1000;
          seconds = milliseconds div 1000;
          minutes = seconds div 60;
          hours = minutes div 60
      in snprintf (width + 40)
           (''['' @ pad_zero 3 (decimal (unat (hours div 24) mod 2 ^ 32)) @ '':'' @ pad_zero 2 (decimal (unat (hours mod 24))) @
            '':'' @ pad_zero 2 (decimal (unat (minutes mod 60))) @ '':'' @ pad_zero 2 (decimal (unat (seconds mod 60))) @
            ''.'' @ pad_zero 3 (decimal (unat (milliseconds mod 1000))) @ ''] '' @ [''DIWEF'' ! level_index (lr_severity r)] @ '' '' @
            pad_right width (log_context width r) @ '': ''))"

section \<open>Averages\<close>

lemma unat_64: "unat (x :: u64) < 2 ^ 64"
proof -
  have "unat x < 2 ^ LENGTH(64)" by (rule unsigned_less)
  then show ?thesis by simp
qed

text \<open>The loop computes the quotient and the remainder of \<open>n\<close> times the remainder by the count.\<close>

lemma average_loop_exact:
  assumes "unat remainder < unat count" "unat fraction < unat count" "unat digit + i < 2 ^ 32"
    and "average_loop i count remainder digit fraction = (digit', fraction')"
  shows "unat fraction' < unat count \<and>
    unat digit' * unat count + unat fraction' = unat digit * unat count + unat fraction + i * unat remainder"
  using assms
proof (induction i arbitrary: digit fraction)
  case (Suc i)
  have c: "unat (count - remainder) = unat count - unat remainder"
    using Suc.prems(1) by (simp add: unat_sub word_less_nat_alt less_imp_le)
  show ?case
  proof (cases "fraction \<ge> count - remainder")
    case True
    then have f: "unat (fraction - (count - remainder)) = unat fraction + unat remainder - unat count"
      and ge: "unat count \<le> unat fraction + unat remainder"
      using c Suc.prems(1) by (simp_all add: unat_sub word_le_nat_alt)
    have d: "unat (digit + 1) = unat digit + 1" using Suc.prems(3) by (simp add: unat_word_ariths)
    have "average_loop i count remainder (digit + 1) (fraction - (count - remainder)) = (digit', fraction')"
      using Suc.prems(4) True by simp
    from Suc.IH [OF Suc.prems(1) _ _ this] show ?thesis
      using f ge d Suc.prems(1-3) by (simp add: algebra_simps)
  next
    case False
    then have lt: "unat fraction + unat remainder < unat count" using c by (simp add: word_le_nat_alt)
    then have f: "unat (fraction + remainder) = unat fraction + unat remainder"
      using unat_64 [of count] by (simp add: unat_word_ariths)
    have "average_loop i count remainder digit (fraction + remainder) = (digit', fraction')"
      using Suc.prems(4) False by simp
    from Suc.IH [OF Suc.prems(1) _ _ this] show ?thesis
      using f lt Suc.prems(3) by (simp add: algebra_simps)
  qed
qed simp

lemma round_half_up:
  fixes w r c d f :: nat
  assumes "r < c" "d * c + f = 10 * r" "f < c"
  shows "(20 * (w * c + r) + c) div (2 * c) = 10 * w + d + (if c div 2 + c mod 2 \<le> f then 1 else 0)"
proof (cases "c div 2 + c mod 2 \<le> f")
  case True
  then have "c \<le> 2 * f" by presburger
  have "20 * (w * c + r) + c = (10 * w + d + 1) * (2 * c) + (2 * f - c)"
    using \<open>c \<le> 2 * f\<close> assms(2) by (simp add: algebra_simps)
  moreover have "2 * f - c < 2 * c" using assms(3) by simp
  ultimately have "(20 * (w * c + r) + c) div (2 * c) = 10 * w + d + 1" by (metis div_mult_self3 add.commute div_less add_0 mult.commute not_less_zero)
  then show ?thesis using True by simp
next
  case False
  then have "2 * f < c" by presburger
  have "20 * (w * c + r) + c = (10 * w + d) * (2 * c) + (2 * f + c)"
    using assms(2) by (simp add: algebra_simps)
  moreover have "2 * f + c < 2 * c" using \<open>2 * f < c\<close> by simp
  ultimately have "(20 * (w * c + r) + c) div (2 * c) = 10 * w + d" by (metis div_mult_self3 add.commute div_less add_0 mult.commute not_less_zero)
  then show ?thesis using False by simp
qed

lemma unat_u32_max: "unat u32_max = 2 ^ 32 - 1"
  by (simp add: u32_max_def)

lemma average_digit:
  assumes "0 < count" "average_loop 10 count (whole_sum mod count) 0 0 = (digit, fraction)"
  defines "up \<equiv> fraction \<ge> count div 2 + count mod 2"
  shows "unat (if up then digit + 1 else digit) \<le> 10 \<and>
    10 * unat (whole_sum div count) + unat (if up then digit + 1 else digit) =
      (20 * unat whole_sum + unat count) div (2 * unat count)"
proof -
  let ?c = "unat count" and ?r = "unat (whole_sum mod count)" and ?w = "unat (whole_sum div count)"
  have c: "0 < ?c" "?r < ?c" using assms(1) by (simp_all add: word_greater_zero_iff unat_gt_0 unat_mod)
  have l: "unat fraction < ?c" "unat digit * ?c + unat fraction = 10 * ?r"
    using average_loop_exact [OF c(2) _ _ assms(2)] c(1) by simp_all
  have "unat digit * ?c < 10 * ?c" using l c by linarith
  then have d: "unat digit < 10" by simp
  have "unat (count div 2 + count mod 2) = ?c div 2 + ?c mod 2"
  proof -
    have "?c div 2 + ?c mod 2 < 2 ^ 64" using unat_64 [of count] by simp
    then show ?thesis by (simp add: unat_word_ariths unat_div unat_mod)
  qed
  then have u: "up \<longleftrightarrow> ?c div 2 + ?c mod 2 \<le> unat fraction" by (simp add: up_def word_le_nat_alt)
  have "unat (digit + 1) = unat digit + 1" using d by (simp add: unat_word_ariths)
  moreover have "unat whole_sum = ?w * ?c + ?r" by (simp add: unat_div unat_mod)
  ultimately show ?thesis using round_half_up [OF c(2) l(2,1), of ?w] u d by simp
qed

text \<open>
  C33: an average is shown rounded half up to one decimal. The digits are those of the exact quotient of
  the 64-bit sum and count, whatever their size; \<open>4294967295+\<close> is shown only for a quotient above
  4294967295, and nothing for which the sum, ten times the sum or the count would overflow is wrong.
\<close>

theorem average_rounded:
  assumes "0 < count"
  shows "case average_parts whole_sum count of
      None \<Rightarrow> unat whole_sum > (2 ^ 32 - 1) * unat count
    | Some (whole, digit) \<Rightarrow> unat whole < 2 ^ 32 \<and> unat digit < 10 \<and>
        10 * unat whole + unat digit = (20 * unat whole_sum + unat count) div (2 * unat count)"
proof -
  let ?c = "unat count" and ?r = "unat (whole_sum mod count)" and ?w = "unat (whole_sum div count)"
  have s: "unat whole_sum = ?w * ?c + ?r" by (simp add: unat_div unat_mod)
  have c: "0 < ?c" "count \<noteq> 0" using assms by (simp_all add: word_greater_zero_iff unat_gt_0)
  show ?thesis
  proof (cases "whole_sum div count > u32_max \<or> (whole_sum div count = u32_max \<and> whole_sum mod count \<noteq> 0)")
    case True
    then have "?w \<ge> 2 ^ 32 \<or> ?w = 2 ^ 32 - 1 \<and> 0 < ?r"
      by (auto simp: word_less_nat_alt unat_u32_max unat_gt_0)
    then have "(2 ^ 32 - 1) * ?c < unat whole_sum"
    proof
      assume "?w \<ge> 2 ^ 32"
      then have "2 ^ 32 * ?c \<le> ?w * ?c" by (rule mult_le_mono1)
      moreover have "(2 ^ 32 - 1) * ?c < 2 ^ 32 * ?c" using c(1) by simp
      ultimately show ?thesis using s by linarith
    qed (use s in simp)
    then show ?thesis using True c(2) by (simp add: average_parts_def Let_def)
  next
    case False
    obtain digit fraction where l: "average_loop 10 count (whole_sum mod count) 0 0 = (digit, fraction)" by fastforce
    let ?d = "if fraction \<ge> count div 2 + count mod 2 then digit + 1 else digit"
    note a = average_digit [OF assms l]
    have w1: "?w < 2 ^ 32" using False by (auto simp: word_less_nat_alt unat_u32_max)
    have w2: "?w < 2 ^ 32 - 1" if "?d = 10"
    proof (rule ccontr)
      assume "\<not> ?w < 2 ^ 32 - 1"
      then have "?w = unat u32_max" using w1 by (simp add: unat_u32_max)
      then have "?r = 0" using False by (simp add: word_unat_eq_iff)
      then have "20 * unat whole_sum + ?c = ?c + 10 * ?w * (2 * ?c)" using s by simp
      then have "(20 * unat whole_sum + ?c) div (2 * ?c) = 10 * ?w + ?c div (2 * ?c)"
        using c(1) by (metis div_mult_self1 mult_eq_0_iff not_gr_zero zero_neq_numeral)
      then show False using a that c(1) by simp
    qed
    have ten: "?d \<noteq> 10 \<Longrightarrow> unat ?d \<noteq> 10" by (simp add: word_unat_eq_iff)
    have "average_parts whole_sum count = Some (if ?d = 10 then (whole_sum div count + 1, 0) else (whole_sum div count, ?d))"
      using False c(2) l by (simp add: average_parts_def Let_def)
    moreover have "unat (whole_sum div count + 1) = ?w + 1" using w1 by (simp add: unat_word_ariths)
    ultimately show ?thesis using a w1 w2 ten by auto
  qed
qed

theorem average_rounded_witness:
  "case average_parts 29 20 of None \<Rightarrow> False
   | Some (whole, digit) \<Rightarrow> 10 * unat whole + unat digit = (20 * unat (29 :: u64) + unat (20 :: u64)) div (2 * unat (20 :: u64))"
  using average_rounded [of 20 29] by (auto split: option.splits)

section \<open>Buffers\<close>

lemma decimal_length:
  assumes "n < 10 ^ k" "0 < k"
  shows "length (decimal n) \<le> k"
  using assms
proof (induction n arbitrary: k rule: decimal.induct)
  case (1 n)
  show ?case
  proof (cases "n < 10")
    case False
    then have "k \<noteq> 1" using 1(2) by auto
    then have "1 < k" using 1(3) by simp
    then have "n div 10 < 10 ^ (k - 1)" using 1(2) by (cases k) (auto simp: div_less_iff_less_mult mult.commute)
    then have "length (decimal (n div 10)) \<le> k - 1" using 1(1) [OF False] \<open>1 < k\<close> by simp
    then show ?thesis using False \<open>1 < k\<close> by (subst decimal.simps) simp
  qed (use 1 in \<open>simp add: decimal.simps\<close>)
qed

text \<open>
  C34: a number that the log shows is read back by the command parser: up to 4294967295 the text is the
  value in full, above it is \<open>4294967295+\<close>, and in both cases nothing is cut off by the buffer.
\<close>

theorem log_unsigned_roundtrip:
  "if v > u32_max then LogUnsigned v = ''4294967295+'' else Number 32 False (LogUnsigned v) = Some (uint v)"
proof (cases "v > u32_max")
  case True
  have "decimal 4294967295 = ''4294967295''" by (simp add: decimal.simps digit_char_def char_of_def bit_0)
  then show ?thesis using True by (simp add: LogUnsigned_def snprintf_def unat_u32_max)
next
  case False
  then have v: "unat v \<le> 2 ^ 32 - 1" by (simp add: word_less_nat_alt unat_u32_max not_less)
  then have "length (decimal (unat v)) \<le> 10" by (intro decimal_length) simp_all
  then have "LogUnsigned v = int_text (uint v)" using False by (simp add: LogUnsigned_def snprintf_def int_text_def)
  moreover have "uint v \<le> 4294967295" using False by (simp add: u32_max_def word_le_def not_less)
  ultimately show ?thesis using False Number_int_text [of 32 False "uint v"] by (simp add: int_min_def int_max_def)
qed

lemma log_context_length:
  assumes "3 \<le> width"
  shows "length (log_context width r) \<le> width"
proof -
  obtain t where t: "t = lr_module r @ ''.'' @ lr_task r" by simp
  show ?thesis using assms unfolding log_context_def snprintf_def Let_def t [symmetric] by (simp; linarith)
qed

lemma pad_length [simp]: "length (pad_zero w t) = max w (length t)" "length (pad_right w t) = max w (length t)"
  by (auto simp: pad_zero_def pad_right_def)

lemma decimal_2: "n < 100 \<Longrightarrow> length (decimal n) \<le> 2" and decimal_3: "n < 1000 \<Longrightarrow> length (decimal n) \<le> 3"
  by (rule decimal_length; simp)+

text \<open>
  C35: the prefix of a log line fits its buffer at every timestamp, so that nothing of it is cut off, and
  it is aligned: its length depends only on the width of the context and the digits of the days.
\<close>

theorem log_prefix_aligned:
  assumes "3 \<le> width"
  shows "length (LogPrefix width r) = width + 20 + max 3 (length (decimal (unat (lr_timestamp r) div 86400000000)))"
proof -
  let ?t = "lr_timestamp r"
  have d: "unat (?t div 1000 div 1000 div 60 div 60 div 24) = unat ?t div 86400000000"
    by (simp add: unat_div div_mult2_eq [symmetric])
  have days: "unat ?t div 86400000000 < 10 ^ 9" using unat_64 [of ?t] by (simp add: div_less_iff_less_mult)
  then have "unat ?t div 86400000000 mod 2 ^ 32 = unat ?t div 86400000000" by simp
  moreover have "length (decimal (unat ?t div 86400000000)) \<le> 9" using days by (rule decimal_length) simp
  moreover have "length (decimal (unat (?t div 1000 div 1000 div 60 div 60 mod 24))) \<le> 2"
    "length (decimal (unat (?t div 1000 div 1000 div 60 mod 60))) \<le> 2"
    "length (decimal (unat (?t div 1000 div 1000 mod 60))) \<le> 2" "length (decimal (unat (?t div 1000 mod 1000))) \<le> 3"
    by (rule decimal_2 decimal_3; simp add: unat_mod; fail)+
  ultimately show ?thesis using log_context_length [OF assms, of r]
    by (simp only: LogPrefix_def snprintf_def Let_def d) (simp add: max_def)
qed

theorem log_prefix_aligned_witness:
  "length (LogPrefix 22 \<lparr>lr_timestamp = 0, lr_severity = L_info, lr_module = ''m'', lr_task = ''t'', lr_message = []\<rparr>) = 45"
  using log_prefix_aligned [of 22 "\<lparr>lr_timestamp = 0, lr_severity = L_info, lr_module = ''m'', lr_task = ''t'', lr_message = []\<rparr>"]
  by (simp add: decimal.simps)

end
