(* ===== verification/Logger.thy ===== *)
theory Logger
  imports Scheduler_Select Log_Format
begin

text \<open>
  The buffered logger of lib/core/logging/logger.hpp over the ring buffer. The text that \<open>vsnprintf\<close>
  forms for a call is given with the call: \<open>None\<close> for a null format, \<open>Some None\<close> when the formatting
  fails. \<open>lo_world\<close> is the state of the subscribers; a subscriber may call the logger again.
\<close>

section \<open>Logger\<close>

record stored =
  so_timestamp :: time
  so_severity :: level
  so_context :: call_context
  so_text :: string

record log_counters =
  lc_dropped :: u64
  lc_truncated :: u64

record 'u logger =
  lo_platform :: platform
  lo_message_size :: nat
  lo_records :: "stored ring"
  lo_minimum :: level
  lo_counters :: log_counters
  lo_world :: 'u

type_synonym 'u subscriber = "(log_record \<Rightarrow> 'u logger \<Rightarrow> 'u logger) option"

definition outside_context :: "string \<Rightarrow> string \<Rightarrow> callback_kind \<Rightarrow> call_context" where
  "outside_context m t k = \<lparr>ctx_module = m, ctx_task = t, ctx_kind = k, ctx_scheduler = False\<rparr>"

definition log_write ::
  "'u subscriber list \<Rightarrow> level \<Rightarrow> string option option \<Rightarrow> 'u logger \<Rightarrow> status \<times> 'u logger" where
  "log_write subs lvl format l =
     (case format of
        None \<Rightarrow> (S_invalid_argument, l)
      | Some formatted \<Rightarrow>
          if level_index lvl < level_index (lo_minimum l) \<or> subs = [] then (S_ok, l)
          else case formatted of
            None \<Rightarrow> (S_invalid_argument, l)
          | Some text \<Rightarrow>
              let truncated = length text \<ge> lo_message_size l;
                  entry = \<lparr>so_timestamp = pl_now (lo_platform l), so_severity = lvl,
                    so_context = (if pl_in_interrupt (lo_platform l) then outside_context ''core'' ''interrupt'' CK_outside
                                  else pl_context (lo_platform l)),
                    so_text = take (if truncated then lo_message_size l - 1 else length text) text\<rparr>
              in if rb_full (lo_records l) then
                   (S_full, l\<lparr>lo_counters := (lo_counters l)\<lparr>lc_dropped := lc_dropped (lo_counters l) + 1\<rparr>\<rparr>)
                 else
                   (if truncated then S_truncated else S_ok,
                    l\<lparr>lo_counters := (if truncated
                         then (lo_counters l)\<lparr>lc_truncated := lc_truncated (lo_counters l) + 1\<rparr> else lo_counters l),
                      lo_records := snd (rb_push entry (lo_records l)),
                      lo_platform := pl_notify (lo_platform l)\<rparr>))"

definition log_view :: "stored \<Rightarrow> log_record" where
  "log_view e = \<lparr>lr_timestamp = so_timestamp e, lr_severity = so_severity e, lr_module = ctx_module (so_context e),
     lr_task = ctx_task (so_context e), lr_message = so_text e\<rparr>"

definition empty_stored :: stored where
  "empty_stored = \<lparr>so_timestamp = 0, so_severity = L_debug, so_context = outside_context ''core'' ''init'' CK_outside, so_text = []\<rparr>"

fun deliver :: "log_record \<Rightarrow> 'u subscriber list \<Rightarrow> 'u logger \<Rightarrow> 'u logger" where
  "deliver r [] l = l"
| "deliver r (None # subs) l = deliver r subs l"
| "deliver r (Some f # subs) l = deliver r subs (f r l)"

definition log_dispatch :: "'u subscriber list \<Rightarrow> 'u logger \<Rightarrow> bool \<times> 'u logger" where
  "log_dispatch subs l =
     (case rb_pop empty_stored (lo_records l) of (st, e, q) \<Rightarrow>
        if st \<noteq> S_ok then (False, l)
        else
          let previous = pl_context (lo_platform l);
              l = l\<lparr>lo_records := q,
                     lo_platform := (lo_platform l)\<lparr>pl_context := outside_context ''core'' ''logging'' CK_logging\<rparr>\<rparr>;
              l = deliver (log_view e) subs l
          in (True, l\<lparr>lo_platform := (lo_platform l)\<lparr>pl_context := previous\<rparr>\<rparr>))"

text \<open>\<open>flush\<close> may go on for ever if the subscribers keep logging.\<close>

partial_function (option) log_flush :: "'u subscriber list \<Rightarrow> 'u logger \<Rightarrow> 'u logger option" where
  "log_flush subs l = (case log_dispatch subs l of (again, l') \<Rightarrow> if again then log_flush subs l' else Some l')"

definition log_minimum :: "level \<Rightarrow> 'u logger \<Rightarrow> 'u logger" where
  "log_minimum lvl l = l\<lparr>lo_minimum := lvl\<rparr>"

definition log_empty :: "'u logger \<Rightarrow> bool" where
  "log_empty l \<longleftrightarrow> rb_empty (lo_records l)"

definition log_reset :: "'u logger \<Rightarrow> 'u logger" where
  "log_reset l = l\<lparr>lo_counters := \<lparr>lc_dropped = 0, lc_truncated = 0\<rparr>\<rparr>"

section \<open>Delivery\<close>

text \<open>Subscribers that only change their own state.\<close>

definition plain :: "(log_record \<Rightarrow> 'u \<Rightarrow> 'u) list \<Rightarrow> 'u subscriber list" where
  "plain fs = map (\<lambda>f. Some (\<lambda>r l. l\<lparr>lo_world := f r (lo_world l)\<rparr>)) fs"

lemma deliver_plain: "deliver r (plain fs) l = l\<lparr>lo_world := fold (\<lambda>f. f r) fs (lo_world l)\<rparr>"
  by (induction fs arbitrary: l) (simp_all add: plain_def)

definition delivered :: "(log_record \<Rightarrow> 'u \<Rightarrow> 'u) list \<Rightarrow> stored list \<Rightarrow> 'u \<Rightarrow> 'u" where
  "delivered fs es = fold (\<lambda>e. fold (\<lambda>f. f (log_view e)) fs) es"

lemma dispatch_plain:
  assumes "rb_inv (lo_records l)"
  shows "case rb_list (lo_records l) of
      [] \<Rightarrow> log_dispatch (plain fs) l = (False, l)
    | e # es \<Rightarrow> \<exists>q. rb_inv q \<and> rb_list q = es \<and>
        log_dispatch (plain fs) l = (True, l\<lparr>lo_records := q, lo_world := delivered fs [e] (lo_world l)\<rparr>)"
proof (cases "rb_list (lo_records l)")
  case Nil
  then show ?thesis using rb.pop_empty [OF assms Nil] by (simp add: log_dispatch_def)
next
  case (Cons e es)
  obtain st y q where p: "rb_pop empty_stored (lo_records l) = (st, y, q)" by (metis prod_cases3)
  note i = rb.pop_item [OF assms Cons p]
  then have "log_dispatch (plain fs) l = (True, l\<lparr>lo_records := q, lo_world := delivered fs [e] (lo_world l)\<rparr>)"
    using p by (simp add: log_dispatch_def Let_def deliver_plain delivered_def)
  then show ?thesis using i Cons by auto
qed

text \<open>
  C36: \<open>flush\<close> returns when the subscribers do not log: every buffered record has then been given to every
  subscriber, in the order in which they were logged, the buffer is empty, and the rest of the logger
  (the context of the platform included) is as it was.
\<close>

theorem flush_delivers:
  assumes "rb_inv (lo_records l)"
  shows "\<exists>q. rb_list q = [] \<and> log_flush (plain fs) l =
    Some (l\<lparr>lo_records := q, lo_world := delivered fs (rb_list (lo_records l)) (lo_world l)\<rparr>)"
  using assms
proof (induction "rb_list (lo_records l)" arbitrary: l)
  case Nil
  then have "log_dispatch (plain fs) l = (False, l)" using dispatch_plain [of l fs] by simp
  then have "log_flush (plain fs) l = Some l" by (subst log_flush.simps) simp
  then show ?case using Nil by (intro exI [of _ "lo_records l"]) (simp add: delivered_def)
next
  case (Cons e es)
  then obtain q where q: "rb_inv q" "rb_list q = es"
    "log_dispatch (plain fs) l = (True, l\<lparr>lo_records := q, lo_world := delivered fs [e] (lo_world l)\<rparr>)"
    using dispatch_plain [of l fs] by (auto split: list.splits)
  let ?l = "l\<lparr>lo_records := q, lo_world := delivered fs [e] (lo_world l)\<rparr>"
  obtain q' where "rb_list q' = []" "log_flush (plain fs) ?l =
    Some (?l\<lparr>lo_records := q', lo_world := delivered fs es (lo_world ?l)\<rparr>)"
    using Cons.hyps(1) [of ?l] q(1,2) by auto
  moreover have "log_flush (plain fs) l = log_flush (plain fs) ?l" using q(3) by (subst log_flush.simps) simp
  ultimately show ?case using Cons.hyps(2) [symmetric] by (intro exI [of _ q']) (simp add: delivered_def)
qed

theorem flush_delivers_witness:
  "\<exists>q. rb_list q = [] \<and> log_flush (plain [\<lambda>r w. w @ [lr_message r]])
     \<lparr>lo_platform = ex_platform, lo_message_size = 8, lo_records = \<lparr>rb_items = [empty_stored\<lparr>so_text := ''b''\<rparr>, empty_stored\<lparr>so_text := ''a''\<rparr>],
        rb_head = 1, rb_count = 2\<rparr>, lo_minimum = L_info, lo_counters = \<lparr>lc_dropped = 0, lc_truncated = 0\<rparr>, lo_world = []\<rparr> =
     Some \<lparr>lo_platform = ex_platform, lo_message_size = 8, lo_records = q, lo_minimum = L_info,
        lo_counters = \<lparr>lc_dropped = 0, lc_truncated = 0\<rparr>, lo_world = [''a'', ''b'']\<rparr>"
proof -
  let ?q = "\<lparr>rb_items = [empty_stored\<lparr>so_text := ''b''\<rparr>, empty_stored\<lparr>so_text := ''a''\<rparr>], rb_head = 1, rb_count = 2\<rparr>"
  let ?l = "\<lparr>lo_platform = ex_platform, lo_message_size = 8, lo_records = ?q, lo_minimum = L_info,
    lo_counters = \<lparr>lc_dropped = 0, lc_truncated = 0\<rparr>, lo_world = []\<rparr>"
  have "rb_inv (lo_records ?l)" "rb_list (lo_records ?l) = [empty_stored\<lparr>so_text := ''a''\<rparr>, empty_stored\<lparr>so_text := ''b''\<rparr>]"
    by (simp_all add: rb_inv_def rb_list_def rb_capacity_def upt_rec)
  then show ?thesis using flush_delivers [of ?l "[\<lambda>r w. w @ [lr_message r]]"] by (simp add: delivered_def log_view_def)
qed

section \<open>Buffering\<close>

text \<open>
  C37: a message that is logged is buffered last, cut to the message size less one, and the call says so;
  when the buffer is full the message is dropped and counted and the buffer is unchanged. Messages
  below the threshold leave the logger as it is.
\<close>

theorem write_buffers:
  assumes "rb_inv (lo_records l)" "log_write subs lvl (Some (Some text)) l = (st, l')"
    and "level_index (lo_minimum l) \<le> level_index lvl" "subs \<noteq> []" "0 < lo_message_size l"
  shows "if length (rb_list (lo_records l)) = rb_capacity (lo_records l)
    then st = S_full \<and> lo_records l' = lo_records l \<and> lc_dropped (lo_counters l') = lc_dropped (lo_counters l) + 1
    else rb_inv (lo_records l') \<and> st = (if length text < lo_message_size l then S_ok else S_truncated) \<and>
      (\<exists>e. rb_list (lo_records l') = rb_list (lo_records l) @ [e] \<and> so_severity e = lvl \<and>
         so_timestamp e = pl_now (lo_platform l) \<and> so_text e = take (lo_message_size l - 1) text)"
proof -
  have f: "rb_full (lo_records l) \<longleftrightarrow> length (rb_list (lo_records l)) = rb_capacity (lo_records l)"
    by (simp add: rb_full_def rb_list_def)
  show ?thesis
  proof (cases "rb_full (lo_records l)")
    case True
    then show ?thesis using assms(2-) f by (auto simp: log_write_def Let_def)
  next
    case False
    define e where "e = \<lparr>so_timestamp = pl_now (lo_platform l), so_severity = lvl,
      so_context = (if pl_in_interrupt (lo_platform l) then outside_context ''core'' ''interrupt'' CK_outside
                    else pl_context (lo_platform l)),
      so_text = take (if lo_message_size l \<le> length text then lo_message_size l - 1 else length text) text\<rparr>"
    obtain s' q where p: "rb_push e (lo_records l) = (s', q)" by fastforce
    have room: "length (rb_list (lo_records l)) < rb_capacity (lo_records l)"
      using False f rb.bound [OF assms(1)] by simp
    note r = rb.push_room [OF assms(1) room p]
    have l': "lo_records l' = q" "st = (if length text < lo_message_size l then S_ok else S_truncated)"
      using assms(2-4) False p by (auto simp: log_write_def Let_def e_def)
    have "so_text e = take (lo_message_size l - 1) text" using assms(5) by (auto simp: e_def)
    then have "so_severity e = lvl \<and> so_timestamp e = pl_now (lo_platform l) \<and> so_text e = take (lo_message_size l - 1) text"
      by (simp add: e_def)
    then show ?thesis using room r l' by auto
  qed
qed

definition ex_logger :: "unit logger" where
  "ex_logger = \<lparr>lo_platform = ex_platform, lo_message_size = 3, lo_records = rb_new 2 empty_stored, lo_minimum = L_info,
     lo_counters = \<lparr>lc_dropped = 0, lc_truncated = 0\<rparr>, lo_world = ()\<rparr>"

theorem write_buffers_witness:
  "fst (log_write [None] L_error (Some (Some ''abc'')) ex_logger) = S_truncated \<and>
   (\<exists>e. rb_list (lo_records (snd (log_write [None] L_error (Some (Some ''abc'')) ex_logger))) = [e] \<and> so_text e = ''ab'')"
proof -
  obtain st l' where w: "log_write [None] L_error (Some (Some ''abc'')) ex_logger = (st, l')" by fastforce
  have "rb_inv (lo_records ex_logger)" "rb_list (lo_records ex_logger) = []" "rb_capacity (lo_records ex_logger) = 2"
    "level_index (lo_minimum ex_logger) \<le> level_index L_error" "lo_message_size ex_logger = 3"
    by (simp_all add: ex_logger_def rb_inv_def rb_new_def rb_capacity_def rb_list_def)
  then show ?thesis using write_buffers [OF _ w] w by auto
qed

end
