(* ===== verification/Command.thy ===== *)
theory Command
  imports Scheduler_Run Log_Format
begin

text \<open>
  The command dispatcher of lib/core/command/command.hpp: a line is split into words, the first word
  selects a module by its route and the second one of its commands, whose handler is run by the
  scheduler in command context. For the dispatch the words are strings; \<open>store_line\<close>
  is \<open>Parse\<close> with the line buffer and the views of it, and \<open>words_fit\<close> shows that they show these words.

  A handler is a callback of the scheduler. A handler that calls \<open>dispatch\<close> again finds the dispatcher
  busy, so the dispatcher's state is not visible to handlers. \<open>wr\<close> writes a line to the log.
\<close>

section \<open>Words\<close>

definition Space :: "char \<Rightarrow> bool" where
  "Space c \<longleftrightarrow> (let n = of_char c :: nat in n = 32 \<or> n = 9 \<or> n = 13 \<or> n = 10 \<or> n = 11 \<or> n = 12)"

definition quote_char :: char where
  "quote_char = CHR 0x22"

definition escape_char :: char where
  "escape_char = CHR 0x5c"

definition push_char :: "char \<Rightarrow> (string \<times> string) option \<Rightarrow> (string \<times> string) option" where
  "push_char c r = (case r of None \<Rightarrow> None | Some (w, rest) \<Rightarrow> Some (c # w, rest))"

text \<open>The inner loop of \<open>Parse\<close>: the word and the rest of the line, or \<open>None\<close> for \<open>parse_error\<close>.\<close>

function parse_word :: "bool \<Rightarrow> string \<Rightarrow> (string \<times> string) option" where
  "parse_word quoted [] = (if quoted then None else Some ([], []))"
| "parse_word quoted (c # cs) =
     (if c = escape_char \<and> cs \<noteq> [] \<and> (hd cs = quote_char \<or> hd cs = escape_char)
      then push_char (hd cs) (parse_word quoted (tl cs))
      else if c = quote_char then
        (if \<not> quoted then None else if cs \<noteq> [] \<and> \<not> Space (hd cs) then None else Some ([], cs))
      else if \<not> quoted \<and> Space c then Some ([], c # cs)
      else push_char c (parse_word quoted cs))"
  by pat_completeness auto
termination by (relation "measure (length \<circ> snd)") (auto simp: less_Suc_eq_le)

lemma parse_word_fit:
  assumes "parse_word quoted xs = Some (w, rest)"
  shows "length w + length rest \<le> length xs"
  using assms
proof (induction quoted xs arbitrary: w rest rule: parse_word.induct)
  case (2 quoted c cs)
  then show ?case
    by (auto simp: push_char_def split: if_splits option.splits)
qed (simp split: if_splits)

lemma parse_word_progress:
  assumes "parse_word False (c # cs) = Some (w, rest)" "\<not> Space c"
  shows "length rest \<le> length cs"
  using assms parse_word_fit by (auto simp: push_char_def split: if_splits option.splits) fastforce+

declare parse_word.simps [simp del]

text \<open>The loop over the words of the line.\<close>

function split_words :: "nat \<Rightarrow> string \<Rightarrow> string list \<Rightarrow> status \<times> string list" where
  "split_words capacity [] args = (S_ok, args)"
| "split_words capacity (c # cs) args =
     (if Space c then split_words capacity cs args
      else if length args = capacity then (S_too_many_arguments, args)
      else case parse_word (c = quote_char) (if c = quote_char then cs else c # cs) of
             None \<Rightarrow> (S_parse_error, args)
           | Some (w, rest) \<Rightarrow> split_words capacity rest (args @ [w]))"
  by pat_completeness auto
termination
  by (relation "measure (length \<circ> fst \<circ> snd)")
    (auto simp: less_Suc_eq_le split: if_splits dest: parse_word_fit parse_word_progress)

declare split_words.simps [simp del]

section \<open>Dispatcher\<close>

type_synonym ('e, 'u) command_handler = "'u \<Rightarrow> ('e, status \<times> ('u \<Rightarrow> 'u)) prog"

record ('e, 'u) entry =
  en_route :: "string option"
  en_module_name :: string
  en_commands :: "('e, 'u) command_handler command_descriptor list"

record ('e, 'u) dispatcher =
  di_line_capacity :: nat
  di_argument_capacity :: nat
  di_entries :: "('e, 'u) entry list"
  di_arguments :: "string list"
  di_busy :: bool
  di_valid :: bool

text \<open>\<open>ValidModule\<close>: the commands of a module are well formed (checked by the compiler).\<close>

fun valid_commands :: "string list \<Rightarrow> 'h command_descriptor list \<Rightarrow> bool" where
  "valid_commands seen [] \<longleftrightarrow> True"
| "valid_commands seen (c # cs) \<longleftrightarrow>
     ValidCommandName (cd_name c) \<and> \<not> EqualName (name_of (cd_name c)) ''help'' \<and>
     \<not> name_missing (cd_help c) \<and> \<not> name_missing (cd_handler c) \<and>
     \<not> list_ex (EqualName (name_of (cd_name c))) seen \<and> valid_commands (seen @ [name_of (cd_name c)]) cs"

definition valid_module :: "string option \<Rightarrow> 'h command_descriptor list \<Rightarrow> bool" where
  "valid_module route commands \<longleftrightarrow> commands = [] \<or>
     (route \<noteq> None \<longrightarrow> ValidCommandName route \<and> \<not> EqualName (name_of route) ''help'') \<and>
     valid_commands [] commands"

text \<open>\<open>Register\<close>: a null module invalidates the dispatcher; a module without commands has no entry.\<close>

definition register_commands :: "bool \<Rightarrow> ('e, 'u) entry \<Rightarrow> ('e, 'u) dispatcher \<Rightarrow> ('e, 'u) dispatcher" where
  "register_commands null_module e d =
     (let d = (if null_module then d\<lparr>di_valid := False\<rparr> else d)
      in if en_commands e = [] then d else d\<lparr>di_entries := di_entries d @ [e]\<rparr>)"

definition dispatcher_make :: "nat \<Rightarrow> nat \<Rightarrow> (bool \<times> ('e, 'u) entry) list \<Rightarrow> ('e, 'u) dispatcher" where
  "dispatcher_make line_capacity argument_capacity modules =
     fold (\<lambda>(n, e). register_commands n e) modules
       \<lparr>di_line_capacity = line_capacity, di_argument_capacity = argument_capacity, di_entries = [],
        di_arguments = [], di_busy = False, di_valid = True\<rparr>"

fun validate_routes :: "string list \<Rightarrow> string option list \<Rightarrow> status" where
  "validate_routes seen [] = S_ok"
| "validate_routes seen (r # rs) =
     (if \<not> ValidCommandName r \<or> EqualName (name_of r) ''help'' then S_invalid_argument
      else if list_ex (EqualName (name_of r)) seen then S_duplicate_name
      else validate_routes (seen @ [name_of r]) rs)"

definition di_validate :: "('e, 'u) dispatcher \<Rightarrow> status" where
  "di_validate d = (if \<not> di_valid d then S_invalid_argument else validate_routes [] (map en_route (di_entries d)))"

text \<open>\<open>bind_sources\<close>: a source is bound or not; none is if the routes are not valid.\<close>

definition bind_sources :: "('e, 'u) dispatcher \<Rightarrow> bool list \<Rightarrow> status \<times> bool list" where
  "bind_sources d sources =
     (let status = di_validate d
      in if status \<noteq> S_ok then (status, sources) else (S_ok, map (\<lambda>_. True) sources))"

definition di_parse :: "string \<Rightarrow> ('e, 'u) dispatcher \<Rightarrow> status \<times> ('e, 'u) dispatcher" where
  "di_parse line d =
     (if length line > di_line_capacity d then (S_line_too_long, d)
      else if list_ex (\<lambda>c. of_char c = (0 :: nat)) line then (S_parse_error, d)
      else case split_words (di_argument_capacity d) line [] of (st, args) \<Rightarrow> (st, d\<lparr>di_arguments := args\<rparr>))"

section \<open>Messages\<close>

fun status_name :: "status \<Rightarrow> string" where
  "status_name S_ok = ''ok''"
| "status_name S_not_running = ''not_running''"
| "status_name S_already_initialized = ''already_initialized''"
| "status_name S_already_run = ''already_run''"
| "status_name S_initialization_failed = ''initialization_failed''"
| "status_name S_invalid_argument = ''invalid_argument''"
| "status_name S_not_found = ''not_found''"
| "status_name S_full = ''full''"
| "status_name S_empty = ''empty''"
| "status_name S_busy = ''busy''"
| "status_name S_duplicate_name = ''duplicate_name''"
| "status_name S_truncated = ''truncated''"
| "status_name S_parse_error = ''parse_error''"
| "status_name S_ambiguous_match = ''ambiguous_match''"
| "status_name S_line_too_long = ''line_too_long''"
| "status_name S_too_many_arguments = ''too_many_arguments''"
| "status_name S_unsupported = ''unsupported''"
| "status_name S_health_failed = ''health_failed''"
| "status_name S_io_error = ''io_error''"
| "status_name S_timeout = ''timeout''"
| "status_name S_checksum_error = ''checksum_error''"
| "status_name S_incompatible = ''incompatible''"
| "status_name S_not_confirmed = ''not_confirmed''"
| "status_name S_rejected = ''rejected''"
| "status_name S_counter_exhausted = ''counter_exhausted''"
| "status_name S_invalid_context = ''invalid_context''"
| "status_name S_depth_limit = ''depth_limit''"

definition argument_help :: "argument_metadata \<Rightarrow> string list" where
  "argument_help m =
     (''    '' @ (if am_optional m then ''['' else ''<'') @ am_name m @ (if am_optional m then '']'' else ''>'') @ '': '' @ am_type m) #
     (case am_policy m of Choices table \<Rightarrow> map (\<lambda>(n, _). ''      '' @ name_of n) table | _ \<Rightarrow> [])"

definition command_help :: "'h command_descriptor \<Rightarrow> string list" where
  "command_help c = (''  '' @ name_of (cd_name c) @ '' - '' @ name_of (cd_help c)) #
     concat (map argument_help (take (cd_count c) (cd_arguments c)))"

definition module_help :: "('e, 'u) entry \<Rightarrow> string list" where
  "module_help e = (name_of (en_route e) @ '':'') # ''  help - list module commands'' # concat (map command_help (en_commands e))"

definition error_message :: "status \<Rightarrow> string" where
  "error_message st = (case st of
       S_parse_error \<Rightarrow> ''malformed command line''
     | S_ambiguous_match \<Rightarrow> ''ambiguous command or choice''
     | S_not_found \<Rightarrow> ''unknown command or choice''
     | S_line_too_long \<Rightarrow> ''command line too long''
     | S_too_many_arguments \<Rightarrow> ''too many arguments''
     | S_busy \<Rightarrow> ''command dispatcher busy''
     | S_invalid_argument \<Rightarrow> ''invalid command arguments''
     | _ \<Rightarrow> ''handler failed'') @ '' (status '' @ status_name st @ '')''"

definition argument_message :: "('e, 'u) entry \<Rightarrow> 'h command_descriptor \<Rightarrow> argument_error \<Rightarrow> nat \<Rightarrow> status \<Rightarrow> string" where
  "argument_message e c err given st =
     name_of (en_route e) @ '' '' @ name_of (cd_name c) @ '': '' @
     (case ae_argument err of
        Some m \<Rightarrow>
          (case am_policy m of
             Choices _ \<Rightarrow> ''argument '' @ CHR 0x27 # am_name m @ CHR 0x27 # '': '' @ name_of (ae_reason err)
           | _ \<Rightarrow> ''argument '' @ CHR 0x27 # am_name m @ CHR 0x27 # '' must be '' @ am_type m @ '' and within its bounds'')
      | None \<Rightarrow> ''expected '' @ decimal (cd_required c) @ '' to '' @ decimal (cd_count c) @ '' arguments, received '' @ decimal given) @
     '' (status '' @ status_name st @ '')''"

definition sc_log :: "(level \<Rightarrow> string \<Rightarrow> 'u \<Rightarrow> 'u) \<Rightarrow> level \<Rightarrow> string \<Rightarrow> ('e, 'u) sched \<Rightarrow> ('e, 'u) sched" where
  "sc_log wr lvl line s = s\<lparr>sc_user := wr lvl line (sc_user s)\<rparr>"

definition log_lines :: "(level \<Rightarrow> string \<Rightarrow> 'u \<Rightarrow> 'u) \<Rightarrow> string list \<Rightarrow> ('e, 'u) sched \<Rightarrow> ('e, 'u) sched" where
  "log_lines wr lines s = fold (sc_log wr L_info) lines s"

section \<open>Dispatch\<close>

text \<open>The context a command is invoked with; \<open>Invoke\<close> sets its kind and scheduler.\<close>

definition outside_command :: "string \<Rightarrow> string \<Rightarrow> call_context" where
  "outside_command m t = \<lparr>ctx_module = m, ctx_task = t, ctx_kind = CK_outside, ctx_scheduler = False\<rparr>"

text \<open>The callback of a command: the handler with its values, or the adapter's error.\<close>

definition command_callback ::
  "argument_error + ('e, 'u) command_handler \<Rightarrow> 'u \<Rightarrow> ('e, status \<times> ('u \<Rightarrow> 'u)) prog" where
  "command_callback call u = (case call of Inl e \<Rightarrow> Return (ae_status e, id) | Inr h \<Rightarrow> h u)"

definition may_invoke :: "('e, 'u) sched \<Rightarrow> bool" where
  "may_invoke s \<longleftrightarrow> \<not> pl_in_interrupt (sc_platform s) \<and> sc_state s = LS_running"

definition di_handle ::
  "('e, 'u) app \<Rightarrow> (level \<Rightarrow> string \<Rightarrow> 'u \<Rightarrow> 'u) \<Rightarrow> ('e, 'u) entry \<Rightarrow> string list \<Rightarrow> ('e, 'u) sched \<Rightarrow>
   (status \<times> bool) \<times> ('e, 'u) sched" where
  "di_handle app wr e args s =
     (case args of
        [] \<Rightarrow> ((S_ok, False), log_lines wr (module_help e) s)
      | a # rest \<Rightarrow>
          let match = lazy_match a (map (name_of \<circ> cd_name) (en_commands e) @ [''help''])
          in if nm_status match \<noteq> S_ok then ((nm_status match, False), s)
             else if nm_index match = length (en_commands e) then
               (if length args \<noteq> 1 then ((S_invalid_argument, False), s)
                else ((S_ok, False), log_lines wr (module_help e) s))
             else
               let c = en_commands e ! nm_index match;
                   call = call_command c rest;
                   err = (case call of Inl err \<Rightarrow> if may_invoke s then Some err else None | Inr _ \<Rightarrow> None)
               in case sc_invoke app (outside_command (en_module_name e) (name_of (cd_handler c))) (command_callback call) s of
                    (st, s) \<Rightarrow>
                      ((st, err \<noteq> None),
                       case err of None \<Rightarrow> s | Some err \<Rightarrow> sc_log wr L_error (argument_message e c err (length rest) st) s))"

definition di_dispatch_words ::
  "('e, 'u) app \<Rightarrow> (level \<Rightarrow> string \<Rightarrow> 'u \<Rightarrow> 'u) \<Rightarrow> ('e, 'u) dispatcher \<Rightarrow> ('e, 'u) sched \<Rightarrow>
   (status \<times> bool) \<times> ('e, 'u) sched" where
  "di_dispatch_words app wr d s =
     (let match = lazy_match (hd (di_arguments d)) (map (name_of \<circ> en_route) (di_entries d) @ [''help''])
      in if nm_status match \<noteq> S_ok then ((nm_status match, False), s)
         else if nm_index match = length (di_entries d) then
           (if length (di_arguments d) \<noteq> 1 then ((S_invalid_argument, False), s)
            else ((S_ok, False), log_lines wr (''help - list all commands'' # concat (map module_help (di_entries d))) s))
         else di_handle app wr (di_entries d ! nm_index match) (tl (di_arguments d)) s)"

definition di_dispatch_line ::
  "('e, 'u) app \<Rightarrow> (level \<Rightarrow> string \<Rightarrow> 'u \<Rightarrow> 'u) \<Rightarrow> string \<Rightarrow> ('e, 'u) dispatcher \<Rightarrow> ('e, 'u) sched \<Rightarrow>
   (status \<times> bool) \<times> ('e, 'u) dispatcher \<times> ('e, 'u) sched" where
  "di_dispatch_line app wr line d s =
     (if di_busy d then ((S_busy, False), d, s)
      else if \<not> di_valid d then ((S_invalid_argument, False), d, s)
      else case di_parse line (d\<lparr>di_busy := True\<rparr>) of (st, d) \<Rightarrow>
        if st \<noteq> S_ok \<or> di_arguments d = [] then ((st, False), d\<lparr>di_busy := False\<rparr>, s)
        else case di_dispatch_words app wr d s of (r, s) \<Rightarrow> (r, d\<lparr>di_busy := False\<rparr>, s))"

text \<open>\<open>dispatch\<close>: the line is dispatched inside \<open>Invoke\<close>, and a failure that has no message yet is logged.\<close>

definition di_dispatch ::
  "('e, 'u) app \<Rightarrow> (level \<Rightarrow> string \<Rightarrow> 'u \<Rightarrow> 'u) \<Rightarrow> string \<Rightarrow> ('e, 'u) dispatcher \<Rightarrow> ('e, 'u) sched \<Rightarrow>
   status \<times> ('e, 'u) dispatcher \<times> ('e, 'u) sched" where
  "di_dispatch app wr line d s =
     (if pl_in_interrupt (sc_platform s) then (S_invalid_argument, d, s)
      else if sc_state s \<noteq> LS_running then (S_not_running, d, s)
      else case in_context ((outside_command ''core'' ''command'')\<lparr>ctx_kind := CK_command, ctx_scheduler := True\<rparr>)
          (\<lambda>s. case di_dispatch_line app wr line d s of ((st, diagnosed), d, s) \<Rightarrow>
             ((st, d), if st \<noteq> S_ok \<and> \<not> diagnosed then sc_log wr L_error (error_message st) s else s)) s of
        ((st, d), s) \<Rightarrow> (st, d, s))"

section \<open>Quoting\<close>

text \<open>A reference for the syntax of a line: every word in quotes, with quotes and backslashes escaped.\<close>

definition escape_word :: "string \<Rightarrow> string" where
  "escape_word w = concat (map (\<lambda>c. if c = quote_char \<or> c = escape_char then [escape_char, c] else [c]) w)"

definition quote_words :: "string list \<Rightarrow> string" where
  "quote_words ws = concat (map (\<lambda>w. quote_char # escape_word w @ [quote_char, CHR '' '']) ws)"

lemma special_chars [simp]:
  "quote_char \<noteq> escape_char" "escape_char \<noteq> quote_char" "\<not> Space quote_char" "\<not> Space escape_char" "Space (CHR '' '')"
  by (simp_all add: quote_char_def escape_char_def Space_def)

lemma parse_word_escaped:
  assumes "rest \<noteq> [] \<Longrightarrow> Space (hd rest)"
  shows "parse_word True (escape_word w @ quote_char # rest) = Some (w, rest)"
proof (induction w)
  case Nil
  then show ?case using assms by (cases rest) (simp_all add: escape_word_def parse_word.simps)
next
  case (Cons c w)
  have e: "escape_word (c # w) = (if c = quote_char \<or> c = escape_char then [escape_char, c] else [c]) @ escape_word w"
    by (simp add: escape_word_def)
  show ?case using Cons unfolding e by (auto simp: parse_word.simps push_char_def)
qed

lemma split_words_quoted:
  assumes "length args + length ws \<le> capacity"
  shows "split_words capacity (quote_words ws) args = (S_ok, args @ ws)"
  using assms
proof (induction ws arbitrary: args)
  case Nil
  then show ?case by (simp add: quote_words_def split_words.simps)
next
  case (Cons w ws)
  have q: "quote_words (w # ws) = quote_char # escape_word w @ quote_char # CHR '' '' # quote_words ws"
    by (simp add: quote_words_def)
  have "split_words capacity (CHR '' '' # quote_words ws) (args @ [w]) = split_words capacity (quote_words ws) (args @ [w])"
    by (simp add: split_words.simps)
  then show ?case using Cons unfolding q
    by (simp add: split_words.simps(2) [of _ quote_char] parse_word_escaped)
qed

lemma escape_word_set: "c \<in> set (escape_word w) \<Longrightarrow> c \<in> set w \<or> c = escape_char"
  by (auto simp: escape_word_def split: if_splits)

text \<open>
  C10: any words can be written on a line. Words that are quoted and escaped are parsed into the same
  words, with blanks, quotes, backslashes and empty words included, if they and the line are within the
  capacities and no character is NUL.
\<close>

theorem words_roundtrip:
  assumes "length ws \<le> di_argument_capacity d" "length (quote_words ws) \<le> di_line_capacity d"
    "\<And>w c. w \<in> set ws \<Longrightarrow> c \<in> set w \<Longrightarrow> of_char c \<noteq> (0 :: nat)"
  shows "di_parse (quote_words ws) d = (S_ok, d\<lparr>di_arguments := ws\<rparr>)"
proof -
  have "of_char c \<noteq> (0 :: nat)" if c: "c \<in> set (quote_words ws)" for c
  proof -
    from c obtain w where w: "w \<in> set ws" "c \<in> set (quote_char # escape_word w @ [quote_char, CHR '' ''])"
      unfolding quote_words_def set_concat set_map by blast
    then show ?thesis using escape_word_set [of c w] assms(3) [of w c] by (auto simp: quote_char_def escape_char_def)
  qed
  then have "\<not> list_ex (\<lambda>c. of_char c = (0 :: nat)) (quote_words ws)" by (auto simp: list_ex_iff)
  then show ?thesis using assms(1,2) split_words_quoted [of "[]" ws "di_argument_capacity d"] by (simp add: di_parse_def)
qed

definition ex_dispatcher :: "(unit, unit) dispatcher" where
  "ex_dispatcher = dispatcher_make 32 4 []"

theorem words_roundtrip_witness:
  "di_parse (quote_words [''say'', ''a b'', []]) ex_dispatcher = (S_ok, ex_dispatcher\<lparr>di_arguments := [''say'', ''a b'', []]\<rparr>)"
  by (rule words_roundtrip)
    (auto simp: ex_dispatcher_def dispatcher_make_def quote_words_def escape_word_def quote_char_def escape_char_def)

section \<open>The line buffer\<close>

text \<open>
  \<open>Parse\<close> with its storage: the words are written into \<open>buffer_\<close> one after the other, and \<open>arguments_\<close> holds
  views of it, each a start and a length. A write outside the array is \<open>None\<close>.
\<close>

record line_storage =
  ls_buffer :: string
  ls_arguments :: "(nat \<times> nat) list"

definition put_char :: "char \<Rightarrow> string \<times> nat \<Rightarrow> (string \<times> nat) option" where
  "put_char c = (\<lambda>(buffer, wr). if wr < length buffer then Some (buffer[wr := c], wr + 1) else None)"

text \<open>The inner loop: the rest of the line, or \<open>None\<close> for \<open>parse_error\<close>, with what was written.\<close>

function store_word :: "bool \<Rightarrow> string \<Rightarrow> string \<times> nat \<Rightarrow> (string option \<times> string \<times> nat) option" where
  "store_word quoted [] b = Some (if quoted then None else Some [], b)"
| "store_word quoted (c # cs) b =
     (if c = escape_char \<and> cs \<noteq> [] \<and> (hd cs = quote_char \<or> hd cs = escape_char)
      then Option.bind (put_char (hd cs) b) (store_word quoted (tl cs))
      else if c = quote_char then
        Some (if \<not> quoted then None else if cs \<noteq> [] \<and> \<not> Space (hd cs) then None else Some cs, b)
      else if \<not> quoted \<and> Space c then Some (Some (c # cs), b)
      else Option.bind (put_char c b) (store_word quoted cs))"
  by pat_completeness auto
termination by (relation "measure (\<lambda>(_, l, _). length l)") (auto simp: less_Suc_eq_le)

lemma store_word_fit:
  assumes "store_word quoted xs b = Some (Some rest, b')"
  shows "length rest \<le> length xs"
  using assms
proof (induction quoted xs b arbitrary: rest rule: store_word.induct)
  case (2 quoted c cs b)
  then show ?case by (fastforce simp: Option.bind_eq_Some_conv split: if_splits)
qed (simp split: if_splits)

lemma store_word_progress:
  assumes "store_word False (c # cs) b = Some (Some rest, b')" "\<not> Space c"
  shows "length rest \<le> length cs"
  using assms by (cases cs) (auto simp: Option.bind_eq_Some_conv split: if_splits dest!: store_word_fit)

declare store_word.simps [simp del]

function store_words :: "nat \<Rightarrow> string \<Rightarrow> (nat \<times> nat) list \<Rightarrow> string \<times> nat \<Rightarrow> (status \<times> (nat \<times> nat) list \<times> string) option" where
  "store_words capacity [] views b = Some (S_ok, views, fst b)"
| "store_words capacity (c # cs) views b =
     (if Space c then store_words capacity cs views b
      else if length views = capacity then Some (S_too_many_arguments, views, fst b)
      else case store_word (c = quote_char) (if c = quote_char then cs else c # cs) b of
             None \<Rightarrow> None
           | Some (None, b') \<Rightarrow> Some (S_parse_error, views, fst b')
           | Some (Some rest, b') \<Rightarrow> store_words capacity rest (views @ [(snd b, snd b' - snd b)]) b')"
  by pat_completeness auto
termination
  by (relation "measure (\<lambda>(_, l, _, _). length l)")
    (auto simp: less_Suc_eq_le split: if_splits dest: store_word_fit store_word_progress)

declare store_words.simps [simp del]

definition store_line :: "nat \<Rightarrow> nat \<Rightarrow> string \<Rightarrow> line_storage \<Rightarrow> (status \<times> line_storage) option" where
  "store_line line_capacity argument_capacity line ls =
     (if length line > line_capacity then Some (S_line_too_long, ls)
      else if list_ex (\<lambda>c. of_char c = (0 :: nat)) line then Some (S_parse_error, ls)
      else case store_words argument_capacity line [] (ls_buffer ls, 0) of
             None \<Rightarrow> None
           | Some (st, views, buffer) \<Rightarrow> Some (st, ls\<lparr>ls_buffer := buffer, ls_arguments := views\<rparr>))"

text \<open>The characters a view shows, and the storage that shows the words of a dispatcher.\<close>

definition view :: "string \<Rightarrow> nat \<times> nat \<Rightarrow> string" where
  "view buffer = (\<lambda>(start, n). take n (drop start buffer))"

definition stores :: "('e, 'u) dispatcher \<Rightarrow> line_storage \<Rightarrow> bool" where
  "stores d ls \<longleftrightarrow> length (ls_buffer ls) = di_line_capacity d \<and> length (ls_arguments ls) \<le> di_argument_capacity d \<and>
     list_all (\<lambda>(start, n). start + n \<le> di_line_capacity d) (ls_arguments ls) \<and>
     di_arguments d = map (view (ls_buffer ls)) (ls_arguments ls)"

lemma view_take:
  assumes "take k buffer' = take k buffer" "start + n \<le> k"
  shows "view buffer' (start, n) = view buffer (start, n)"
proof -
  have "view b (start, n) = take n (drop start (take k b))" for b
    using assms(2) by (simp add: view_def drop_take min_def)
  then show ?thesis using assms(1) by simp
qed

text \<open>What \<open>store_word\<close> does from \<open>wr\<close> on, with room for the rest of the line.\<close>

definition stores_word :: "bool \<Rightarrow> string \<Rightarrow> string \<times> nat \<Rightarrow> bool" where
  "stores_word quoted line = (\<lambda>(buffer, wr). \<exists>r buffer' wr'. store_word quoted line (buffer, wr) = Some (r, buffer', wr') \<and>
     length buffer' = length buffer \<and> wr \<le> wr' \<and> wr' + length (case r of None \<Rightarrow> [] | Some rest \<Rightarrow> rest) \<le> length buffer \<and>
     take wr buffer' = take wr buffer \<and>
     parse_word quoted line = map_option (\<lambda>rest. (view buffer' (wr, wr' - wr), rest)) r)"

lemma stores_word_none: "parse_word quoted line = None \<Longrightarrow> store_word quoted line (buffer, wr) = Some (None, buffer, wr) \<Longrightarrow>
    wr \<le> length buffer \<Longrightarrow> stores_word quoted line (buffer, wr)"
  by (simp add: stores_word_def)

lemma stores_word_end: "parse_word quoted line = Some ([], rest) \<Longrightarrow> store_word quoted line (buffer, wr) = Some (Some rest, buffer, wr) \<Longrightarrow>
    wr + length rest \<le> length buffer \<Longrightarrow> stores_word quoted line (buffer, wr)"
  by (simp add: stores_word_def view_def)

lemma stores_word_put:
  assumes "stores_word quoted line' (buffer[wr := c], wr + 1)" and wr: "wr < length buffer"
    and p: "parse_word quoted line = push_char c (parse_word quoted line')"
    and s: "store_word quoted line (buffer, wr) = Option.bind (put_char c (buffer, wr)) (store_word quoted line')"
  shows "stores_word quoted line (buffer, wr)"
proof -
  from assms(1) obtain r b w where i: "store_word quoted line' (buffer[wr := c], wr + 1) = Some (r, b, w)"
    "length b = length buffer" "wr + 1 \<le> w" "w + length (case r of None \<Rightarrow> [] | Some rest \<Rightarrow> rest) \<le> length buffer"
    "take (wr + 1) b = take (wr + 1) (buffer[wr := c])"
    "parse_word quoted line' = map_option (\<lambda>rest. (view b (wr + 1, w - (wr + 1)), rest)) r"
    by (auto simp: stores_word_def)
  have t: "take wr b = take wr buffer"
    using arg_cong [OF i(5), of "take wr"] by (simp add: take_update_cancel)
  have "b ! wr = c" using arg_cong [OF i(5), of "\<lambda>l. l ! wr"] wr by simp
  then have "drop wr b = c # drop (wr + 1) b" using wr i(2) Cons_nth_drop_Suc [of wr b] by simp
  moreover have "w - wr = Suc (w - (wr + 1))" using i(3) by simp
  ultimately have v: "view b (wr, w - wr) = c # view b (wr + 1, w - (wr + 1))" by (simp add: view_def)
  have "store_word quoted line (buffer, wr) = Some (r, b, w)" using s i(1) wr by (simp add: put_char_def)
  then show ?thesis using i(2-4,6) t v p by (cases r) (auto simp: stores_word_def push_char_def)
qed

lemma store_word_ok: "wr + length line \<le> length buffer \<Longrightarrow> stores_word quoted line (buffer, wr)"
proof (induction quoted line arbitrary: buffer wr rule: parse_word.induct)
  case (1 quoted)
  then show ?case by (cases quoted) (auto intro: stores_word_none stores_word_end simp: parse_word.simps store_word.simps)
next
  case (2 quoted c cs)
  note eq = parse_word.simps(2) [of quoted c cs] store_word.simps(2) [of quoted c cs "(buffer, wr)"]
  have wr: "wr < length buffer" using 2(3) by simp
  consider (escape) "c = escape_char \<and> cs \<noteq> [] \<and> (hd cs = quote_char \<or> hd cs = escape_char)"
    | (over) "\<not> (c = escape_char \<and> cs \<noteq> [] \<and> (hd cs = quote_char \<or> hd cs = escape_char))" "c = quote_char \<or> \<not> quoted \<and> Space c"
    | (plain) "\<not> (c = escape_char \<and> cs \<noteq> [] \<and> (hd cs = quote_char \<or> hd cs = escape_char))" "c \<noteq> quote_char" "\<not> (\<not> quoted \<and> Space c)"
    by blast
  then show ?case
  proof cases
    case escape
    then have "stores_word quoted (tl cs) (buffer[wr := hd cs], wr + 1)" using 2(1,3) by (cases cs) simp_all
    from stores_word_put [OF this wr] show ?thesis using eq escape by simp
  next
    case over
    then show ?thesis using eq 2(3)
      by (cases "c = quote_char"; cases quoted; cases "cs \<noteq> [] \<and> \<not> Space (hd cs)") (auto intro: stores_word_none stores_word_end)
  next
    case plain
    then have "stores_word quoted cs (buffer[wr := c], wr + 1)" using 2(2,3) by simp
    from stores_word_put [OF this wr] show ?thesis using eq plain by simp
  qed
qed

lemma store_words_ok:
  assumes "split_words capacity line args = (st, args')" and "wr + length line \<le> length buffer"
    and "args = map (view buffer) views" and "list_all (\<lambda>(start, n). start + n \<le> wr) views" and "length views \<le> capacity"
  shows "\<exists>views' buffer'. store_words capacity line views (buffer, wr) = Some (st, views', buffer') \<and>
    length buffer' = length buffer \<and> length views' \<le> capacity \<and>
    list_all (\<lambda>(start, n). start + n \<le> length buffer) views' \<and> args' = map (view buffer') views'"
  using assms
proof (induction capacity line args arbitrary: buffer wr views rule: split_words.induct)
  case (1 capacity args)
  then show ?case by (auto simp: split_words.simps store_words.simps list_all_iff)
next
  case (2 capacity c cs args)
  let ?line = "if c = quote_char then cs else c # cs"
  note eq = split_words.simps(2) [of capacity c cs args] store_words.simps(2) [of capacity c cs views "(buffer, wr)"]
  have fits: "list_all (\<lambda>(start, n). start + n \<le> length buffer) views" using 2(4,6) by (auto simp: list_all_iff)
  have "wr + length ?line \<le> length buffer" using 2(4) by simp
  from store_word_ok [OF this, of "c = quote_char"] obtain r b w where
    s: "store_word (c = quote_char) ?line (buffer, wr) = Some (r, b, w)" "length b = length buffer" "wr \<le> w"
      "w + length (case r of None \<Rightarrow> [] | Some rest \<Rightarrow> rest) \<le> length buffer" "take wr b = take wr buffer"
      "parse_word (c = quote_char) ?line = map_option (\<lambda>rest. (view b (wr, w - wr), rest)) r"
    by (auto simp: stores_word_def)
  have same: "map (view b) views = map (view buffer) views"
    using 2(6) view_take [OF s(5)] by (auto simp: list_all_iff)
  consider (space) "Space c" | (full) "\<not> Space c" "length views = capacity" | (bad) "\<not> Space c" "length views < capacity" "r = None"
    | (word) rest where "\<not> Space c" "length views < capacity" "r = Some rest"
    using 2(7) order_le_less by (cases r) blast+
  then show ?case
  proof cases
    case space
    then show ?thesis using 2(1) [OF space _ _ 2(5,6,7)] 2(3,4) eq by simp
  next
    case full
    then show ?thesis using eq 2(3,5,7) fits by simp
  next
    case bad
    then show ?thesis using eq 2(3,5) s fits same by auto
  next
    case word
    then have p: "parse_word (c = quote_char) ?line = Some (view b (wr, w - wr), rest)" using s(6) by simp
    have "split_words capacity rest (args @ [view b (wr, w - wr)]) = (st, args')" using eq(1) 2(3,5) p word by simp
    moreover have "list_all (\<lambda>(start, n). start + n \<le> w) (views @ [(wr, w - wr)])" using 2(6) s(3) by (auto simp: list_all_iff)
    ultimately show ?thesis
      using 2(2) [OF word(1) _ p refl, of w b "views @ [(wr, w - wr)]"] eq(2) 2(5) word s(1,2,4) same by simp
  qed
qed

text \<open>
  C27: the storage of the dispatcher holds every line. \<open>Parse\<close> with its line buffer and argument table never
  writes outside either, whatever the line, also when it is refused in the middle of a word; the status
  is that of the words as strings, and the views in the table then show exactly these words: no word is
  overwritten by a later one.
\<close>

theorem words_fit:
  assumes "stores d ls"
  shows "\<exists>ls'. store_line (di_line_capacity d) (di_argument_capacity d) line ls = Some (fst (di_parse line d), ls') \<and>
    stores (snd (di_parse line d)) ls'"
proof (cases "length line > di_line_capacity d \<or> list_ex (\<lambda>c. of_char c = (0 :: nat)) line")
  case True
  then show ?thesis using assms by (auto simp: store_line_def di_parse_def)
next
  case False
  obtain st args where w: "split_words (di_argument_capacity d) line [] = (st, args)" by fastforce
  from store_words_ok [OF w, of 0 "ls_buffer ls" "[]"] False assms obtain views buffer where
    "store_words (di_argument_capacity d) line [] (ls_buffer ls, 0) = Some (st, views, buffer)"
    "length buffer = di_line_capacity d" "length views \<le> di_argument_capacity d"
    "list_all (\<lambda>(start, n). start + n \<le> di_line_capacity d) views" "args = map (view buffer) views"
    by (auto simp: stores_def)
  then show ?thesis using False w by (simp add: store_line_def di_parse_def stores_def)
qed

text \<open>A line that is refused after a word and a part of the next one.\<close>

definition ex_storage :: line_storage where
  "ex_storage = \<lparr>ls_buffer = ''........'', ls_arguments = []\<rparr>"

theorem words_fit_witness:
  "\<exists>ls'. store_line 8 4 (''ab '' @ quote_char # ''cde'') ex_storage = Some (S_parse_error, ls') \<and>
     ls_buffer ls' = ''abcde...'' \<and> ls_arguments ls' = [(0, 2)] \<and>
     stores (snd (di_parse (''ab '' @ quote_char # ''cde'') (dispatcher_make 8 4 [] :: (nat, nat) dispatcher))) ls'"
proof -
  let ?d = "dispatcher_make 8 4 [] :: (nat, nat) dispatcher" and ?l = "''ab '' @ quote_char # ''cde''"
  have s: "stores ?d ex_storage" by (simp add: stores_def dispatcher_make_def ex_storage_def)
  have d: "di_line_capacity ?d = 8" "di_argument_capacity ?d = 4" by (simp_all add: dispatcher_make_def)
  have e: "store_line 8 4 ?l ex_storage = Some (S_parse_error, \<lparr>ls_buffer = ''abcde...'', ls_arguments = [(0, 2)]\<rparr>)"
    by (simp add: store_line_def ex_storage_def store_words.simps store_word.simps put_char_def Space_def quote_char_def escape_char_def)
  from words_fit [OF s, of ?l] e show ?thesis unfolding d by simp
qed

section \<open>Handlers and the scheduler\<close>

lemma log_lines_keeps: "keeps s (log_lines wr lines s)"
proof -
  have "\<exists>u. log_lines wr lines s = s\<lparr>sc_user := u\<rparr>"
    unfolding log_lines_def
  proof (induction lines arbitrary: s)
    case Nil
    then show ?case by (intro exI [of _ "sc_user s"]) simp
  next
    case (Cons l ls)
    from Cons [of "sc_log wr L_info l s"] obtain u where
      "fold (sc_log wr L_info) ls (sc_log wr L_info l s) = (sc_log wr L_info l s)\<lparr>sc_user := u\<rparr>" by blast
    then show ?case by (intro exI [of _ u]) (simp, simp add: sc_log_def)
  qed
  then show ?thesis by auto
qed

lemma sc_log_keeps [simp]: "keeps s (sc_log wr lvl l s') = keeps s s'"
  by (simp add: sc_log_def)

lemma sc_invoke_keeps: "keeps s (snd (sc_invoke app c p s))"
  by (auto simp: sc_invoke_def split: prod.split dest: callback_keeps)

lemma di_handle_keeps: "keeps s (snd (di_handle app wr e args s))"
  using sc_invoke_keeps [of s app]
  by (auto simp: di_handle_def Let_def log_lines_keeps split: list.split prod.split option.split) (metis snd_conv)+

lemma di_dispatch_words_keeps: "keeps s (snd (di_dispatch_words app wr d s))"
  by (simp add: di_dispatch_words_def Let_def di_handle_keeps log_lines_keeps)

lemma di_dispatch_line_keeps:
  assumes "di_dispatch_line app wr line d s = (r, d', s')"
  shows "keeps s s' \<and> di_busy d' = di_busy d \<and> di_entries d' = di_entries d"
proof -
  obtain st d1 where p: "di_parse line (d\<lparr>di_busy := True\<rparr>) = (st, d1)" by fastforce
  then have "di_entries d1 = di_entries d" by (auto simp: di_parse_def split: if_splits prod.splits)
  then show ?thesis using assms p di_dispatch_words_keeps [of s app wr d1]
    by (auto simp: di_dispatch_line_def split: if_splits prod.splits)
qed

text \<open>
  C25: dispatching a line, with whatever its handler calls, keeps the scheduler's invariant, its lifecycle
  state, its task nesting and the context of the caller, and leaves the dispatcher ready for the next
  line.
\<close>

theorem dispatch_keeps:
  "case di_dispatch app wr line d s of (st, d', s') \<Rightarrow>
     keeps s s' \<and> di_busy d' = di_busy d \<and> di_entries d' = di_entries d"
proof -
  define run where "run = (\<lambda>s. case di_dispatch_line app wr line d s of ((st, diagnosed), d, s) \<Rightarrow>
     ((st, d), if st \<noteq> S_ok \<and> \<not> diagnosed then sc_log wr L_error (error_message st) s else s))"
  have k: "keeps s (snd (run s))" "di_busy (snd (fst (run s))) = di_busy d \<and> di_entries (snd (fst (run s))) = di_entries d" for s
  proof -
    obtain st g d1 s1 where l: "di_dispatch_line app wr line d s = ((st, g), d1, s1)" by (metis prod.collapse)
    note o = di_dispatch_line_keeps [OF l]
    show "keeps s (snd (run s))" "di_busy (snd (fst (run s))) = di_busy d \<and> di_entries (snd (fst (run s))) = di_entries d"
      using o l by (simp_all add: run_def)
  qed
  show ?thesis
  proof (cases "pl_in_interrupt (sc_platform s) \<or> sc_state s \<noteq> LS_running")
    case False
    let ?c = "(outside_command ''core'' ''command'')\<lparr>ctx_kind := CK_command, ctx_scheduler := True\<rparr>"
    let ?s = "s\<lparr>sc_platform := (sc_platform s)\<lparr>pl_context := ?c\<rparr>\<rparr>"
    obtain st d1 s1 where r: "run ?s = ((st, d1), s1)" by (metis prod.collapse)
    have c: "in_context ?c run s = ((st, d1), s1\<lparr>sc_platform := (sc_platform s1)\<lparr>pl_context := pl_context (sc_platform s)\<rparr>\<rparr>)"
      unfolding in_context_def Let_def r by simp
    have "di_dispatch app wr line d s = (st, d1, snd (in_context ?c run s))"
      using False c unfolding di_dispatch_def run_def [symmetric] by simp
    then show ?thesis using in_context_keeps [of run s ?c, OF k(1)] k(2) [of ?s] r by simp
  next
    case True
    then show ?thesis by (auto simp: di_dispatch_def)
  qed
qed

text \<open>
  C26: a line that is too long, malformed or has too many words runs no handler: nothing of the scheduler
  or of the application changes but for the one message that is logged, and the status says why.
\<close>

theorem malformed_line_refused:
  assumes "may_invoke s" "\<not> di_busy d" "di_valid d" "fst (di_parse line d) = st" "st \<noteq> S_ok"
  shows "fst (di_dispatch app wr line d s) = st \<and> st \<in> {S_line_too_long, S_parse_error, S_too_many_arguments} \<and>
    snd (snd (di_dispatch app wr line d s)) = s\<lparr>sc_user := wr L_error (error_message st) (sc_user s)\<rparr>"
proof -
  have "fst (di_parse line (d\<lparr>di_busy := True\<rparr>)) = st" using assms(4)
    by (cases "split_words (di_argument_capacity d) line []") (auto simp: di_parse_def)
  then obtain d1 where p: "di_parse line (d\<lparr>di_busy := True\<rparr>) = (st, d1)" by (metis prod.collapse)
  have l: "di_dispatch_line app wr line d s' = ((st, False), d1\<lparr>di_busy := False\<rparr>, s')" for s'
    using assms(2,3,5) p by (simp add: di_dispatch_line_def)
  have "di_dispatch app wr line d s = (st, d1\<lparr>di_busy := False\<rparr>, s\<lparr>sc_user := wr L_error (error_message st) (sc_user s)\<rparr>)"
    using assms(1,5) by (simp add: di_dispatch_def may_invoke_def in_context_def Let_def l sc_log_def)
  moreover have "st \<in> {S_ok, S_too_many_arguments, S_parse_error}" if "split_words c ln args = (st, args')" for c ln args args'
    using that
  proof (induction c ln args rule: split_words.induct)
    case (2 capacity c cs args)
    then show ?case by (subst (asm) split_words.simps) (auto split: if_splits option.splits prod.splits)
  qed (simp add: split_words.simps)
  ultimately show ?thesis using assms(4,5) by (auto simp: di_parse_def split: if_splits prod.splits)
qed

definition ex_running :: "(nat, nat) sched" where
  "ex_running = (sched_new ex_platform 2 1 2 0)\<lparr>sc_lifecycle := (sm_new lifecycle_derived)\<lparr>sm_cs := LS_running\<rparr>\<rparr>"

theorem malformed_line_refused_witness:
  "fst (di_dispatch ex_app (\<lambda>_ _ u. u) [quote_char] (dispatcher_make 32 4 []) ex_running) = S_parse_error"
proof -
  let ?d = "dispatcher_make 32 4 [] :: (nat, nat) dispatcher"
  have "fst (di_parse [quote_char] ?d) = S_parse_error"
    by (simp add: di_parse_def dispatcher_make_def split_words.simps parse_word.simps quote_char_def Space_def)
  moreover have "may_invoke ex_running" "\<not> di_busy ?d" "di_valid ?d"
    by (simp_all add: may_invoke_def ex_running_def sched_new_def ex_platform_def dispatcher_make_def)
  ultimately show ?thesis using malformed_line_refused [of ex_running ?d "[quote_char]"] by blast
qed

end
