(* ===== verification/Update_Package.thy ===== *)
theory Update_Package
  imports Journal_Codec
begin

text \<open>
  The firmware package (lib/update/package.h and package.cpp): its header, and the stream parser that
  takes it apart into blocks and relocates them for the slot they are installed in. Buffers have the
  sizes of the source; the counters are natural numbers.
\<close>

section \<open>Header\<close>

definition kHeaderSize :: nat where "kHeaderSize = 128"
definition kBlockSize :: nat where "kBlockSize = 1024"
definition kMaxPatches :: nat where "kMaxPatches = kBlockSize div 4"

record package_header =
  ph_product :: u32
  ph_revision :: u32
  ph_image_size :: nat
  ph_addresses :: "u32 list"
  ph_crc :: "u32 list"
  ph_encoding :: nat
  ph_package_size :: nat
  ph_version :: version

definition default_header :: package_header where
  "default_header = \<lparr>ph_product = 0, ph_revision = 0, ph_image_size = 0, ph_addresses = [0, 0], ph_crc = [0, 0],
     ph_encoding = 0, ph_package_size = 0, ph_version = default_version\<rparr>"

definition header_fields :: "byte list \<Rightarrow> package_header" where
  "header_fields bytes = \<lparr>ph_product = read32 bytes 12, ph_revision = read32 bytes 16,
     ph_image_size = unat (read32 bytes 20), ph_addresses = [read32 bytes 24, read32 bytes 28],
     ph_crc = [read32 bytes 32, read32 bytes 36], ph_encoding = unat (read32 bytes 40),
     ph_package_size = unat (read32 bytes 104),
     ph_version = \<lparr>ver_major = read32 bytes 48, ver_minor = read32 bytes 52, ver_build = read32 bytes 56,
       ver_commit = (take 41 (drop 60 bytes))[40 := 0], ver_dirty = (bytes ! 101 \<noteq> 0)\<rparr>\<rparr>"

definition header_acceptable :: "layout \<Rightarrow> nat \<Rightarrow> package_header \<Rightarrow> bool" where
  "header_acceptable L destination h \<longleftrightarrow>
     (let blocks = (ph_image_size h + kBlockSize - 1) div kBlockSize;
          minimum = kHeaderSize + blocks * 12 + ph_image_size h
      in \<not> (ph_image_size h = 0 \<or> ph_image_size h > slot_size L \<or> ph_product h \<noteq> product L \<or>
            ph_revision h \<noteq> revision L \<or> map unat (ph_addresses h) \<noteq> slots L \<or> ph_encoding h > 2 \<or>
            (ph_encoding h \<noteq> 0 \<and> ph_encoding h \<noteq> destination + 1) \<or> ph_package_size h < minimum \<or>
            ph_package_size h > minimum + blocks * kMaxPatches * 2))"

definition decode_header :: "byte list \<Rightarrow> layout \<Rightarrow> nat \<Rightarrow> package_header \<Rightarrow> status \<times> package_header" where
  "decode_header bytes L destination header =
     (if length bytes \<noteq> kHeaderSize \<or> \<not> layout_valid L \<or> destination \<ge> 2 then (S_invalid_argument, header)
      else if read32 bytes 0 \<noteq> 0x50534f44 \<or> read32 bytes 4 \<noteq> 1 \<or> read32 bytes 8 \<noteq> of_nat kHeaderSize \<or>
              read32 bytes 44 \<noteq> of_nat kBlockSize \<or> read32 bytes 108 \<noteq> 0 then (S_incompatible, header)
      else if read32 bytes 124 \<noteq> crc32_calculate (take 124 bytes) then (S_checksum_error, header)
      else if \<not> header_acceptable L destination (header_fields bytes) then (S_incompatible, header)
      else (S_ok, header_fields bytes))"

section \<open>Reader\<close>

datatype reader_state = R_idle | R_header | R_patches | R_data | R_ready | R_done | R_failed

fun reader_index :: "reader_state \<Rightarrow> nat" where
  "reader_index R_idle = 0"
| "reader_index R_header = 1"
| "reader_index R_patches = 2"
| "reader_index R_data = 3"
| "reader_index R_ready = 4"
| "reader_index R_done = 5"
| "reader_index R_failed = 6"

record reader =
  pr_header :: package_header
  pr_block_header :: "byte list"
  pr_patches :: "byte list"
  pr_data :: "byte list"
  pr_machine :: "reader_state state_machine"
  pr_status :: status
  pr_destination :: nat
  pr_offset :: nat
  pr_length :: nat
  pr_patch_count :: nat
  pr_filled :: nat
  pr_start_requested :: bool
  pr_release_requested :: bool

definition reader_start :: "package_header \<Rightarrow> nat \<Rightarrow> reader \<Rightarrow> reader" where
  "reader_start header destination r =
     r\<lparr>pr_header := header, pr_destination := destination, pr_start_requested := True\<rparr>"

definition reader_release :: "reader \<Rightarrow> reader" where
  "reader_release r = r\<lparr>pr_release_requested := True\<rparr>"

definition reader_block :: "reader \<Rightarrow> byte list" where
  "reader_block r = take (pr_length r) (pr_data r)"

text \<open>
  \<open>Copy\<close> into the first \<open>n\<close> bytes of a buffer that holds \<open>filled\<close> of them: the number of bytes taken
  and the buffer.
\<close>

definition copy_into :: "byte list \<Rightarrow> nat \<Rightarrow> nat \<Rightarrow> byte list \<Rightarrow> nat \<times> byte list" where
  "copy_into input n filled buffer =
     (let count = min (length input) (n - filled) in (count, memcpy_at buffer filled (take count input)))"

definition patch_code :: "byte list \<Rightarrow> nat \<Rightarrow> u32" where
  "patch_code patches i = ucast (patches ! (i * 2)) OR push_bit 8 (ucast (patches ! (i * 2 + 1)))"

definition relocate :: "package_header \<Rightarrow> nat \<Rightarrow> u32 \<Rightarrow> byte list \<Rightarrow> byte list" where
  "relocate h destination code block =
     (if destination = 1 then
        let at = unat (code AND 0xff) * 4;
            delta = ph_addresses h ! 1 - ph_addresses h ! 0
        in write32 block at (if code AND 0x8000 \<noteq> 0 then read32 block at - delta else read32 block at + delta)
      else block)"

text \<open>The loop of \<open>Apply\<close> from patch \<open>i\<close> on; \<open>previous\<close> is the place of the patch before it.\<close>

fun apply_patches ::
  "package_header \<Rightarrow> nat \<Rightarrow> nat \<Rightarrow> byte list \<Rightarrow> nat \<Rightarrow> nat \<Rightarrow> nat \<Rightarrow> byte list \<Rightarrow> bool \<times> byte list" where
  "apply_patches h destination len patches 0 i previous block = (True, block)"
| "apply_patches h destination len patches (Suc n) i previous block =
     (let code = patch_code patches i;
          at = unat (code AND 0xff) * 4
      in if code AND 0x7f00 \<noteq> 0 \<or> at + 4 > len \<or> (i \<noteq> 0 \<and> at \<le> previous) \<or> ph_encoding h \<noteq> 0 then (False, block)
         else apply_patches h destination len patches n (i + 1) at (relocate h destination code block))"

definition reader_apply :: "reader \<Rightarrow> bool \<times> reader" where
  "reader_apply r =
     (case apply_patches (pr_header r) (pr_destination r) (pr_length r) (pr_patches r) (pr_patch_count r) 0 0 (pr_data r) of
        (good, block) \<Rightarrow> (good, r\<lparr>pr_data := block\<rparr>))"

definition reader_restart :: "reader \<Rightarrow> reader" where
  "reader_restart r = r\<lparr>pr_start_requested := False, pr_release_requested := False, pr_offset := 0, pr_length := 0,
     pr_patch_count := 0, pr_filled := 0, pr_status := S_ok\<rparr>"

definition reader_take_header :: "reader \<Rightarrow> reader_state \<times> reader" where
  "reader_take_header r =
     (let len = unat (read32 (pr_block_header r) 4);
          patch_count = unat (read32 (pr_block_header r) 8);
          r = r\<lparr>pr_length := len, pr_patch_count := patch_count\<rparr>
      in if unat (read32 (pr_block_header r) 0) \<noteq> pr_offset r \<or> pr_offset r \<ge> ph_image_size (pr_header r) \<or>
            len \<noteq> min kBlockSize (ph_image_size (pr_header r) - pr_offset r) \<or> patch_count > kMaxPatches
         then (R_failed, r\<lparr>pr_status := S_parse_error\<rparr>)
         else (if patch_count \<noteq> 0 then R_patches else R_data, r\<lparr>pr_filled := 0\<rparr>))"

definition reader_step ::
  "byte list \<Rightarrow> reader_state \<Rightarrow> reader \<times> nat \<Rightarrow> reader_state \<times> reader \<times> nat" where
  "reader_step input cs = (\<lambda>(r, consumed).
     if pr_start_requested r then (R_header, reader_restart r, consumed)
     else case cs of
       R_header \<Rightarrow>
         (case copy_into input 12 (pr_filled r) (pr_block_header r) of (n, buffer) \<Rightarrow>
            let r = r\<lparr>pr_block_header := buffer, pr_filled := pr_filled r + n\<rparr>
            in if pr_filled r = 12 then (case reader_take_header r of (ns, r) \<Rightarrow> (ns, r, n)) else (cs, r, n))
     | R_patches \<Rightarrow>
         (case copy_into input (pr_patch_count r * 2) (pr_filled r) (pr_patches r) of (n, buffer) \<Rightarrow>
            let r = r\<lparr>pr_patches := buffer, pr_filled := pr_filled r + n\<rparr>
            in if pr_filled r = pr_patch_count r * 2 then (R_data, r\<lparr>pr_filled := 0\<rparr>, n) else (cs, r, n))
     | R_data \<Rightarrow>
         (case copy_into input (pr_length r) (pr_filled r) (pr_data r) of (n, buffer) \<Rightarrow>
            let r = r\<lparr>pr_data := buffer, pr_filled := pr_filled r + n\<rparr>
            in if pr_filled r = pr_length r then
                 (case reader_apply r of (good, r) \<Rightarrow>
                    if good then (R_ready, r, n) else (R_failed, r\<lparr>pr_status := S_parse_error\<rparr>, n))
               else (cs, r, n))
     | R_ready \<Rightarrow>
         if pr_release_requested r then
           let offset = pr_offset r + pr_length r
           in (if offset = ph_image_size (pr_header r) then R_done else R_header,
               r\<lparr>pr_release_requested := False, pr_offset := offset, pr_filled := 0\<rparr>, consumed)
         else (cs, r, consumed)
     | _ \<Rightarrow> (cs, r, consumed))"

definition reader_derived :: "byte list \<Rightarrow> (reader_state, reader \<times> nat) derived" where
  "reader_derived input = \<lparr>dv_initial = R_idle, dv_index = reader_index, dv_count = 7,
     dv_step = reader_step input, dv_on_tick = (\<lambda>_ ob. ob), dv_on_enter = (\<lambda>_ ob. ob), dv_on_exit = (\<lambda>_ ob. ob)\<rparr>"

definition reader_tick :: "byte list \<Rightarrow> reader \<Rightarrow> nat \<times> reader" where
  "reader_tick input r =
     (case sm_tick (reader_derived input) (pr_machine r) (r, 0) of (_, m, r, consumed) \<Rightarrow> (consumed, r\<lparr>pr_machine := m\<rparr>))"

definition reader_new :: reader where
  "reader_new = \<lparr>pr_header = default_header, pr_block_header = replicate 12 0, pr_patches = replicate (kMaxPatches * 2) 0,
     pr_data = replicate kBlockSize 0, pr_machine = sm_new (reader_derived []), pr_status = S_ok, pr_destination = 0,
     pr_offset = 0, pr_length = 0, pr_patch_count = 0, pr_filled = 0, pr_start_requested = False,
     pr_release_requested = False\<rparr>"

abbreviation reader_state_of :: "reader \<Rightarrow> reader_state" where
  "reader_state_of r \<equiv> sm_cs (pr_machine r)"

section \<open>Ticks\<close>

interpretation reader_sm: plain_machine "reader_derived input" for input
proof unfold_locales
  show "sm_valid (reader_derived input) (dv_initial (reader_derived input))" by (simp add: sm_valid_def reader_derived_def)
  fix s ob
  show "sm_valid (reader_derived input) (fst (dv_step (reader_derived input) s ob))"
    by (cases "fst (dv_step (reader_derived input) s ob)") (simp_all add: sm_valid_def reader_derived_def)
qed (simp_all add: reader_derived_def)

definition reader_machine_ok :: "reader \<Rightarrow> bool" where
  "reader_machine_ok r \<longleftrightarrow> sm_wf (reader_derived []) (pr_machine r)"

lemma reader_machine_input: "sm_wf (reader_derived input) m = sm_wf (reader_derived []) m"
  by (simp add: sm_wf_def sm_valid_def reader_derived_def)

lemma reader_tick_step:
  assumes "reader_machine_ok r" "reader_tick input r = (n, r')"
  obtains ns r1 where "reader_step input (reader_state_of r) (r, 0) = (ns, r1, n)" "reader_state_of r' = ns"
    "\<exists>m. r' = r1\<lparr>pr_machine := m\<rparr>" "reader_machine_ok r'"
proof -
  obtain ns r1 k where s: "reader_step input (reader_state_of r) (r, 0) = (ns, r1, k)" by (metis prod_cases3)
  have w: "sm_wf (reader_derived input) (pr_machine r)" using assms(1) unfolding reader_machine_ok_def reader_machine_input [of input] .
  have d: "dv_step (reader_derived input) (reader_state_of r) (r, 0) = (ns, r1, k)" using s by (simp add: reader_derived_def)
  obtain m where m: "sm_tick (reader_derived input) (pr_machine r) (r, 0) = (S_ok, m, r1, k)" "sm_cs m = ns"
    "sm_wf (reader_derived input) m"
    by (rule reader_sm.tick_step [OF w d])
  have e: "n = k" "r' = r1\<lparr>pr_machine := m\<rparr>" using assms(2) m(1) by (auto simp: reader_tick_def)
  show thesis
  proof (rule that)
    show "reader_step input (reader_state_of r) (r, 0) = (ns, r1, n)" "reader_state_of r' = ns"
      "\<exists>m. r' = r1\<lparr>pr_machine := m\<rparr>" using s m(2) e by auto
    show "reader_machine_ok r'" using m(3) e(2) unfolding reader_machine_ok_def reader_machine_input [of input] by simp
  qed
qed

section \<open>Relocation\<close>

text \<open>What the patches make of the word at place \<open>k\<close> of a block installed in the second slot.\<close>

definition patched_word :: "package_header \<Rightarrow> u32 list \<Rightarrow> nat \<Rightarrow> u32 \<Rightarrow> u32" where
  "patched_word h codes k w =
     (let delta = ph_addresses h ! 1 - ph_addresses h ! 0
      in fold (\<lambda>code w. if unat (code AND 0xff) = k then (if code AND 0x8000 \<noteq> 0 then w - delta else w + delta) else w) codes w)"

lemma length_relocate [simp]: "length (relocate h destination code b) = length b"
  by (simp add: relocate_def Let_def)

lemma length_apply_patches [simp]: "length (snd (apply_patches h d len ps n i prev b)) = length b"
  by (induction n arbitrary: i prev b) (simp_all add: Let_def)

lemma relocate_word:
  assumes "unat (code AND 0xff) * 4 + 4 \<le> length b" "4 * k + 4 \<le> length b"
  shows "read32 (relocate h 1 code b) (4 * k) =
    (if unat (code AND 0xff) = k then (if code AND 0x8000 \<noteq> 0 then read32 b (4 * k) - (ph_addresses h ! 1 - ph_addresses h ! 0)
       else read32 b (4 * k) + (ph_addresses h ! 1 - ph_addresses h ! 0)) else read32 b (4 * k))"
proof (cases "unat (code AND 0xff) = k")
  case True
  then show ?thesis using assms by (simp add: relocate_def Let_def mult.commute read32_write32)
next
  case False
  then have "4 * k + 4 \<le> unat (code AND 0xff) * 4 \<or> unat (code AND 0xff) * 4 + 4 \<le> 4 * k" by linarith
  then show ?thesis using False by (elim disjE) (simp_all add: relocate_def Let_def read32_write32_other)
qed

lemma apply_patches_word:
  assumes "apply_patches h 1 len ps n i prev b = (True, b')" "len \<le> length b" "4 * k + 4 \<le> len"
  shows "read32 b' (4 * k) = patched_word h (map (patch_code ps) [i..<i + n]) k (read32 b (4 * k))"
  using assms
proof (induction n arbitrary: i prev b)
  case (Suc n)
  let ?c = "patch_code ps i"
  have a: "unat (?c AND 0xff) * 4 + 4 \<le> len"
    "apply_patches h 1 len ps n (i + 1) (unat (?c AND 0xff) * 4) (relocate h 1 ?c b) = (True, b')"
    using Suc.prems(1) by (auto simp: Let_def split: if_splits)
  have r: "[i..<i + Suc n] = i # [i + 1..<i + 1 + n]" by (simp add: upt_rec)
  from Suc.IH [OF a(2)] Suc.prems(2,3) have
    "read32 b' (4 * k) = patched_word h (map (patch_code ps) [i + 1..<i + 1 + n]) k (read32 (relocate h 1 ?c b) (4 * k))" by simp
  also have "\<dots> = patched_word h (map (patch_code ps) [i..<i + Suc n]) k (read32 b (4 * k))"
    using relocate_word [of ?c b k h] a(1) Suc.prems(2,3) unfolding r by (simp add: patched_word_def Let_def)
  finally show ?case .
qed (simp add: patched_word_def)

lemma apply_patches_other:
  assumes "apply_patches h d len ps n i prev b = (True, b')" "d \<noteq> 1"
  shows "b' = b"
  using assms by (induction n arbitrary: i prev b) (auto simp: Let_def relocate_def split: if_splits)

section \<open>The stream\<close>

lemma copy_into_spec:
  assumes "copy_into input n filled buffer = (k, buffer')" "filled \<le> n" "n \<le> length buffer"
  shows "k = min (length input) (n - filled)" "length buffer' = length buffer" "filled + k \<le> n"
    "take (filled + k) buffer' = take filled buffer @ take k input"
proof -
  show k: "k = min (length input) (n - filled)" using assms(1) by (simp add: copy_into_def Let_def)
  show l: "filled + k \<le> n" using k assms(2) by simp
  have b: "buffer' = memcpy_at buffer filled (take k input)" using assms(1) k by (simp add: copy_into_def Let_def)
  have t: "length (take k input) = k" using k by simp
  show "length buffer' = length buffer" using b l t assms(3) by (simp add: memcpy_at_def)
  show "take (filled + k) buffer' = take filled buffer @ take k input"
    using b t l assms(3) by (simp add: memcpy_at_def)
qed

text \<open>The block header that the reader has accepted.\<close>

definition block_header_ok :: "reader \<Rightarrow> bool" where
  "block_header_ok r \<longleftrightarrow> unat (read32 (pr_block_header r) 0) = pr_offset r \<and> unat (read32 (pr_block_header r) 4) = pr_length r \<and>
     unat (read32 (pr_block_header r) 8) = pr_patch_count r \<and> pr_offset r < ph_image_size (pr_header r) \<and>
     pr_length r = min kBlockSize (ph_image_size (pr_header r) - pr_offset r) \<and> pr_patch_count r \<le> kMaxPatches"

definition reader_wf :: "reader \<Rightarrow> bool" where
  "reader_wf r \<longleftrightarrow> reader_machine_ok r \<and> length (pr_block_header r) = 12 \<and> length (pr_patches r) = kMaxPatches * 2 \<and>
     length (pr_data r) = kBlockSize \<and> \<not> pr_start_requested r \<and> \<not> pr_release_requested r"

text \<open>The bytes taken since the block began, as the buffers hold them.\<close>

definition reading :: "reader \<Rightarrow> byte list \<Rightarrow> bool" where
  "reading r bs = (case reader_state_of r of
       R_header \<Rightarrow> pr_filled r < 12 \<and> bs = take (pr_filled r) (pr_block_header r)
     | R_patches \<Rightarrow> block_header_ok r \<and> pr_filled r < pr_patch_count r * 2 \<and>
         bs = pr_block_header r @ take (pr_filled r) (pr_patches r)
     | R_data \<Rightarrow> block_header_ok r \<and> pr_filled r < pr_length r \<and>
         bs = pr_block_header r @ take (pr_patch_count r * 2) (pr_patches r) @ take (pr_filled r) (pr_data r)
     | R_ready \<Rightarrow> block_header_ok r \<and> (\<exists>raw. length raw = kBlockSize \<and>
         bs = pr_block_header r @ take (pr_patch_count r * 2) (pr_patches r) @ take (pr_length r) raw \<and>
         apply_patches (pr_header r) (pr_destination r) (pr_length r) (pr_patches r) (pr_patch_count r) 0 0 raw = (True, pr_data r))
     | _ \<Rightarrow> True)"

lemma block_header_ok_frame [simp]:
  "block_header_ok (r\<lparr>pr_data := x\<rparr>) = block_header_ok r" "block_header_ok (r\<lparr>pr_patches := x\<rparr>) = block_header_ok r"
  "block_header_ok (r\<lparr>pr_filled := f\<rparr>) = block_header_ok r" "block_header_ok (r\<lparr>pr_machine := m\<rparr>) = block_header_ok r"
  "block_header_ok (r\<lparr>pr_status := st\<rparr>) = block_header_ok r"
  by (simp_all add: block_header_ok_def)

lemma reader_wf_frame [simp]:
  "reader_wf (r\<lparr>pr_filled := f\<rparr>) = reader_wf r" "reader_wf (r\<lparr>pr_status := st\<rparr>) = reader_wf r"
  "reader_wf (r\<lparr>pr_length := f\<rparr>) = reader_wf r" "reader_wf (r\<lparr>pr_patch_count := f\<rparr>) = reader_wf r"
  by (simp_all add: reader_wf_def reader_machine_ok_def)

lemma block_header_bounds:
  assumes "block_header_ok r"
  shows "0 < pr_length r" "pr_length r \<le> kBlockSize" "pr_patch_count r * 2 \<le> kMaxPatches * 2"
  using assms by (auto simp: block_header_ok_def kBlockSize_def)

lemma header_step:
  assumes wf: "reader_wf r" and rd: "reading r bs" and st: "reader_state_of r = R_header"
    and step: "reader_step input R_header (r, 0) = (ns, r1, n)"
  shows "reader_wf (r1\<lparr>pr_machine := pr_machine r\<rparr>) \<and> (\<forall>m. sm_cs m = ns \<longrightarrow> reading (r1\<lparr>pr_machine := m\<rparr>) (bs @ take n input)) \<and>
    pr_header r1 = pr_header r \<and> pr_destination r1 = pr_destination r \<and> pr_offset r1 = pr_offset r"
proof -
  obtain k b where c: "copy_into input 12 (pr_filled r) (pr_block_header r) = (k, b)" by fastforce
  have f: "pr_filled r \<le> 12" "12 \<le> length (pr_block_header r)" "pr_filled r < 12" "bs = take (pr_filled r) (pr_block_header r)"
    "length (pr_block_header r) = 12" "\<not> pr_start_requested r"
    using wf rd st by (auto simp: reader_wf_def reading_def)
  note sp = copy_into_spec [OF c f(1,2)]
  let ?r = "r\<lparr>pr_block_header := b, pr_filled := pr_filled r + k\<rparr>"
  have wf': "reader_wf ?r" using wf sp(2) by (simp add: reader_wf_def reader_machine_ok_def)
  show ?thesis
  proof (cases "pr_filled r + k = 12")
    case False
    then have "ns = R_header" "r1 = ?r" "n = k" using step c f(6) by (auto simp: reader_step_def Let_def)
    then show ?thesis using wf' sp f False by (simp add: reading_def)
  next
    case True
    obtain ns' r2 where h: "reader_take_header ?r = (ns', r2)" by fastforce
    have e: "ns = ns'" "r1 = r2" "n = k" using step c f(6) True h by (auto simp: reader_step_def Let_def)
    have b: "bs @ take k input = b" using sp(2,4) True f(4,5) by simp
    let ?q = "?r\<lparr>pr_length := unat (read32 b 4), pr_patch_count := unat (read32 b 8)\<rparr>"
    show ?thesis
    proof (cases "block_header_ok ?q")
      case ok: True
      then have "r2 = ?q\<lparr>pr_filled := 0\<rparr>" "ns' = (if pr_patch_count ?q \<noteq> 0 then R_patches else R_data)"
        using h by (auto simp: reader_take_header_def block_header_ok_def Let_def split: if_splits)
      moreover have "block_header_ok (?q\<lparr>pr_filled := 0, pr_machine := m\<rparr>)" for m
        using ok by (simp add: block_header_ok_def)
      ultimately show ?thesis using wf' e b block_header_bounds(1) [OF ok]
        by (cases "unat (read32 b 8) = 0") (simp_all add: reading_def)
    next
      case False
      then have "r2 = ?q\<lparr>pr_status := S_parse_error\<rparr>" "ns' = R_failed"
        using h by (auto simp: reader_take_header_def block_header_ok_def Let_def split: if_splits)
      then show ?thesis using wf' e by (simp add: reading_def)
    qed
  qed
qed

lemma patches_step:
  assumes wf: "reader_wf r" and rd: "reading r bs" and st: "reader_state_of r = R_patches"
    and step: "reader_step input R_patches (r, 0) = (ns, r1, n)"
  shows "reader_wf (r1\<lparr>pr_machine := pr_machine r\<rparr>) \<and> (\<forall>m. sm_cs m = ns \<longrightarrow> reading (r1\<lparr>pr_machine := m\<rparr>) (bs @ take n input)) \<and>
    pr_header r1 = pr_header r \<and> pr_destination r1 = pr_destination r \<and> pr_offset r1 = pr_offset r"
proof -
  obtain k b where c: "copy_into input (pr_patch_count r * 2) (pr_filled r) (pr_patches r) = (k, b)" by fastforce
  have f: "pr_filled r < pr_patch_count r * 2" "block_header_ok r" "bs = pr_block_header r @ take (pr_filled r) (pr_patches r)"
    "length (pr_patches r) = kMaxPatches * 2" "\<not> pr_start_requested r"
    using wf rd st by (auto simp: reader_wf_def reading_def)
  have le: "pr_filled r \<le> pr_patch_count r * 2" "pr_patch_count r * 2 \<le> length (pr_patches r)"
    using f block_header_bounds(3) [OF f(2)] by simp_all
  note sp = copy_into_spec [OF c le]
  let ?r = "r\<lparr>pr_patches := b, pr_filled := pr_filled r + k\<rparr>"
  have wf': "reader_wf ?r" using wf sp(2) by (simp add: reader_wf_def reader_machine_ok_def)
  show ?thesis
  proof (cases "pr_filled r + k = pr_patch_count r * 2")
    case False
    then have "ns = R_patches" "r1 = ?r" "n = k" using step c f(5) by (auto simp: reader_step_def Let_def)
    moreover have "pr_filled r + k < pr_patch_count r * 2" using sp(3) False by simp
    ultimately show ?thesis using wf' sp(4) f by (simp add: reading_def)
  next
    case True
    then have "ns = R_data" "r1 = ?r\<lparr>pr_filled := 0\<rparr>" "n = k" using step c f(5) by (auto simp: reader_step_def Let_def)
    then show ?thesis using wf' sp(4) f(2,3) True block_header_bounds(1) [OF f(2)] by (simp add: reading_def)
  qed
qed

lemma data_step:
  assumes wf: "reader_wf r" and rd: "reading r bs" and st: "reader_state_of r = R_data"
    and step: "reader_step input R_data (r, 0) = (ns, r1, n)"
  shows "reader_wf (r1\<lparr>pr_machine := pr_machine r\<rparr>) \<and> (\<forall>m. sm_cs m = ns \<longrightarrow> reading (r1\<lparr>pr_machine := m\<rparr>) (bs @ take n input)) \<and>
    pr_header r1 = pr_header r \<and> pr_destination r1 = pr_destination r \<and> pr_offset r1 = pr_offset r"
proof -
  obtain k b where c: "copy_into input (pr_length r) (pr_filled r) (pr_data r) = (k, b)" by fastforce
  have f: "pr_filled r < pr_length r" "block_header_ok r"
    "bs = pr_block_header r @ take (pr_patch_count r * 2) (pr_patches r) @ take (pr_filled r) (pr_data r)"
    "length (pr_data r) = kBlockSize" "\<not> pr_start_requested r"
    using wf rd st by (auto simp: reader_wf_def reading_def)
  have le: "pr_filled r \<le> pr_length r" "pr_length r \<le> length (pr_data r)"
    using f block_header_bounds(2) [OF f(2)] by simp_all
  note sp = copy_into_spec [OF c le]
  let ?r = "r\<lparr>pr_data := b, pr_filled := pr_filled r + k\<rparr>"
  have wf': "reader_wf ?r" using wf sp(2) by (simp add: reader_wf_def reader_machine_ok_def)
  show ?thesis
  proof (cases "pr_filled r + k = pr_length r")
    case False
    then have "ns = R_data" "r1 = ?r" "n = k" using step c f(5) by (auto simp: reader_step_def Let_def)
    moreover have "pr_filled r + k < pr_length r" using sp(3) False by simp
    ultimately show ?thesis using wf' sp(4) f by (simp add: reading_def)
  next
    case True
    obtain good b' where a: "apply_patches (pr_header r) (pr_destination r) (pr_length r) (pr_patches r) (pr_patch_count r) 0 0 b = (good, b')"
      by fastforce
    have l: "length b' = kBlockSize" using length_apply_patches a sp(2) f(4) by (metis snd_conv)
    have bs: "bs @ take k input = pr_block_header r @ take (pr_patch_count r * 2) (pr_patches r) @ take (pr_length r) b"
      using f(3) sp(4) True by simp
    show ?thesis
    proof (cases good)
      case True
      then have "ns = R_ready" "r1 = ?r\<lparr>pr_data := b'\<rparr>" "n = k"
        using step c f(5) a \<open>pr_filled r + k = pr_length r\<close> by (auto simp: reader_step_def reader_apply_def Let_def)
      moreover have "reader_wf (?r\<lparr>pr_data := b'\<rparr>)" using wf' l by (simp add: reader_wf_def reader_machine_ok_def)
      ultimately show ?thesis using bs a True sp(2) f(2,4) by (auto simp: reading_def intro!: exI [of _ b])
    next
      case False
      then have "ns = R_failed" "r1 = ?r\<lparr>pr_data := b', pr_status := S_parse_error\<rparr>"
        using step c f(5) a \<open>pr_filled r + k = pr_length r\<close> by (auto simp: reader_step_def reader_apply_def Let_def)
      then show ?thesis using wf' l by (simp add: reading_def reader_wf_def reader_machine_ok_def)
    qed
  qed
qed

lemma idle_step:
  assumes "reader_wf r" "reading r bs" "reader_state_of r \<notin> {R_header, R_patches, R_data}"
    and step: "reader_step input (reader_state_of r) (r, 0) = (ns, r1, n)"
  shows "reader_wf (r1\<lparr>pr_machine := pr_machine r\<rparr>) \<and> (\<forall>m. sm_cs m = ns \<longrightarrow> reading (r1\<lparr>pr_machine := m\<rparr>) (bs @ take n input)) \<and>
    pr_header r1 = pr_header r \<and> pr_destination r1 = pr_destination r \<and> pr_offset r1 = pr_offset r"
proof -
  have "\<not> pr_start_requested r" "\<not> pr_release_requested r" using assms(1) by (simp_all add: reader_wf_def)
  then have e: "ns = reader_state_of r" "r1 = r" "n = 0"
    using step assms(3) by (cases "reader_state_of r"; simp add: reader_step_def)+
  have "reading (r\<lparr>pr_machine := m\<rparr>) bs" if "sm_cs m = reader_state_of r" for m
    using assms(2) that by (cases "reader_state_of r") (simp_all add: reading_def)
  then show ?thesis using assms(1) e by simp
qed

lemma reading_tick:
  assumes wf: "reader_wf r" and rd: "reading r bs" and tick: "reader_tick input r = (n, r')"
  shows "reader_wf r' \<and> reading r' (bs @ take n input) \<and> pr_header r' = pr_header r \<and>
    pr_destination r' = pr_destination r \<and> pr_offset r' = pr_offset r"
proof -
  have ok: "reader_machine_ok r" using wf by (simp add: reader_wf_def)
  obtain ns r1 where s: "reader_step input (reader_state_of r) (r, 0) = (ns, r1, n)" "reader_state_of r' = ns"
    "\<exists>m. r' = r1\<lparr>pr_machine := m\<rparr>" "reader_machine_ok r'"
    by (rule reader_tick_step [OF ok tick])
  obtain m where m1: "r' = r1\<lparr>pr_machine := m\<rparr>" using s(3) by (elim exE)
  have m2: "sm_cs m = ns" using s(2) unfolding m1 by simp
  have k: "reader_wf (r1\<lparr>pr_machine := pr_machine r\<rparr>) \<and> (\<forall>m. sm_cs m = ns \<longrightarrow> reading (r1\<lparr>pr_machine := m\<rparr>) (bs @ take n input)) \<and>
    pr_header r1 = pr_header r \<and> pr_destination r1 = pr_destination r \<and> pr_offset r1 = pr_offset r"
  proof -
    consider (h) "reader_state_of r = R_header" | (p) "reader_state_of r = R_patches" | (d) "reader_state_of r = R_data"
      | (i) "reader_state_of r \<notin> {R_header, R_patches, R_data}" by blast
    then show ?thesis
    proof cases
      case h show ?thesis by (rule header_step [OF wf rd h]) (use s(1) h in simp)
    next
      case p show ?thesis by (rule patches_step [OF wf rd p]) (use s(1) p in simp)
    next
      case d show ?thesis by (rule data_step [OF wf rd d]) (use s(1) d in simp)
    next
      case i show ?thesis by (rule idle_step [OF wf rd i s(1)])
    qed
  qed
  have "reader_wf r'" using conjunct1 [OF k] s(4) unfolding m1 by (simp add: reader_wf_def)
  moreover have "reading r' (bs @ take n input)"
    using conjunct1 [OF conjunct2 [OF k]] m2 unfolding m1 by (elim allE impE)
  ultimately show ?thesis using conjunct2 [OF conjunct2 [OF k]] unfolding m1 by simp
qed

text \<open>Ticks with whatever input is offered; \<open>bs\<close> are the bytes that were taken.\<close>

inductive reads :: "reader \<Rightarrow> byte list \<Rightarrow> reader \<Rightarrow> bool" where
  reads_none: "reads r [] r"
| reads_tick: "reads r bs r' \<Longrightarrow> reader_tick input r' = (n, r'') \<Longrightarrow> reads r (bs @ take n input) r''"

lemma reads_reading:
  assumes "reads r bs r'" "reader_wf r" "reading r []"
  shows "reader_wf r' \<and> reading r' bs \<and> pr_header r' = pr_header r \<and> pr_destination r' = pr_destination r \<and> pr_offset r' = pr_offset r"
  using assms
proof (induction rule: reads.induct)
  case (reads_tick r bs r' input n r'')
  then have "reader_wf r'" "reading r' bs" by simp_all
  from reading_tick [OF this reads_tick.hyps(2)] show ?case using reads_tick.IH reads_tick.prems by simp
qed simp

lemma read32_take: "k + 4 \<le> n \<Longrightarrow> read32 (take n b) k = read32 b k"
  by (rule read32_cong) simp

lemma patch_code_take: "i * 2 + 1 < n \<Longrightarrow> patch_code (take n ps) i = patch_code ps i"
  by (simp add: patch_code_def)

text \<open>
  C24: a block that the reader hands out is the one in the stream. However the stream is cut into pieces,
  when the reader is ready it has taken exactly a block header for this offset, the patches it announces
  and the data; the block has the length the image requires there, and is the data itself or, in the
  second slot, the data with every patched word moved by the distance of the slots.
\<close>

theorem block_faithful:
  assumes "reader_wf r" "reader_state_of r = R_header" "pr_filled r = 0" and "reads r bs r'" "reader_state_of r' = R_ready"
  shows "\<exists>bh ps ds. bs = bh @ ps @ ds \<and> length bh = 12 \<and> unat (read32 bh 0) = pr_offset r \<and>
    unat (read32 bh 4) = length ds \<and> unat (read32 bh 8) * 2 = length ps \<and>
    length ds = min kBlockSize (ph_image_size (pr_header r) - pr_offset r) \<and>
    length (reader_block r') = length ds \<and>
    (if pr_destination r = 1
     then \<forall>k. 4 * k + 4 \<le> length ds \<longrightarrow> read32 (reader_block r') (4 * k) =
       patched_word (pr_header r) (map (patch_code ps) [0..<unat (read32 bh 8)]) k (read32 ds (4 * k))
     else reader_block r' = ds)"
proof -
  have "reading r []" using assms(2,3) by (simp add: reading_def)
  note re = reads_reading [OF assms(4,1) this]
  have same: "pr_header r' = pr_header r" "pr_destination r' = pr_destination r" "pr_offset r' = pr_offset r"
    and wf: "reader_wf r'" using re by simp_all
  let ?n = "pr_patch_count r'" and ?ps = "take (pr_patch_count r' * 2) (pr_patches r')"
  obtain raw where h: "block_header_ok r'" "length raw = kBlockSize" "bs = pr_block_header r' @ ?ps @ take (pr_length r') raw"
    and a: "apply_patches (pr_header r') (pr_destination r') (pr_length r') (pr_patches r') ?n 0 0 raw = (True, pr_data r')"
  proof -
    have "reading r' bs" using re by simp
    then show thesis using assms(5) that unfolding reading_def by (simp only: reader_state.case) blast
  qed
  note b = block_header_bounds [OF h(1)]
  have l: "length (pr_block_header r') = 12" "length ?ps = ?n * 2" "length (take (pr_length r') raw) = pr_length r'"
    "length (reader_block r') = pr_length r'"
    using wf b h(2) by (simp_all add: reader_wf_def reader_block_def)
  have codes: "map (patch_code ?ps) [0..<?n] = map (patch_code (pr_patches r')) [0..<?n]" by (simp add: patch_code_take)
  have w: "read32 (reader_block r') (4 * k) = patched_word (pr_header r) (map (patch_code ?ps) [0..<?n]) k (read32 (take (pr_length r') raw) (4 * k))"
    if "pr_destination r = 1" "4 * k + 4 \<le> pr_length r'" for k
    using apply_patches_word [of "pr_header r'" "pr_length r'" "pr_patches r'" ?n 0 0 raw "pr_data r'" k] a that b h(2) same
    unfolding codes by (simp add: read32_take reader_block_def)
  have o: "reader_block r' = take (pr_length r') raw" if "pr_destination r \<noteq> 1"
    using apply_patches_other [OF a] that same by (simp add: reader_block_def)
  have f: "unat (read32 (pr_block_header r') 0) = pr_offset r" "unat (read32 (pr_block_header r') 4) = pr_length r'"
    "unat (read32 (pr_block_header r') 8) = ?n" "pr_length r' = min kBlockSize (ph_image_size (pr_header r) - pr_offset r)"
    using h(1) same by (simp_all add: block_header_ok_def)
  show ?thesis
  proof (intro exI conjI)
    show "bs = pr_block_header r' @ ?ps @ take (pr_length r') raw" by (rule h(3))
    show "length (pr_block_header r') = 12" by (rule l(1))
    show "unat (read32 (pr_block_header r') 0) = pr_offset r" by (rule f(1))
    show "unat (read32 (pr_block_header r') 4) = length (take (pr_length r') raw)" using f(2) l(3) by simp
    show "unat (read32 (pr_block_header r') 8) * 2 = length ?ps" using f(3) l(2) by simp
    show "length (take (pr_length r') raw) = min kBlockSize (ph_image_size (pr_header r) - pr_offset r)"
      unfolding l(3) by (rule f(4))
    show "length (reader_block r') = length (take (pr_length r') raw)" unfolding l(3) by (rule l(4))
    show "if pr_destination r = 1
      then \<forall>k. 4 * k + 4 \<le> length (take (pr_length r') raw) \<longrightarrow> read32 (reader_block r') (4 * k) =
        patched_word (pr_header r) (map (patch_code ?ps) [0..<unat (read32 (pr_block_header r') 8)]) k (read32 (take (pr_length r') raw) (4 * k))
      else reader_block r' = take (pr_length r') raw"
      unfolding l(3) f(3) using w o by simp
  qed
qed

text \<open>A block of one word for the second slot, with one patch, offered in three pieces.\<close>

definition ex_header :: package_header where
  "ex_header = default_header\<lparr>ph_image_size := 4, ph_addresses := [0x100, 0x500]\<rparr>"

definition ex_reader :: reader where
  "ex_reader = snd (reader_tick [] (reader_start ex_header 1 reader_new))"

definition ex_stream :: "byte list" where
  "ex_stream = [0, 0, 0, 0, 4, 0, 0, 0, 1, 0, 0, 0, 0, 0, 7, 0, 0, 0]"

definition ex_ticks :: "(nat \<times> nat) \<times> nat \<times> reader" where
  "ex_ticks = (let (n1, r1) = reader_tick ex_stream ex_reader;
                   (n2, r2) = reader_tick (drop 12 ex_stream) r1;
                   (n3, r3) = reader_tick (drop 14 ex_stream) r2
               in ((n1, n2), n3, r3))"

lemma ex_reader_start:
  "reader_state_of ex_reader = R_header \<and> pr_filled ex_reader = 0 \<and> pr_destination ex_reader = 1" "reader_wf ex_reader"
  "pr_offset ex_reader = 0 \<and> pr_header ex_reader = ex_header"
proof -
  show "reader_state_of ex_reader = R_header \<and> pr_filled ex_reader = 0 \<and> pr_destination ex_reader = 1" by code_simp
  show "pr_offset ex_reader = 0 \<and> pr_header ex_reader = ex_header" by code_simp
  define r0 where "r0 = reader_start ex_header 1 reader_new"
  have m: "reader_machine_ok r0"
    using reader_sm.new_wf by (simp add: reader_machine_ok_def r0_def reader_start_def reader_new_def)
  have t: "reader_tick [] r0 = (fst (reader_tick [] r0), ex_reader)" by (simp add: ex_reader_def r0_def)
  have st: "reader_state_of r0 = R_idle" by (simp add: r0_def reader_start_def reader_new_def sm_new_def reader_derived_def)
  obtain ns r1 where r: "reader_step [] (reader_state_of r0) (r0, 0) = (ns, r1, fst (reader_tick [] r0))" "reader_state_of ex_reader = ns"
    "\<exists>m. ex_reader = r1\<lparr>pr_machine := m\<rparr>" "reader_machine_ok ex_reader"
    by (rule reader_tick_step [OF m t])
  have "r1 = reader_restart r0" using r(1) unfolding st by (simp add: reader_step_def r0_def reader_start_def)
  moreover obtain m where "ex_reader = r1\<lparr>pr_machine := m\<rparr>" using r(3) by (elim exE)
  ultimately have e: "ex_reader = (reader_restart r0)\<lparr>pr_machine := m\<rparr>" by simp
  have "length (pr_block_header ex_reader) = 12" "length (pr_patches ex_reader) = kMaxPatches * 2"
    "length (pr_data ex_reader) = kBlockSize" "\<not> pr_start_requested ex_reader" "\<not> pr_release_requested ex_reader"
    unfolding e by (simp_all add: r0_def reader_start_def reader_restart_def reader_new_def)
  then show "reader_wf ex_reader" using r(4) by (simp add: reader_wf_def)
qed

lemma ex_ticks_end: "fst ex_ticks = (12, 2) \<and> fst (snd ex_ticks) = 4 \<and> reader_state_of (snd (snd ex_ticks)) = R_ready"
  by code_simp

lemma ex_reads: "reads ex_reader ex_stream (snd (snd ex_ticks))"
proof -
  obtain r1 r2 r3 where t: "reader_tick ex_stream ex_reader = (12, r1)" "reader_tick (drop 12 ex_stream) r1 = (2, r2)"
    "reader_tick (drop 14 ex_stream) r2 = (4, r3)" "snd (snd ex_ticks) = r3"
  proof -
    obtain n1 r1 where 1: "reader_tick ex_stream ex_reader = (n1, r1)" by fastforce
    obtain n2 r2 where 2: "reader_tick (drop 12 ex_stream) r1 = (n2, r2)" by fastforce
    obtain n3 r3 where 3: "reader_tick (drop 14 ex_stream) r2 = (n3, r3)" by fastforce
    have e: "ex_ticks = ((n1, n2), n3, r3)" unfolding ex_ticks_def 1 2 3 Let_def prod.case ..
    have "n1 = 12" "n2 = 2" "n3 = 4" "snd (snd ex_ticks) = r3" using ex_ticks_end unfolding e by simp_all
    then show thesis using that [of r1 r2 r3] 1 2 3 by simp
  qed
  have "reads ex_reader ((([] @ take 12 ex_stream) @ take 2 (drop 12 ex_stream)) @ take 4 (drop 14 ex_stream)) r3"
    by (rule reads_tick [OF reads_tick [OF reads_tick [OF reads_none t(1)] t(2)] t(3)])
  moreover have "(([] @ take 12 ex_stream) @ take 2 (drop 12 ex_stream)) @ take 4 (drop 14 ex_stream) = ex_stream"
    by (simp add: ex_stream_def)
  ultimately show ?thesis using t(4) by simp
qed

theorem block_faithful_witness:
  "\<exists>bh ps ds. ex_stream = bh @ ps @ ds \<and> length bh = 12 \<and> length ds = 4 \<and>
     length (reader_block (snd (snd ex_ticks))) = length ds"
  using block_faithful [OF ex_reader_start(2) _ _ ex_reads] ex_reader_start(1,3) ex_ticks_end
  by (auto simp: ex_header_def default_header_def kBlockSize_def)

end
