(* ===== verification/Update_Writer.thy ===== *)
theory Update_Writer
  imports Boot_Host
begin

text \<open>
  The image writer (lib/update/writer.h and writer.cpp): it writes one block of an image into a slot,
  erasing each sector on the way when it is reached. The flash and the layout are parameters, as they are
  constant members; the word buffer is filled anew for every unit and not kept.
\<close>

section \<open>Writer\<close>

datatype writer_state = W_idle | W_prepare | W_erase_wait | W_program_wait | W_done | W_failed

fun writer_index :: "writer_state \<Rightarrow> nat" where
  "writer_index W_idle = 0"
| "writer_index W_prepare = 1"
| "writer_index W_erase_wait = 2"
| "writer_index W_program_wait = 3"
| "writer_index W_done = 4"
| "writer_index W_failed = 5"

record writer =
  uw_machine :: "writer_state state_machine"
  uw_status :: status
  uw_data :: "byte list"
  uw_base :: nat
  uw_offset :: nat
  uw_erased_until :: nat
  uw_written :: nat
  uw_operation_started :: time
  uw_requested :: bool
  uw_cancelled :: bool

definition writer_begin ::
  "'d flash \<Rightarrow> layout \<Rightarrow> nat \<Rightarrow> nat \<Rightarrow> byte list \<Rightarrow> writer \<Rightarrow> 'd \<Rightarrow> status \<times> writer \<times> 'd" where
  "writer_begin F L slot offset bytes w d =
     (if uw_status w = S_busy then (S_busy, w, d)
      else if \<not> layout_valid L \<or> \<not> flash_valid F \<or> slot \<ge> 2 \<or> bytes = [] \<or> offset mod write_size L \<noteq> 0 \<or>
              offset \<ge> slot_size L \<or> length bytes > slot_size L - offset then (S_invalid_argument, w, d)
      else case fl_poll F d of (s, d) \<Rightarrow>
        if s = S_busy then (S_busy, w, d)
        else (S_ok, w\<lparr>uw_base := slots L ! slot, uw_offset := offset,
                       uw_erased_until := (if offset = 0 then 0 else uw_erased_until w), uw_written := 0,
                       uw_data := bytes, uw_requested := True, uw_cancelled := False, uw_status := S_busy\<rparr>, d))"

definition writer_cancel :: "writer \<Rightarrow> writer" where
  "writer_cancel w = w\<lparr>uw_cancelled := True\<rparr>"

text \<open>The unit that is programmed next, filled up with the erased value.\<close>

definition writer_word :: "layout \<Rightarrow> writer \<Rightarrow> byte list" where
  "writer_word L w = (let count = min (write_size L) (length (uw_data w) - uw_written w)
     in take count (drop (uw_written w) (uw_data w)) @ replicate (write_size L - count) 0xff)"

definition writer_prepare :: "'d flash \<Rightarrow> layout \<Rightarrow> writer \<times> 'd \<Rightarrow> writer_state \<times> writer \<times> 'd" where
  "writer_prepare F L = (\<lambda>(w, d).
     let position = uw_offset w + uw_written w
     in case (if position \<ge> uw_erased_until w then
                let sector = position - position mod sector_size L
                in (W_erase_wait, w\<lparr>uw_erased_until := sector + sector_size L\<rparr>, fl_erase F d (uw_base w + sector))
              else (W_program_wait, w, fl_program F d (uw_base w + position) (writer_word L w))) of
          (ns, w, result, d) \<Rightarrow>
            (case fl_now F d of (t, d) \<Rightarrow>
               let w = w\<lparr>uw_operation_started := t\<rparr>
               in if result \<noteq> S_ok then (W_failed, w\<lparr>uw_status := (if result = S_busy then S_io_error else result)\<rparr>, d)
                  else (ns, w, d)))"

text \<open>The poll of a wait, with the time limit; the clock is read only while the device is busy.\<close>

definition writer_poll :: "'d flash \<Rightarrow> layout \<Rightarrow> writer \<Rightarrow> 'd \<Rightarrow> status \<times> 'd" where
  "writer_poll F L w d =
     (case fl_poll F d of (s, d) \<Rightarrow>
        if s = S_busy then
          (case fl_now F d of (t, d) \<Rightarrow> (if t - uw_operation_started w \<ge> operation_timeout L then S_timeout else S_busy, d))
        else (s, d))"

definition writer_wait :: "'d flash \<Rightarrow> layout \<Rightarrow> writer_state \<Rightarrow> writer \<times> 'd \<Rightarrow> writer_state \<times> writer \<times> 'd" where
  "writer_wait F L cs = (\<lambda>(w, d).
     case writer_poll F L w d of (result, d) \<Rightarrow>
       if result = S_busy then (cs, w, d)
       else if result \<noteq> S_ok then (W_failed, w\<lparr>uw_status := result\<rparr>, d)
       else if uw_cancelled w then (W_done, w\<lparr>uw_status := S_rejected\<rparr>, d)
       else (W_prepare,
             if cs = W_program_wait
             then w\<lparr>uw_written := uw_written w + min (write_size L) (length (uw_data w) - uw_written w)\<rparr> else w, d))"

definition writer_step :: "'d flash \<Rightarrow> layout \<Rightarrow> writer_state \<Rightarrow> writer \<times> 'd \<Rightarrow> writer_state \<times> writer \<times> 'd" where
  "writer_step F L cs = (\<lambda>(w, d). case cs of
       W_prepare \<Rightarrow>
         if uw_cancelled w then (W_done, w\<lparr>uw_status := S_rejected\<rparr>, d)
         else if uw_written w = length (uw_data w) then (W_done, w\<lparr>uw_status := S_ok\<rparr>, d)
         else writer_prepare F L (w, d)
     | W_erase_wait \<Rightarrow> writer_wait F L cs (w, d)
     | W_program_wait \<Rightarrow> writer_wait F L cs (w, d)
     | _ \<Rightarrow> if uw_requested w then (W_prepare, w\<lparr>uw_requested := False\<rparr>, d) else (cs, w, d))"

definition writer_derived :: "'d flash \<Rightarrow> layout \<Rightarrow> (writer_state, writer \<times> 'd) derived" where
  "writer_derived F L = \<lparr>dv_initial = W_idle, dv_index = writer_index, dv_count = 6, dv_step = writer_step F L,
     dv_on_tick = (\<lambda>_ ob. ob), dv_on_enter = (\<lambda>_ ob. ob), dv_on_exit = (\<lambda>_ ob. ob)\<rparr>"

definition writer_tick :: "'d flash \<Rightarrow> layout \<Rightarrow> writer \<times> 'd \<Rightarrow> writer \<times> 'd" where
  "writer_tick F L = (\<lambda>(w, d).
     case sm_tick (writer_derived F L) (uw_machine w) (w, d) of (_, m, w, d) \<Rightarrow> (w\<lparr>uw_machine := m\<rparr>, d))"

definition writer_new :: "'d flash \<Rightarrow> layout \<Rightarrow> writer" where
  "writer_new F L = \<lparr>uw_machine = sm_new (writer_derived F L), uw_status = S_ok, uw_data = [], uw_base = 0, uw_offset = 0,
     uw_erased_until = 0, uw_written = 0, uw_operation_started = 0, uw_requested = False, uw_cancelled = False\<rparr>"

abbreviation writer_state_of :: "writer \<Rightarrow> writer_state" where
  "writer_state_of w \<equiv> sm_cs (uw_machine w)"

section \<open>Ticks\<close>

interpretation writer_sm: plain_machine "writer_derived F L" for F :: "'d flash" and L
proof unfold_locales
  show "sm_valid (writer_derived F L) (dv_initial (writer_derived F L))" by (simp add: sm_valid_def writer_derived_def)
  fix s ob
  show "sm_valid (writer_derived F L) (fst (dv_step (writer_derived F L) s ob))"
    by (cases "fst (dv_step (writer_derived F L) s ob)") (simp_all add: sm_valid_def writer_derived_def)
qed (simp_all add: writer_derived_def)

lemma writer_tick_step:
  assumes "sm_wf (writer_derived F L) (uw_machine w)" "writer_tick F L (w, d) = (w', d')"
  obtains ns w1 m where "writer_step F L (writer_state_of w) (w, d) = (ns, w1, d')" "w' = w1\<lparr>uw_machine := m\<rparr>"
    "sm_cs m = ns" "sm_wf (writer_derived F L) m"
proof -
  obtain ns w1 d1 where s: "writer_step F L (writer_state_of w) (w, d) = (ns, w1, d1)" by (metis prod_cases3)
  then have ds: "dv_step (writer_derived F L) (writer_state_of w) (w, d) = (ns, w1, d1)" by (simp add: writer_derived_def)
  obtain m where m: "sm_tick (writer_derived F L) (uw_machine w) (w, d) = (S_ok, m, w1, d1)" "sm_cs m = ns"
    "sm_wf (writer_derived F L) m"
    by (rule writer_sm.tick_step [OF assms(1) ds])
  have "w' = w1\<lparr>uw_machine := m\<rparr>" "d' = d1" using assms(2) m(1) by (simp_all add: writer_tick_def)
  then show thesis using that s m(2,3) by blast
qed

section \<open>What is written\<close>

definition write_position :: "writer \<Rightarrow> nat" where
  "write_position w = uw_offset w + uw_written w"

definition writer_region :: "layout \<Rightarrow> writer \<Rightarrow> nat set" where
  "writer_region L w = {uw_base w + uw_offset w..<uw_base w + slot_size L}"

definition writer_rest :: "layout \<Rightarrow> writer \<Rightarrow> nat set" where
  "writer_rest L w = {uw_base w + write_position w..<uw_base w + slot_size L}"

text \<open>The sectors below \<open>uw_erased_until\<close> are erased as far as they are not written yet.\<close>

definition writer_shape :: "layout \<Rightarrow> writer \<Rightarrow> bool" where
  "writer_shape L w \<longleftrightarrow> layout_valid L \<and> uw_offset w mod write_size L = 0 \<and> uw_offset w + length (uw_data w) \<le> slot_size L \<and>
     uw_erased_until w mod sector_size L = 0 \<and> uw_erased_until w \<le> slot_size L \<and> write_position w \<le> uw_erased_until w \<and>
     uw_written w \<le> length (uw_data w) \<and> (uw_written w = length (uw_data w) \<or> uw_written w mod write_size L = 0)"

text \<open>
  The memory \<open>m\<close> during a write that found \<open>m0\<close>: what has been written is there, the rest of the flash is as
  it was, and an operation in progress can only reach what is still to be written.
\<close>

definition writer_memory :: "layout \<Rightarrow> (nat \<Rightarrow> byte) \<Rightarrow> writer \<Rightarrow> (nat \<Rightarrow> byte) \<Rightarrow> flash_op option \<Rightarrow> bool" where
  "writer_memory L m0 w m opn \<longleftrightarrow>
     (\<forall>k < uw_written w. m (uw_base w + uw_offset w + k) = uw_data w ! k) \<and>
     (\<forall>x. x \<notin> writer_region L w \<longrightarrow> m x = m0 x) \<and>
     (\<forall>p. opn = Some p \<longrightarrow> op_region (sector_size L) p \<subseteq> writer_rest L w)"

definition writer_phase :: "layout \<Rightarrow> writer \<Rightarrow> writer_state \<Rightarrow> flash_op option \<Rightarrow> bool" where
  "writer_phase L w cs opn = (case cs of
       W_prepare \<Rightarrow> opn = None \<and> uw_status w = S_busy \<and> \<not> uw_requested w
     | W_erase_wait \<Rightarrow> opn \<noteq> None \<and> uw_status w = S_busy \<and> \<not> uw_requested w
     | W_program_wait \<Rightarrow> opn = Some (Op_program (uw_base w + write_position w) (writer_word L w)) \<and>
         uw_written w < length (uw_data w) \<and> write_position w < uw_erased_until w \<and> uw_status w = S_busy \<and> \<not> uw_requested w
     | _ \<Rightarrow> if uw_requested w then opn = None \<and> uw_status w = S_busy
            else uw_status w \<noteq> S_busy \<and> (uw_status w = S_ok \<longrightarrow> uw_written w = length (uw_data w)))"

definition writer_inv :: "layout \<Rightarrow> (nat \<Rightarrow> byte) \<Rightarrow> writer_state \<Rightarrow> writer \<Rightarrow> (nat \<Rightarrow> byte) \<Rightarrow> flash_op option \<Rightarrow> bool" where
  "writer_inv L m0 cs w m opn \<longleftrightarrow> writer_shape L w \<and> writer_memory L m0 w m opn \<and> writer_phase L w cs opn"

lemma length_writer_word: "length (writer_word L w) = write_size L"
  by (simp add: writer_word_def Let_def)

lemma writer_word_nth:
  assumes "i < write_size L" "uw_written w + i < length (uw_data w)"
  shows "writer_word L w ! i = uw_data w ! (uw_written w + i)"
  using assms by (auto simp: writer_word_def Let_def nth_append)

lemma write_size_dvd: "layout_valid L \<Longrightarrow> write_size L dvd sector_size L"
proof -
  assume v: "layout_valid L"
  have "write_size L dvd kRecordSize" using layout_valid_sizes(4) [OF v] by (auto simp: kRecordSize_def)
  then show ?thesis using layout_valid_sizes(3) [OF v] by (rule dvd_trans)
qed

lemma dvd_less_step: "(n::nat) dvd a \<Longrightarrow> n dvd b \<Longrightarrow> a < b \<Longrightarrow> a + n \<le> b"
proof -
  assume "n dvd a" "n dvd b" "a < b"
  then have "n \<le> b - a" by (intro dvd_imp_le dvd_diff_nat) simp_all
  then show ?thesis using \<open>a < b\<close> by simp
qed

text \<open>A unit lies within the erased sectors, and a sector that is to be erased starts at the position itself.\<close>

lemma writer_position:
  assumes "writer_shape L w" "uw_written w < length (uw_data w)"
  shows "write_size L dvd write_position w"
    and "write_position w < uw_erased_until w \<Longrightarrow> write_position w + write_size L \<le> uw_erased_until w"
    and "\<not> write_position w < uw_erased_until w \<Longrightarrow>
      write_position w mod sector_size L = 0 \<and> write_position w + sector_size L \<le> slot_size L"
proof -
  have v: "layout_valid L" using assms(1) by (simp add: writer_shape_def)
  show d: "write_size L dvd write_position w"
    using assms unfolding writer_shape_def write_position_def by (intro dvd_add) (simp_all add: dvd_eq_mod_eq_0)
  have "sector_size L dvd uw_erased_until w" using assms(1) by (simp add: writer_shape_def dvd_eq_mod_eq_0)
  then show "write_position w < uw_erased_until w \<Longrightarrow> write_position w + write_size L \<le> uw_erased_until w"
    by (rule dvd_less_step [OF d dvd_trans [OF write_size_dvd [OF v]]])
  assume "\<not> write_position w < uw_erased_until w"
  then have e: "write_position w = uw_erased_until w" using assms(1) by (simp add: writer_shape_def)
  have l: "write_position w < slot_size L" using assms by (simp add: writer_shape_def write_position_def)
  have "sector_size L dvd slot_size L" using v by (auto simp: layout_valid_def)
  then show "write_position w mod sector_size L = 0 \<and> write_position w + sector_size L \<le> slot_size L"
    using dvd_less_step [of "sector_size L" "write_position w" "slot_size L"] assms(1) e l
    by (auto simp: writer_shape_def)
qed

lemma op_partial_beyond:
  assumes "op_partial ss opn m m'" "x \<notin> op_region ss opn"
  shows "m' x = m x"
  using assms by (cases opn) auto

lemma writer_memory_outside:
  assumes "writer_memory L m0 w m opn" "\<And>x. x \<notin> writer_rest L w \<Longrightarrow> m' x = m x" "opn' = opn \<or> opn' = None"
  shows "writer_memory L m0 w m' opn'"
proof -
  have "m' (uw_base w + uw_offset w + k) = uw_data w ! k" if "k < uw_written w" for k
    using assms(1) assms(2) [of "uw_base w + uw_offset w + k"] that by (simp add: writer_memory_def writer_rest_def write_position_def)
  moreover have "m' x = m0 x" if "x \<notin> writer_region L w" for x
    using assms(1) assms(2) [of x] that by (auto simp: writer_memory_def writer_rest_def writer_region_def write_position_def)
  ultimately show ?thesis using assms(1,3) by (auto simp: writer_memory_def)
qed

text \<open>The fields that the invariant does not depend on.\<close>

lemma writer_inv_frame:
  "writer_shape L (w\<lparr>uw_machine := m\<rparr>) = writer_shape L w" "writer_shape L (w\<lparr>uw_status := st\<rparr>) = writer_shape L w"
  "writer_shape L (w\<lparr>uw_operation_started := t\<rparr>) = writer_shape L w" "writer_shape L (w\<lparr>uw_requested := b\<rparr>) = writer_shape L w"
  "writer_shape L (w\<lparr>uw_cancelled := b\<rparr>) = writer_shape L w"
  "writer_memory L m0 (w\<lparr>uw_machine := m\<rparr>) = writer_memory L m0 w"
  "writer_memory L m0 (w\<lparr>uw_status := st\<rparr>) = writer_memory L m0 w"
  "writer_memory L m0 (w\<lparr>uw_operation_started := t\<rparr>) = writer_memory L m0 w"
  "writer_memory L m0 (w\<lparr>uw_requested := b\<rparr>) = writer_memory L m0 w"
  "writer_memory L m0 (w\<lparr>uw_cancelled := b\<rparr>) = writer_memory L m0 w"
  "writer_memory L m0 (w\<lparr>uw_erased_until := e\<rparr>) = writer_memory L m0 w"
  "writer_phase L (w\<lparr>uw_machine := m\<rparr>) = writer_phase L w"
  "writer_phase L (w\<lparr>uw_operation_started := t\<rparr>) = writer_phase L w"
  "writer_phase L (w\<lparr>uw_cancelled := b\<rparr>) = writer_phase L w"
  "write_position (w\<lparr>uw_erased_until := e\<rparr>) = write_position w"
  by (simp_all add: writer_shape_def writer_memory_def writer_phase_def write_position_def writer_rest_def writer_region_def
      writer_word_def fun_eq_iff split: writer_state.split)

text \<open>A unit has been programmed.\<close>

definition writer_advance :: "layout \<Rightarrow> writer \<Rightarrow> writer" where
  "writer_advance L w = w\<lparr>uw_written := uw_written w + min (write_size L) (length (uw_data w) - uw_written w)\<rparr>"

lemma writer_advance_shape:
  assumes "writer_shape L w" "uw_written w < length (uw_data w)" "write_position w < uw_erased_until w"
  shows "writer_shape L (writer_advance L w)"
proof -
  define count where "count = min (write_size L) (length (uw_data w) - uw_written w)"
  have c: "count = length (uw_data w) - uw_written w \<or> count = write_size L" "count \<le> write_size L"
    "count \<le> length (uw_data w) - uw_written w"
    by (auto simp: count_def)
  have "write_position w + count \<le> uw_erased_until w" using writer_position(2) [OF assms(1,2,3)] c(2) by simp
  then show ?thesis
    using assms(1,2) c unfolding writer_advance_def count_def [symmetric]
    by (auto simp: writer_shape_def write_position_def)
qed

lemma writer_advance_memory:
  assumes "writer_memory L m0 w m opn" "opn = Some (Op_program (uw_base w + write_position w) (writer_word L w))"
    "m' = apply_op (sector_size L) (the opn) m"
  shows "writer_memory L m0 (writer_advance L w) m' None"
proof -
  have r: "writer_region L (writer_advance L w) = writer_region L w" by (simp add: writer_region_def writer_advance_def)
  have a: "{uw_base w + write_position w..<uw_base w + write_position w + write_size L} \<subseteq> writer_rest L w"
    using assms(1,2) by (simp add: writer_memory_def length_writer_word)
  have "m' x = m0 x" if "x \<notin> writer_region L w" for x
  proof -
    have "x \<notin> writer_rest L w" using that by (auto simp: writer_rest_def writer_region_def write_position_def)
    then have "m' x = m x" using a assms(2,3) by (auto simp: length_writer_word)
    then show ?thesis using assms(1) that by (simp add: writer_memory_def)
  qed
  moreover have "m' (uw_base w + uw_offset w + k) = uw_data w ! k" if "k < uw_written (writer_advance L w)" for k
  proof (cases "k < uw_written w")
    case True
    then show ?thesis using assms by (simp add: writer_memory_def write_position_def)
  next
    case False
    then obtain i where i: "k = uw_written w + i" using le_Suc_ex not_less by blast
    have "i < write_size L" "uw_written w + i < length (uw_data w)" using that i by (auto simp: writer_advance_def)
    then show ?thesis using i writer_word_nth [of i L w] assms(2,3) by (simp add: write_position_def length_writer_word)
  qed
  ultimately show ?thesis by (simp add: writer_memory_def r) (simp add: writer_advance_def)
qed

context flash_device
begin

lemma poll_outside:
  assumes "wf d" "fl_poll F d = (s, d')" "\<And>p. pending d = Some p \<Longrightarrow> x \<notin> op_region ss p"
  shows "mem d' x = mem d x"
proof (cases "pending d")
  case None
  then show ?thesis using poll_law [OF assms(1,2)] by simp
next
  case (Some p)
  then have "op_partial ss p (mem d) (mem d')"
    using poll_law [OF assms(1,2)] op_partial_apply [of ss p "mem d"] by (auto split: if_splits)
  then show ?thesis by (rule op_partial_beyond [OF _ assms(3) [OF Some]])
qed

lemma writer_poll_memory:
  assumes "ss = sector_size L" "wf d" "writer_memory L m0 w (mem d) (pending d)" "fl_poll F d = (s, d')"
  shows "wf d'" "writer_memory L m0 w (mem d') (pending d')" "s \<noteq> S_busy \<Longrightarrow> pending d' = None"
proof -
  note law = poll_law [OF assms(2,4)]
  show "wf d'" using law by simp
  have "mem d' x = mem d x" if "x \<notin> writer_rest L w" for x
    by (rule poll_outside [OF assms(2,4)]) (use assms(1,3) that in \<open>auto simp: writer_memory_def\<close>)
  moreover have "pending d' = pending d \<or> pending d' = None" using law by (auto split: option.splits if_splits)
  ultimately show "writer_memory L m0 w (mem d') (pending d')" by (rule writer_memory_outside [OF assms(3)])
  show "s \<noteq> S_busy \<Longrightarrow> pending d' = None" using law by (auto split: option.splits if_splits)
qed

lemma writer_wait_inv:
  assumes ss: "ss = sector_size L" and g: "wf d" and inv: "writer_inv L m0 cs w (mem d) (pending d)"
    and cs: "cs = W_erase_wait \<or> cs = W_program_wait" and step: "writer_wait F L cs (w, d) = (ns, w', d')"
  shows "wf d' \<and> writer_inv L m0 ns w' (mem d') (pending d')"
proof -
  have sh: "writer_shape L w" and me: "writer_memory L m0 w (mem d) (pending d)" and ph: "writer_phase L w cs (pending d)"
    using inv by (simp_all add: writer_inv_def)
  have st: "uw_status w = S_busy" "\<not> uw_requested w" "pending d \<noteq> None" using ph cs by (auto simp: writer_phase_def)
  obtain s d1 where p: "fl_poll F d = (s, d1)" by fastforce
  note law = poll_law [OF g p] and m1 = writer_poll_memory [OF ss g me p]
  show ?thesis
  proof (cases "s = S_busy")
    case True
    obtain t d2 where n: "fl_now F d1 = (t, d2)" by fastforce
    have d2: "wf d2" "mem d2 = mem d1" "pending d2 = pending d" using now_law [OF m1(1) n] law True st(3) by auto
    have "writer_memory L m0 w (mem d2) (pending d2)" using m1(2) law True st(3) d2 by auto
    then show ?thesis
      using step p n True d2 sh ph st unfolding writer_wait_def writer_poll_def writer_inv_def
      by (auto simp: writer_inv_frame split: if_splits) (simp add: writer_phase_def)
  next
    case False
    show ?thesis
    proof (cases "s = S_ok \<and> \<not> uw_cancelled w \<and> cs = W_program_wait")
      case True
      then have o: "pending d = Some (Op_program (uw_base w + write_position w) (writer_word L w))"
        "uw_written w < length (uw_data w)" "write_position w < uw_erased_until w"
        using ph by (simp_all add: writer_phase_def)
      have e: "mem d1 = apply_op (sector_size L) (the (pending d)) (mem d)" "pending d1 = None" using law True o(1) ss by simp_all
      have "ns = W_prepare" "w' = writer_advance L w" "d' = d1"
        using step p True by (simp_all add: writer_wait_def writer_poll_def writer_advance_def)
      then show ?thesis
        using m1(1) writer_advance_shape [OF sh o(2,3)] writer_advance_memory [OF me o(1) e(1)] e(2) st
        by (simp add: writer_inv_def writer_phase_def writer_advance_def)
    next
      case nf: False
      then show ?thesis
        using step p False m1 sh st cs unfolding writer_wait_def writer_poll_def writer_inv_def
        by (auto simp: writer_inv_frame writer_phase_def split: if_splits)
    qed
  qed
qed

text \<open>An operation that was started, or refused, in state \<open>prepare\<close>.\<close>

lemma writer_started_inv:
  assumes sh: "writer_shape L w" and me: "writer_memory L m0 w (mem d) None" and st: "uw_status w = S_busy" "\<not> uw_requested w"
    and d1: "wf d1" "mem d1 = mem d" "pending d1 = (if result = S_ok then Some p else None)"
    and reg: "op_region (sector_size L) p \<subseteq> writer_rest L w" and ph: "writer_phase L w ns (Some p)"
    and n: "fl_now F d1 = (t, d2)" and w1: "w1 = w\<lparr>uw_operation_started := t\<rparr>"
    and e: "(if result \<noteq> S_ok then (W_failed, w1\<lparr>uw_status := (if result = S_busy then S_io_error else result)\<rparr>, d2)
             else (ns, w1, d2)) = (ns', w', d')"
  shows "wf d' \<and> writer_inv L m0 ns' w' (mem d') (pending d')"
proof -
  note law = now_law [OF d1(1) n]
  have "writer_memory L m0 w (mem d2) (pending d2)" using law d1 me reg by (auto simp: writer_memory_def)
  then show ?thesis
  proof (cases "result = S_ok")
    case True
    then show ?thesis using e law d1 sh ph w1 \<open>writer_memory L m0 w (mem d2) (pending d2)\<close>
      by (auto simp: writer_inv_def writer_inv_frame)
  next
    case False
    then show ?thesis using e law sh st w1 \<open>writer_memory L m0 w (mem d2) (pending d2)\<close>
      by (auto simp: writer_inv_def writer_inv_frame) (simp_all add: writer_phase_def)
  qed
qed

lemma writer_prepare_inv:
  assumes g: "wf d" and inv: "writer_inv L m0 W_prepare w (mem d) (pending d)" and more: "uw_written w \<noteq> length (uw_data w)"
    and step: "writer_prepare F L (w, d) = (ns, w', d')"
  shows "wf d' \<and> writer_inv L m0 ns w' (mem d') (pending d')"
proof -
  have sh: "writer_shape L w" and me: "writer_memory L m0 w (mem d) None" and pn: "pending d = None"
    and st: "uw_status w = S_busy" "\<not> uw_requested w"
    using inv by (auto simp: writer_inv_def writer_phase_def)
  have l: "uw_written w < length (uw_data w)" using sh more by (simp add: writer_shape_def)
  note pos = writer_position [OF sh l]
  show ?thesis
  proof (cases "write_position w < uw_erased_until w")
    case True
    let ?p = "Op_program (uw_base w + write_position w) (writer_word L w)"
    obtain result d1 where o: "fl_program F d (uw_base w + write_position w) (writer_word L w) = (result, d1)" by fastforce
    obtain t d2 where n: "fl_now F d1 = (t, d2)" by fastforce
    have reg: "op_region (sector_size L) ?p \<subseteq> writer_rest L w"
      using pos(2) [OF True] sh by (auto simp: writer_rest_def length_writer_word writer_shape_def)
    have ph: "writer_phase L w W_program_wait (Some ?p)" using l True st by (simp add: writer_phase_def)
    show ?thesis
      by (rule writer_started_inv [where result = result, OF sh me st _ _ _ reg ph n refl])
        (use program_law [OF g o] pn step o n True in \<open>simp_all add: writer_prepare_def Let_def write_position_def split: if_splits\<close>)
  next
    case False
    let ?v = "w\<lparr>uw_erased_until := write_position w + sector_size L\<rparr>"
    note p0 = pos(3) [OF False]
    obtain result d1 where o: "fl_erase F d (uw_base w + write_position w) = (result, d1)" by fastforce
    obtain t d2 where n: "fl_now F d1 = (t, d2)" by fastforce
    have sh': "writer_shape L ?v" using sh p0 by (simp add: writer_shape_def writer_inv_frame)
    have me': "writer_memory L m0 ?v (mem d) None" using me by (simp add: writer_inv_frame)
    have reg: "op_region (sector_size L) (Op_erase (uw_base w + write_position w)) \<subseteq> writer_rest L ?v"
      using p0 by (auto simp: writer_rest_def write_position_def)
    have ph: "writer_phase L ?v W_erase_wait (Some (Op_erase (uw_base w + write_position w)))" using st by (simp add: writer_phase_def)
    show ?thesis
      by (rule writer_started_inv [where result = result, OF sh' me' _ _ _ _ _ reg ph n refl])
        (use erase_law [OF g o] pn st step o n False p0 in \<open>simp_all add: writer_prepare_def Let_def write_position_def split: if_splits\<close>)
  qed
qed

lemma writer_step_inv:
  assumes ss: "ss = sector_size L" and g: "wf d" and inv: "writer_inv L m0 cs w (mem d) (pending d)"
    and step: "writer_step F L cs (w, d) = (ns, w', d')"
  shows "wf d' \<and> writer_inv L m0 ns w' (mem d') (pending d')"
proof (cases "cs = W_erase_wait \<or> cs = W_program_wait")
  case True
  show ?thesis by (rule writer_wait_inv [OF ss g inv True]) (use step True in \<open>auto simp: writer_step_def\<close>)
next
  case nw: False
  show ?thesis
  proof (cases "cs = W_prepare \<and> \<not> uw_cancelled w \<and> uw_written w \<noteq> length (uw_data w)")
    case True
    then show ?thesis using writer_prepare_inv [OF g] inv step by (simp add: writer_step_def)
  next
    case False
    then show ?thesis using nw inv g step
      by (cases cs) (auto simp: writer_step_def writer_inv_def writer_inv_frame split: if_splits, auto simp: writer_phase_def)
  qed
qed

text \<open>The invariant over ticks and cancellation.\<close>

definition writer_ok :: "layout \<Rightarrow> (nat \<Rightarrow> byte) \<Rightarrow> writer \<times> 'd \<Rightarrow> bool" where
  "writer_ok L m0 = (\<lambda>(w, d). wf d \<and> sm_wf (writer_derived F L) (uw_machine w) \<and>
     writer_inv L m0 (writer_state_of w) w (mem d) (pending d))"

lemma writer_tick_ok:
  assumes "ss = sector_size L" "writer_ok L m0 (w, d)" "writer_tick F L (w, d) = (w', d')"
  shows "writer_ok L m0 (w', d')"
proof -
  have a: "wf d" "sm_wf (writer_derived F L) (uw_machine w)" "writer_inv L m0 (writer_state_of w) w (mem d) (pending d)"
    using assms(2) by (simp_all add: writer_ok_def)
  obtain ns w1 m where s: "writer_step F L (writer_state_of w) (w, d) = (ns, w1, d')" "w' = w1\<lparr>uw_machine := m\<rparr>"
    "sm_cs m = ns" "sm_wf (writer_derived F L) m"
    by (rule writer_tick_step [OF a(2) assms(3)])
  show ?thesis using writer_step_inv [OF assms(1) a(1,3) s(1)] s(2-4) by (simp add: writer_ok_def writer_inv_def writer_inv_frame)
qed

end

text \<open>What a caller may do while a block is written, in any order and number.\<close>

inductive writer_runs :: "'d flash \<Rightarrow> layout \<Rightarrow> writer \<times> 'd \<Rightarrow> writer \<times> 'd \<Rightarrow> bool" for F L where
  runs_none: "writer_runs F L x x"
| runs_tick: "writer_runs F L x y \<Longrightarrow> writer_runs F L x (writer_tick F L y)"
| runs_cancel: "writer_runs F L x (w, d) \<Longrightarrow> writer_runs F L x (writer_cancel w, d)"

abbreviation writer_task :: "writer \<Rightarrow> nat \<times> nat \<times> byte list" where
  "writer_task w \<equiv> (uw_base w, uw_offset w, uw_data w)"

lemma writer_step_task:
  assumes "writer_step F L cs (w, d) = (ns, w', d')"
  shows "writer_task w' = writer_task w"
  using assms unfolding writer_step_def writer_prepare_def writer_wait_def
  by (auto simp: Let_def split: writer_state.splits if_splits prod.splits)

text \<open>A writer between two blocks, and where the next block may start.\<close>

definition writer_resting :: "'d flash \<Rightarrow> layout \<Rightarrow> writer \<Rightarrow> bool" where
  "writer_resting F L w \<longleftrightarrow> sm_wf (writer_derived F L) (uw_machine w) \<and> \<not> uw_requested w \<and> uw_status w \<noteq> S_busy \<and>
     (case writer_state_of w of W_idle \<Rightarrow> True | W_done \<Rightarrow> True | W_failed \<Rightarrow> True | _ \<Rightarrow> False)"

definition writer_continues :: "layout \<Rightarrow> writer \<Rightarrow> nat \<Rightarrow> bool" where
  "writer_continues L w offset \<longleftrightarrow> offset = 0 \<or>
     offset \<le> uw_erased_until w \<and> uw_erased_until w mod sector_size L = 0 \<and> uw_erased_until w \<le> slot_size L"

context flash_device
begin

lemma writer_begin_ok:
  assumes g: "wf d" and q: "writer_resting F L w" and c: "writer_continues L w offset"
    and b: "writer_begin F L slot offset bytes w d = (S_ok, w1, d1)"
  shows "writer_ok L (mem d1) (w1, d1)" "uw_base w1 = slots L ! slot" "uw_offset w1 = offset" "uw_data w1 = bytes" "uw_status w1 = S_busy"
proof -
  obtain s where p: "fl_poll F d = (s, d1)" "s \<noteq> S_busy" and v: "layout_valid L" "offset mod write_size L = 0"
      "offset < slot_size L" "length bytes \<le> slot_size L - offset" and w1: "w1 = w\<lparr>uw_base := slots L ! slot, uw_offset := offset,
        uw_erased_until := (if offset = 0 then 0 else uw_erased_until w), uw_written := 0,
        uw_data := bytes, uw_requested := True, uw_cancelled := False, uw_status := S_busy\<rparr>"
    using b by (auto simp: writer_begin_def split: if_splits prod.splits)
  have "wf d1" "pending d1 = None" using poll_law [OF g p(1)] p(2) by (auto split: option.splits if_splits)
  moreover have "writer_shape L w1"
    using v c unfolding w1 by (auto simp: writer_shape_def write_position_def writer_continues_def)
  moreover have "writer_memory L (mem d1) w1 (mem d1) None" by (simp add: writer_memory_def w1)
  moreover have "writer_phase L w1 (writer_state_of w1) None"
    using q unfolding w1 by (auto simp: writer_phase_def writer_resting_def split: writer_state.splits)
  ultimately show "writer_ok L (mem d1) (w1, d1)" using q by (simp add: writer_ok_def writer_inv_def writer_resting_def w1)
qed (use b in \<open>auto simp: writer_begin_def split: if_splits prod.splits\<close>)

lemma writer_runs_ok:
  assumes "writer_runs F L x0 x" "ss = sector_size L" "writer_ok L m0 x0"
  shows "writer_ok L m0 x \<and> writer_task (fst x) = writer_task (fst x0)"
  using assms(1,3)
proof (induction rule: writer_runs.induct)
  case (runs_none x)
  then show ?case by simp
next
  case (runs_tick x y)
  obtain w1 d1 w2 d2 where y: "y = (w1, d1)" and t: "writer_tick F L (w1, d1) = (w2, d2)" by fastforce
  have o: "writer_ok L m0 (w1, d1)" "writer_task w1 = writer_task (fst x)" using runs_tick.IH runs_tick.prems y by simp_all
  obtain ns w3 m where s: "writer_step F L (writer_state_of w1) (w1, d1) = (ns, w3, d2)" "w2 = w3\<lparr>uw_machine := m\<rparr>"
    by (rule writer_tick_step [OF _ t]) (use o(1) in \<open>simp add: writer_ok_def\<close>)
  show ?case using writer_tick_ok [OF assms(2) o(1) t] writer_step_task [OF s(1)] s(2) o(2) y t by simp
next
  case (runs_cancel x w1 d1)
  then show ?case by (simp add: writer_cancel_def writer_ok_def writer_inv_def writer_inv_frame)
qed

lemma writer_ok_end:
  assumes "writer_ok L m0 (w, d)" "uw_status w = S_ok"
  shows "map (mem d) [uw_base w + uw_offset w..<uw_base w + uw_offset w + length (uw_data w)] = uw_data w"
    "writer_continues L w (uw_offset w + length (uw_data w))"
proof -
  have i: "writer_shape L w" "writer_memory L m0 w (mem d) (pending d)" "writer_phase L w (writer_state_of w) (pending d)"
    using assms(1) by (simp_all add: writer_ok_def writer_inv_def)
  have l: "uw_written w = length (uw_data w)"
    using i(3) assms(2) by (auto simp: writer_phase_def split: writer_state.splits if_splits)
  show "map (mem d) [uw_base w + uw_offset w..<uw_base w + uw_offset w + length (uw_data w)] = uw_data w"
    using i(2) l by (intro nth_equalityI) (simp_all add: writer_memory_def)
  show "writer_continues L w (uw_offset w + length (uw_data w))"
    using i(1) l by (simp add: writer_shape_def writer_continues_def write_position_def)
qed

lemma writer_ok_rest:
  assumes "writer_ok L m0 (w, d)" "uw_status w \<noteq> S_busy"
  shows "writer_resting F L w"
  using assms by (auto simp: writer_ok_def writer_inv_def writer_phase_def writer_resting_def split: writer_state.splits if_splits)

lemma writer_ok_crash:
  assumes "writer_ok L m0 (w, d)" "crash_image (sector_size L) (pending d) (mem d) m'" "x \<notin> writer_region L w"
  shows "m' x = m0 x"
proof -
  have i: "writer_memory L m0 w (mem d) (pending d)" using assms(1) by (simp add: writer_ok_def writer_inv_def)
  have r: "x \<notin> writer_rest L w" using assms(3) by (auto simp: writer_rest_def writer_region_def write_position_def)
  have "m' x = mem d x"
  proof (cases "pending d")
    case None
    then show ?thesis using assms(2) by (simp add: crash_image_def)
  next
    case (Some p)
    then have "op_partial (sector_size L) p (mem d) m'" "x \<notin> op_region (sector_size L) p"
      using assms(2) i r by (auto simp: crash_image_def writer_memory_def)
    then show ?thesis by (rule op_partial_beyond)
  qed
  then show ?thesis using i assms(3) by (simp add: writer_memory_def)
qed

end

text \<open>
  C38: writing a block of an image. After \<open>begin\<close> has accepted a block for a slot, and whatever ticks and
  cancellations follow, even a power failure with the operation in progress cut short leaves all flash
  outside the rest of that slot as \<open>begin\<close> found it. When the status becomes \<open>ok\<close>, the slot
  holds exactly the block at its offset, and the writer is ready to continue right behind it.
\<close>

theorem block_written:
  assumes dev: "flash_device F mem pending good (sector_size L)" and g: "good d"
    and q: "writer_resting F L w" and c: "writer_continues L w offset"
    and b: "writer_begin F L slot offset bytes w d = (S_ok, w1, d1)"
    and r: "writer_runs F L (w1, d1) (w2, d2)"
    and crash: "crash_image (sector_size L) (pending d2) (mem d2) m'"
  shows "(\<forall>x. x \<notin> {slots L ! slot + offset..<slots L ! slot + slot_size L} \<longrightarrow> m' x = mem d1 x) \<and>
    (uw_status w2 = S_ok \<longrightarrow> map (mem d2) [slots L ! slot + offset..<slots L ! slot + offset + length bytes] = bytes \<and>
       writer_resting F L w2 \<and> writer_continues L w2 (offset + length bytes))"
proof -
  note b1 = flash_device.writer_begin_ok [OF dev g q c b]
  have o: "flash_device.writer_ok F mem pending good L (mem d1) (w2, d2)" "writer_task w2 = writer_task w1"
    using flash_device.writer_runs_ok [OF dev r refl b1(1)] by simp_all
  have e: "uw_base w2 = slots L ! slot" "uw_offset w2 = offset" "uw_data w2 = bytes" using o(2) b1(2-4) by simp_all
  have "m' x = mem d1 x" if "x \<notin> {slots L ! slot + offset..<slots L ! slot + slot_size L}" for x
    by (rule flash_device.writer_ok_crash [OF dev o(1) crash]) (use that e in \<open>simp add: writer_region_def\<close>)
  moreover have "map (mem d2) [slots L ! slot + offset..<slots L ! slot + offset + length bytes] = bytes"
    "writer_continues L w2 (offset + length bytes)" "writer_resting F L w2" if "uw_status w2 = S_ok"
    using flash_device.writer_ok_end [OF dev o(1) that] flash_device.writer_ok_rest [OF dev o(1)] that
    unfolding e by simp_all
  ultimately show ?thesis by blast
qed

section \<open>The writer ends\<close>

text \<open>
  A device whose clock advances: from every instant \<open>start\<close> on, only so many readings in a row lie less than
  \<open>limit\<close> after it. Nothing is said of how long the device is busy: an operation may never end.
\<close>

locale ticking_flash = flash_device F mem pending wf ss
  for F :: "'d flash" and mem pending wf ss +
  fixes limit :: time and remaining :: "time \<Rightarrow> 'd \<Rightarrow> nat"
  assumes now_remaining: "wf d \<Longrightarrow> fl_now F d = (t, d') \<Longrightarrow> t - start < limit \<Longrightarrow> remaining start d' < remaining start d"
    and poll_remaining: "wf d \<Longrightarrow> fl_poll F d = (s, d') \<Longrightarrow> remaining start d' \<le> remaining start d"

text \<open>How much is left: the bytes, the sectors to erase, and where the machine is.\<close>

definition writer_left :: "layout \<Rightarrow> writer_state \<Rightarrow> writer \<Rightarrow> nat" where
  "writer_left L cs w =
     (if uw_status w \<noteq> S_busy then 0 else if uw_requested w then 3 * (length (uw_data w) - uw_written w) + 3 * slot_size L + 4
      else 3 * (length (uw_data w) - uw_written w) + 3 * (slot_size L - uw_erased_until w) +
           (case cs of W_prepare \<Rightarrow> 3 | W_erase_wait \<Rightarrow> 5 | _ \<Rightarrow> 2))"

fun writer_ticks :: "'d flash \<Rightarrow> layout \<Rightarrow> nat \<Rightarrow> writer \<times> 'd \<Rightarrow> writer \<times> 'd" where
  "writer_ticks F L 0 x = x"
| "writer_ticks F L (Suc n) x = writer_ticks F L n (writer_tick F L x)"

lemma writer_runs_first: "writer_runs F L (writer_tick F L x) y \<Longrightarrow> writer_runs F L x y"
proof (induction "writer_tick F L x" y rule: writer_runs.induct)
  case runs_none
  then show ?case by (intro runs_tick writer_runs.runs_none)
qed (auto intro: runs_tick runs_cancel)

lemma writer_ticks_runs: "writer_runs F L x (writer_ticks F L n x)"
proof (induction n arbitrary: x)
  case 0
  show ?case by (simp add: runs_none)
next
  case (Suc n)
  show ?case by (simp add: writer_runs_first [OF Suc])
qed

context ticking_flash
begin

lemma writer_step_nearer:
  assumes lim: "limit = operation_timeout L" and g: "wf d" and inv: "writer_inv L m0 cs w (mem d) (pending d)"
    and st: "uw_status w = S_busy" and step: "writer_step F L cs (w, d) = (ns, w', d')"
  shows "writer_left L ns w' < writer_left L cs w \<or> writer_left L ns w' = writer_left L cs w \<and>
    remaining (uw_operation_started w') d' < remaining (uw_operation_started w) d"
proof -
  have sh: "writer_shape L w" and ph: "writer_phase L w cs (pending d)" using inv by (simp_all add: writer_inv_def)
  show ?thesis
  proof (cases "cs = W_erase_wait \<or> cs = W_program_wait")
    case True
    then have pd: "pending d \<noteq> None" "\<not> uw_requested w" using ph by (auto simp: writer_phase_def)
    have wr: "cs = W_program_wait \<Longrightarrow> uw_written w < length (uw_data w)" using ph by (simp add: writer_phase_def)
    obtain s d1 t d2 where p: "fl_poll F d = (s, d1)" "fl_now F d1 = (t, d2)" by fastforce
    have g1: "wf d1" using conjunct1 [OF poll_law [OF g p(1)]] .
    have pt: "remaining (uw_operation_started w) d2 < remaining (uw_operation_started w) d"
      if "\<not> operation_timeout L \<le> t - uw_operation_started w"
      using poll_remaining [OF g p(1), of "uw_operation_started w"] now_remaining [OF g1 p(2), of "uw_operation_started w"] lim that
      by (auto simp: not_le)
    have ws: "0 < write_size L" using sh layout_valid_sizes(4) [of L] by (auto simp: writer_shape_def)
    have e: "writer_wait F L cs (w, d) = (ns, w', d')" using step True by (auto simp: writer_step_def)
    show ?thesis
    proof (cases "s = S_busy")
      case busy: True
      then show ?thesis using e p pt st True unfolding writer_wait_def writer_poll_def
        by (auto simp: writer_left_def split: if_splits)
    next
      case False
      then show ?thesis using e p st pd(2) wr ws True unfolding writer_wait_def writer_poll_def
        by (auto simp: writer_left_def split: if_splits)
    qed
  next
    case nw: False
    show ?thesis
    proof (cases "cs = W_prepare \<and> \<not> uw_cancelled w \<and> uw_written w \<noteq> length (uw_data w)")
      case True
      then have l: "uw_written w < length (uw_data w)" and rq: "\<not> uw_requested w" using sh ph by (auto simp: writer_shape_def writer_phase_def)
      have "0 < sector_size L" using sh layout_valid_sizes(1) by (simp add: writer_shape_def)
      then show ?thesis using step st True rq l writer_position(3) [OF sh l] sh
        by (auto simp: writer_step_def writer_prepare_def writer_left_def write_position_def writer_shape_def Let_def
            split: if_splits prod.splits)
    next
      case False
      then show ?thesis using nw ph st step
        by (cases cs) (auto simp: writer_step_def writer_phase_def writer_left_def split: if_splits)
    qed
  qed
qed

lemma writer_ticks_end:
  assumes ss: "ss = sector_size L" and lim: "limit = operation_timeout L"
  shows "writer_ok L m0 x \<Longrightarrow> \<exists>n. uw_status (fst (writer_ticks F L n x)) \<noteq> S_busy"
proof (induction "(writer_left L (writer_state_of (fst x)) (fst x), remaining (uw_operation_started (fst x)) (snd x))" arbitrary: x
    rule: wf_induct_rule [OF wf_lex_prod [OF wf_less wf_less]])
  case 1
  obtain w d w' d' where x: "x = (w, d)" and t: "writer_tick F L (w, d) = (w', d')" by fastforce
  show ?case
  proof (cases "uw_status w = S_busy")
    case True
    have o: "writer_ok L m0 (w, d)" using 1(2) x by simp
    then have a: "wf d" "writer_inv L m0 (writer_state_of w) w (mem d) (pending d)" by (simp_all add: writer_ok_def)
    obtain ns w1 m where s: "writer_step F L (writer_state_of w) (w, d) = (ns, w1, d')" "w' = w1\<lparr>uw_machine := m\<rparr>" "sm_cs m = ns"
      by (rule writer_tick_step [OF _ t]) (use o in \<open>simp add: writer_ok_def\<close>)
    have "writer_left L (writer_state_of w') w' = writer_left L ns w1" using s by (simp add: writer_left_def)
    then have "\<exists>n. uw_status (fst (writer_ticks F L n (w', d'))) \<noteq> S_busy"
      using 1(1) [of "(w', d')"] writer_step_nearer [OF lim a True s(1)] writer_tick_ok [OF ss o t] x s(2) by auto
    then obtain n where "uw_status (fst (writer_ticks F L n (w', d'))) \<noteq> S_busy" ..
    then show ?thesis using x t by (intro exI [of _ "Suc n"]) simp
  next
    case False
    then show ?thesis using x by (intro exI [of _ 0]) simp
  qed
qed

end

text \<open>A free-running counter on the host's flash, that may show each of its values in several readings.\<close>

definition counter_clock :: "time \<Rightarrow> nat \<Rightarrow> nat \<Rightarrow> time" where
  "counter_clock base n i = base + of_nat (i div Suc n)"

lemma counter_clock_reaches: "\<exists>k. counter_clock base n (i + k) = t"
proof -
  define c where "c = i + unat (t - base - of_nat i)"
  have "of_nat c = t - base" by (simp add: c_def)
  moreover have "i \<le> c * Suc n" by (simp add: c_def trans_le_add1)
  moreover have "c * Suc n div Suc n = c" by (rule nonzero_mult_div_cancel_right) simp
  ultimately show ?thesis by (intro exI [of _ "c * Suc n - i"]) (simp add: counter_clock_def del: mult_Suc_right)
qed

definition ff_remaining :: "(nat \<Rightarrow> time) \<Rightarrow> time \<Rightarrow> time \<Rightarrow> file_flash \<Rightarrow> nat" where
  "ff_remaining clock limit start d = (LEAST k. limit \<le> clock (ff_readings d + k) - start)"

interpretation ff_ticking: ticking_flash "ff_driver (counter_clock base n)" ff_mem ff_pending "ff_wf ss" ss limit
  "ff_remaining (counter_clock base n) limit" for base n ss limit
proof (unfold_locales, unfold ff_driver_def flash.simps)
  fix d d' :: file_flash and t start
  let ?P = "\<lambda>k. limit \<le> counter_clock base n (ff_readings d + k) - start"
  assume "ff_now (counter_clock base n) d = (t, d')" "t - start < limit"
  then have n: "\<not> ?P 0" "ff_readings d' = Suc (ff_readings d)" by (auto simp: ff_now_def)
  obtain k where "counter_clock base n (ff_readings d + k) = start + limit" using counter_clock_reaches by blast
  then have "?P k" by simp
  from Least_Suc [of ?P, OF this n(1)] n(2)
  show "ff_remaining (counter_clock base n) limit start d' < ff_remaining (counter_clock base n) limit start d"
    by (simp add: ff_remaining_def)
next
  fix d s d' start assume "ff_wf ss d" "ff_poll d = (s, d')"
  then show "ff_remaining (counter_clock base n) limit start d' \<le> ff_remaining (counter_clock base n) limit start d"
    using ff_poll_frame(1) by (simp add: ff_remaining_def)
qed

text \<open>
  C39: every write ends. On a device whose clock advances, a block that \<open>begin\<close> has accepted is at an end
  after finitely many ticks, also when an operation of the device never ends: the limit on the wait stops
  it. The writer then rests, so that \<open>begin\<close> takes the next block once the device is ready.
\<close>

theorem write_ends:
  assumes dev: "ticking_flash F mem pending good (sector_size L) (operation_timeout L) remaining" and g: "good d"
    and q: "writer_resting F L w" and c: "writer_continues L w offset"
    and b: "writer_begin F L slot offset bytes w d = (S_ok, w1, d1)"
  shows "\<exists>n w2 d2. writer_ticks F L n (w1, d1) = (w2, d2) \<and> uw_status w2 \<noteq> S_busy \<and> writer_resting F L w2"
proof -
  have fd: "flash_device F mem pending good (sector_size L)" using dev by (simp add: ticking_flash_def)
  note o = flash_device.writer_begin_ok(1) [OF fd g q c b]
  obtain n where n: "uw_status (fst (writer_ticks F L n (w1, d1))) \<noteq> S_busy"
    using ticking_flash.writer_ticks_end [OF dev refl refl o] by blast
  obtain w2 d2 where t: "writer_ticks F L n (w1, d1) = (w2, d2)" by fastforce
  have "writer_runs F L (w1, d1) (w2, d2)" using writer_ticks_runs [of F L "(w1, d1)" n] t by simp
  then have "flash_device.writer_ok F mem pending good L (mem d1) (w2, d2)"
    using flash_device.writer_runs_ok [OF fd _ refl o] by blast
  then have "writer_resting F L w2" by (rule flash_device.writer_ok_rest [OF fd]) (use n t in simp)
  then show ?thesis using n t by auto
qed

section \<open>A block on the host's flash\<close>

definition ex_slots :: layout where
  "ex_slots = \<lparr>slots = [0, 256], metadata = [512, 768], slot_size = 256, sector_size = 256, write_size = 16,
     product = 1, revision = 1, operation_timeout = 1000\<rparr>"

definition ex_blank :: file_flash where
  "ex_blank = ff_new\<lparr>ff_open := True,
     ff_geometry := \<lparr>geo_base = 0, geo_size = 1024, geo_sector_size = 256, geo_write_size = 16\<rparr>,
     ff_file := replicate 1024 0\<rparr>"

abbreviation ex_ticking :: "file_flash flash" where
  "ex_ticking \<equiv> ff_driver (counter_clock 0 0)"

abbreviation ex_writer :: writer where
  "ex_writer \<equiv> writer_new ex_ticking ex_slots"

definition ex_started :: "writer \<times> file_flash" where
  "ex_started = (ex_writer\<lparr>uw_data := [1, 2, 3], uw_requested := True, uw_status := S_busy\<rparr>, snd (ff_poll ex_blank))"

definition ex_written :: "writer \<times> file_flash" where
  "ex_written = writer_ticks ex_ticking ex_slots 9 ex_started"

lemma ex_slots_valid: "layout_valid ex_slots"
  by (simp add: ex_slots_def layout_valid_def layout_regions_def kRecordSize_def upt_rec)

lemma ex_blank_poll: "fst (ff_poll ex_blank) = S_ok"
  by code_simp

lemma ex_written_status: "uw_status (fst ex_written) = S_ok"
  by code_simp

lemma ex_blank_wf: "ff_wf (sector_size ex_slots) ex_blank"
  using ff_new_shut
  by (simp add: ff_wf_def ff_shut_def ex_blank_def ex_slots_def geometry_valid_def ff_new_def sm_new_def ff_derived_def)

lemma ex_writer_resting: "writer_resting ex_ticking ex_slots ex_writer"
  using writer_sm.new_wf [of ex_ticking ex_slots] by (simp add: writer_resting_def writer_new_def sm_new_def writer_derived_def)

lemma ex_started_begin:
  "writer_begin ex_ticking ex_slots 0 0 [1, 2, 3] ex_writer ex_blank = (S_ok, fst ex_started, snd ex_started)"
proof -
  have "fl_poll ex_ticking ex_blank = (S_ok, snd (ff_poll ex_blank))" using ex_blank_poll by (simp add: ff_driver_def prod_eq_iff)
  moreover have "flash_valid ex_ticking" by (simp add: flash_valid_def ff_driver_def)
  moreover have "slots ex_slots ! 0 = 0" "slot_size ex_slots = 256" by (simp_all add: ex_slots_def)
  ultimately show ?thesis using ex_slots_valid by (simp add: writer_begin_def ex_started_def writer_new_def)
qed

theorem block_written_witness:
  "uw_status (fst ex_written) = S_ok \<and> map (ff_mem (snd ex_written)) [0, 1, 2] = [1, 2, 3] \<and>
   ff_mem (snd ex_written) 256 = ff_mem (snd ex_started) 256"
proof -
  have r: "writer_runs ex_ticking ex_slots (fst ex_started, snd ex_started) (fst ex_written, snd ex_written)"
    unfolding ex_written_def prod.collapse by (rule writer_ticks_runs)
  have c: "crash_image (sector_size ex_slots) (ff_pending (snd ex_written)) (ff_mem (snd ex_written)) (ff_mem (snd ex_written))"
    by (auto simp: crash_image_def op_partial_refl split: option.split)
  have z: "writer_continues ex_slots ex_writer 0" by (simp add: writer_continues_def)
  note th = block_written [OF ff.flash_device_axioms ex_blank_wf ex_writer_resting z ex_started_begin r c]
  have "slots ex_slots ! 0 = 0" "slot_size ex_slots = 256" "[0::nat..<3] = [0, 1, 2]" by (simp_all add: ex_slots_def upt_rec)
  then show ?thesis using th ex_written_status by (simp add: numeral_2_eq_2)
qed

theorem write_ends_witness:
  "\<exists>n w2 d2. writer_ticks ex_ticking ex_slots n (fst ex_started, snd ex_started) = (w2, d2) \<and> uw_status w2 \<noteq> S_busy \<and>
     writer_resting ex_ticking ex_slots w2"
  by (rule write_ends [OF ff_ticking.ticking_flash_axioms ex_blank_wf ex_writer_resting _ ex_started_begin])
    (simp add: writer_continues_def)

end
