(* ===== verification/Spec2Isabelle.thy ===== *)
theory Spec2Isabelle
  imports Boot_Properties Scheduler_Run Duration Logger Command Update_Package Update_Writer
begin

text \<open>
  A verification development of daveos, a cooperative real-time kernel in C++ with a boot journal,
  firmware update, command console and drivers for microcontrollers. Everything named below is under
  src/.

  \<^bold>\<open>The program.\<close> The kernel (lib/core) is a single-threaded scheduler over a platform that supplies a
  clock, critical sections and one timer interrupt; application code is callbacks of modules. Commands
  (lib/core/command) and logging (lib/core/logging) are services on top of it. The boot library (lib/boot)
  keeps two image slots and a journal of snapshots in flash; the bootloader selects a slot with it and the
  running image confirms itself. The host platform (platform/host) has a file-backed flash with the same
  contract as the device drivers.

  \<^bold>\<open>Conventions.\<close> A struct is a record, an enum a datatype, a w-bit integer a word where it can wrap around and
  a natural number where the source has bounded it; \<open>Status\<close> is the datatype \<^typ>\<open>status\<close>. Stateful objects are
  passed and returned explicitly. A loop that need not end is a \<open>partial_function (option)\<close>, so that \<open>None\<close> is
  "does not return"; no other definition is partial, and there is no fuel except for the nesting of
  \<open>yield\<close>, which the depth limit of the scheduler bounds (\<open>sc_yield_fuel\<close> shows that more fuel changes nothing).
  Code that is not in the repository (system calls, \<open>vsnprintf\<close>, application callbacks, the contents a device
  returns) is a parameter or part of the state.

  \<^bold>\<open>Theories.\<close>
  \<^item> \<open>Prelude\<close>, \<open>Foundation\<close>, \<open>Duration\<close>: machine integers, \<open>Time\<close>, \<open>Status\<close>, \<open>After\<close> and \<open>to_microseconds\<close>
    (lib/core/foundation, lib/core/platform). Durations are exact or refused, deadlines saturate.
  \<^item> \<open>State_Machine\<close>: the CRTP state machine (lib/core/state_machine), with the locales \<open>machine\<close> and
    \<open>plain_machine\<close> that every machine of the program interprets.
  \<^item> \<open>Queue\<close>: ring buffer and thread-safe queue (lib/core/queue), over the locales \<open>fifo\<close> and \<open>bounded_queue\<close>. Calls of
    the queue by several threads, interleaved access by access, answer like calls one after the other.
  \<^item> \<open>Match\<close>, \<open>Arguments\<close>, \<open>Command\<close>: names, typed arguments and the dispatcher (lib/core/command). Names are
    matched by unique prefix, numbers round trip, handlers get only values their declarations allow, quoted
    words round trip, \<open>Parse\<close> stays inside its buffers for every line, and a dispatch keeps the scheduler's invariant.
  \<^item> \<open>Log_Format\<close>, \<open>Logger\<close>: presentation of numbers and the buffered logger (lib/core/logging).
  \<^item> \<open>Scheduler\<close>, \<open>Scheduler_Select\<close>, \<open>Scheduler_Inv\<close>, \<open>Scheduler_Run\<close>: the scheduler (lib/core/schedule). A callback is
    a tree of the calls it makes, with time and interrupts between them, so the invariant holds for every
    application and every interleaving. Selection takes what is due first, repeating tasks do not drift,
    \<open>yield\<close> never re-enters a task, and \<open>run\<close> returns after a stop request and ends clean.
  \<^item> \<open>Wire\<close>, \<open>Crc32\<close>, \<open>Flash\<close>, \<open>Journal_Codec\<close>, \<open>Journal\<close>, \<open>Journal_Load\<close>, \<open>Journal_Job\<close>, \<open>Journal_Step\<close>, \<open>Journal_Begin\<close>,
    \<open>Journal_Commit\<close>, \<open>Journal_Prompt\<close>: the boot journal (lib/boot, lib/util) over the locale \<open>flash_device\<close>, what
    the journal needs of the contract of lib/boot/flash.h (\<open>flash_contract\<close> has all of it). A crash at any moment of a write leaves the old or the new snapshot; a commit on a
    working device is durable.
  \<^item> \<open>Boot_Control\<close>, \<open>Boot_Host\<close>, \<open>Boot_Properties\<close>: slot selection, trial and confirmation (lib/boot/control.cpp), and
    their properties on the host's flash.
  \<^item> \<open>File_Flash\<close>, \<open>Journal_Host\<close>: the host's flash (platform/host/flash.cpp), an instance of \<open>flash_device\<close> on every
    clock and of \<open>flash_contract\<close> on a monotonic one, and the journal on it.
  \<^item> \<open>Update_Package\<close>: the firmware package and its stream parser (lib/update/package.cpp). A block the parser hands over
    is the one in the stream with its patches applied, however the stream was cut into calls.
  \<^item> \<open>Update_Writer\<close>: the writer of image blocks (lib/update/writer.cpp), over the device contract of \<open>Flash\<close>. A write
    touches only the rest of its slot, also across a power failure, leaves the block there when it reports \<open>ok\<close>, and always
    ends on a device whose clock advances, even one that stays busy: the time limit on a wait stops it. No number of ticks is assumed.

  \<^bold>\<open>Bounds.\<close> Flash addresses are naturals; \<open>Layout::valid\<close> bounds every region by \<open>2 ^ 32\<close>, and the journal's theorems
  assume in addition that no metadata sector ends exactly there, where its 32-bit address loops would wrap.

  \<^bold>\<open>Not modelled.\<close> Floating-point command arguments and the text of \<open>log_statistics\<close>; the compile-time binding of
  modules and events (templates without run-time behaviour); the watchdog, OTP store, update engine, console, bus HAL, storage and drivers; the network services, which are callbacks of
  the lwIP stack; the host's threads and clocks; the STM32 platforms, bootloaders and generated vendor
  initialisation, which are register accesses; examples and tests.
\<close>

end
